(* ===== verification/PyText.thy ===== *)
theory PyText
  imports Main "HOL-Library.AList" "HOL-Library.Char_ord" "HOL-Library.List_Lexorder"
    "HOL-Library.Product_Lexorder"
begin

text \<open>
  The Python values the scripts compute with, shared by every component: text, integers,
  dictionaries and exceptions. A Python \<open>str\<close> is a HOL \<^typ>\<open>string\<close>; a HOL character is one
  of the code points 0 to 255, and the character classes below (white space, word characters,
  line boundaries, lower case) are Python's own on that range, so a text is modelled exactly as
  long as it stays inside it. A file's text is what \<open>open(...).read()\<close> returns, so line ends
  are already translated to a newline. A \<open>dict\<close> is an association list in insertion order,
  updated in place by \<^const>\<open>AList.update\<close>, which is how a Python dictionary iterates; a
  \<open>set\<close> of which only membership matters is a list without a promise about its order.
  Ordering (\<open>sorted\<close>, comparison of tuples and strings) is the lexicographic order of the
  library over code points.
\<close>

named_theorems py_simps \<open>defining equations of the Python text layer, for evaluation\<close>

type_synonym str = string

subsection \<open>Exceptions\<close>

text \<open>
  Every \<open>raise\<close>, failed built-in call and \<open>sys.exit(message)\<close> of the sources is a value of
  this type; a function that can fail returns \<open>exc + 'a\<close>.
\<close>

datatype exc =
    ValueError str
  | IndexError
  | KeyError str
  | ZeroDivisionError
  | StopIteration
  | TypeError
  | RecursionError
  | RuntimeError str
  | CalledProcessError
  | SystemExit str

type_synonym 'a res = "exc + 'a"

definition bind_res :: "'a res \<Rightarrow> ('a \<Rightarrow> 'b res) \<Rightarrow> 'b res" where
  "bind_res m f = (case m of Inl e \<Rightarrow> Inl e | Inr x \<Rightarrow> f x)"

lemma bind_res_simps [simp, py_simps]:
  "bind_res (Inl e) f = Inl e"
  "bind_res (Inr x) f = f x"
  by (simp_all add: bind_res_def)

lemma bind_res_Inr_iff: "bind_res m f = Inr y \<longleftrightarrow> (\<exists>x. m = Inr x \<and> f x = Inr y)"
  by (cases m) auto

text \<open>A loop whose body may raise: the first exception ends it.\<close>

primrec fold_res :: "('a \<Rightarrow> 's \<Rightarrow> 's res) \<Rightarrow> 'a list \<Rightarrow> 's \<Rightarrow> 's res" where
  "fold_res f [] s = Inr s"
| "fold_res f (x # xs) s = bind_res (f x s) (fold_res f xs)"

primrec map_res :: "('a \<Rightarrow> 'b res) \<Rightarrow> 'a list \<Rightarrow> 'b list res" where
  "map_res f [] = Inr []"
| "map_res f (x # xs) = bind_res (f x) (\<lambda>y. bind_res (map_res f xs) (\<lambda>ys. Inr (y # ys)))"

lemma fold_res_inv:
  "(\<And>x s s'. Q s \<Longrightarrow> f x s = Inr s' \<Longrightarrow> Q s') \<Longrightarrow> Q s \<Longrightarrow> fold_res f xs s = Inr s' \<Longrightarrow> Q s'"
  by (induction xs arbitrary: s) (auto simp: bind_res_Inr_iff)

lemma fold_res_inv_in:
  "(\<And>x s s'. x \<in> set xs \<Longrightarrow> Q s \<Longrightarrow> f x s = Inr s' \<Longrightarrow> Q s') \<Longrightarrow> Q s \<Longrightarrow> fold_res f xs s = Inr s' \<Longrightarrow> Q s'"
  by (induction xs arbitrary: s) (auto simp: bind_res_Inr_iff)

lemma map_res_total: "(\<And>x. x \<in> set xs \<Longrightarrow> f x = Inr (g x)) \<Longrightarrow> map_res f xs = Inr (map g xs)"
  by (induction xs) auto

lemma map_res_length: "map_res f xs = Inr ys \<Longrightarrow> length ys = length xs"
  by (induction xs arbitrary: ys) (auto simp: bind_res_Inr_iff)

subsection \<open>Characters\<close>

abbreviation code :: "char \<Rightarrow> nat" where
  "code c \<equiv> of_char c"

abbreviation nl :: char where
  "nl \<equiv> CHR 0x0A"

abbreviation dquote :: char where
  "dquote \<equiv> CHR 0x22"

abbreviation bslash :: char where
  "bslash \<equiv> CHR 0x5C"

definition is_digit :: "char \<Rightarrow> bool" where
  "is_digit c \<longleftrightarrow> 48 \<le> code c \<and> code c \<le> 57"

definition is_space :: "char \<Rightarrow> bool" where
  "is_space c \<longleftrightarrow> 9 \<le> code c \<and> code c \<le> 13 \<or> 28 \<le> code c \<and> code c \<le> 32 \<or> code c = 133 \<or> code c = 160"

definition is_alpha_ascii :: "char \<Rightarrow> bool" where
  "is_alpha_ascii c \<longleftrightarrow> 65 \<le> code c \<and> code c \<le> 90 \<or> 97 \<le> code c \<and> code c \<le> 122"

definition is_alnum :: "char \<Rightarrow> bool" where
  "is_alnum c \<longleftrightarrow> is_digit c \<or> is_alpha_ascii c
     \<or> code c \<in> {170, 178, 179, 181, 185, 186, 188, 189, 190}
     \<or> 192 \<le> code c \<and> code c \<noteq> 215 \<and> code c \<noteq> 247"

definition is_word :: "char \<Rightarrow> bool" where
  "is_word c \<longleftrightarrow> is_alnum c \<or> c = CHR ''_''"

definition is_line_end :: "char \<Rightarrow> bool" where
  "is_line_end c \<longleftrightarrow> 10 \<le> code c \<and> code c \<le> 13 \<or> 28 \<le> code c \<and> code c \<le> 30 \<or> code c = 133"

definition lower_char :: "char \<Rightarrow> char" where
  "lower_char c = (if 65 \<le> code c \<and> code c \<le> 90 \<or> 192 \<le> code c \<and> code c \<le> 222 \<and> code c \<noteq> 215
     then char_of (code c + 32) else c)"

definition lower :: "str \<Rightarrow> str" where
  "lower = map lower_char"

definition digit_val :: "char \<Rightarrow> nat" where
  "digit_val c = code c - 48"

definition digit_char :: "nat \<Rightarrow> char" where
  "digit_char n = char_of (48 + n)"

lemma code_digit_char: "n < 10 \<Longrightarrow> code (digit_char n) = 48 + n"
  by (simp add: digit_char_def)

lemma is_digit_digit_char [simp]: "n < 10 \<Longrightarrow> is_digit (digit_char n)"
  by (simp add: is_digit_def code_digit_char)

lemma digit_val_digit_char [simp]: "n < 10 \<Longrightarrow> digit_val (digit_char n) = n"
  by (simp add: digit_val_def code_digit_char)

lemma digit_val_less: "is_digit c \<Longrightarrow> digit_val c < 10"
  unfolding is_digit_def digit_val_def by linarith

lemma digit_char_digit_val [simp]: "is_digit c \<Longrightarrow> digit_char (digit_val c) = c"
  by (simp add: is_digit_def digit_val_def digit_char_def)

lemma digit_char_inj: "m < 10 \<Longrightarrow> n < 10 \<Longrightarrow> digit_char m = digit_char n \<longleftrightarrow> m = n"
  by (metis digit_val_digit_char)

lemma is_digit_is_word: "is_digit c \<Longrightarrow> is_word c"
  by (simp add: is_word_def is_alnum_def)

lemma is_digit_not_space: "is_digit c \<Longrightarrow> \<not> is_space c"
  by (auto simp: is_digit_def is_space_def)

subsection \<open>Tests, slices and stripping\<close>

definition startswith :: "str \<Rightarrow> str \<Rightarrow> bool" where
  "startswith s p \<longleftrightarrow> take (length p) s = p"

definition endswith :: "str \<Rightarrow> str \<Rightarrow> bool" where
  "endswith s p \<longleftrightarrow> length p \<le> length s \<and> drop (length s - length p) s = p"

lemma startswith_append [simp]: "startswith (p @ s) p"
  by (simp add: startswith_def)

lemma startswith_iff: "startswith s p \<longleftrightarrow> (\<exists>t. s = p @ t)"
  by (metis append_eq_conv_conj startswith_append startswith_def append_take_drop_id)

lemma startswith_Nil [simp]: "startswith s []"
  by (simp add: startswith_def)

lemma startswith_Cons [simp]: "startswith (c # s) (d # p) \<longleftrightarrow> c = d \<and> startswith s p"
  by (auto simp: startswith_def)

lemma Nil_startswith [simp]: "startswith [] p \<longleftrightarrow> p = []"
  by (auto simp: startswith_def)

lemma endswith_iff: "endswith s p \<longleftrightarrow> (\<exists>t. s = t @ p)"
proof
  assume "endswith s p"
  then show "\<exists>t. s = t @ p"
    by (metis append_take_drop_id endswith_def)
qed (auto simp: endswith_def)

text \<open>\<open>sub in s\<close>.\<close>

fun contains :: "str \<Rightarrow> str \<Rightarrow> bool" where
  "contains [] p \<longleftrightarrow> p = []"
| "contains (c # s) p \<longleftrightarrow> startswith (c # s) p \<or> contains s p"

lemma contains_iff: "contains s p \<longleftrightarrow> (\<exists>u v. s = u @ p @ v)"
proof (induction s)
  case Nil
  then show ?case by auto
next
  case (Cons c s)
  show ?case
  proof
    assume "contains (c # s) p"
    then show "\<exists>u v. c # s = u @ p @ v"
      using Cons.IH by (metis append_Cons append_Nil contains.simps(2) startswith_iff)
  next
    assume "\<exists>u v. c # s = u @ p @ v"
    then obtain u v where uv: "c # s = u @ p @ v" by blast
    show "contains (c # s) p"
    proof (cases u)
      case Nil
      with uv have "startswith (c # s) p" by (metis append_Nil startswith_append)
      then show ?thesis by simp
    next
      case (Cons d u')
      with uv have "s = u' @ p @ v" by simp
      with Cons.IH have "contains s p" by blast
      then show ?thesis by simp
    qed
  qed
qed

lemma contains_self [simp]: "contains s s"
  by (metis append_Nil append_Nil2 contains_iff)

lemma contains_trans: "contains s t \<Longrightarrow> contains t u \<Longrightarrow> contains s u"
  by (metis append.assoc contains_iff)

lemma contains_append: "contains (u @ p @ v) p"
  by (auto simp: contains_iff)

definition lstrip_by :: "(char \<Rightarrow> bool) \<Rightarrow> str \<Rightarrow> str" where
  "lstrip_by = dropWhile"

definition rstrip_by :: "(char \<Rightarrow> bool) \<Rightarrow> str \<Rightarrow> str" where
  "rstrip_by p s = rev (dropWhile p (rev s))"

definition lstrip :: "str \<Rightarrow> str" where
  "lstrip = lstrip_by is_space"

definition rstrip :: "str \<Rightarrow> str" where
  "rstrip = rstrip_by is_space"

definition strip :: "str \<Rightarrow> str" where
  "strip s = rstrip (lstrip s)"

lemma lstrip_by_suffix: "\<exists>u. s = u @ lstrip_by p s"
  by (metis lstrip_by_def takeWhile_dropWhile_id)

lemma rstrip_by_prefix: "\<exists>v. s = rstrip_by p s @ v"
  by (metis rev_append rev_rev_ident rstrip_by_def takeWhile_dropWhile_id)

lemma strip_infix: "contains s (strip s)"
proof -
  obtain u where "s = u @ lstrip s"
    using lstrip_by_suffix lstrip_def by metis
  moreover obtain v where "lstrip s = strip s @ v"
    using rstrip_by_prefix strip_def rstrip_def by metis
  ultimately show ?thesis
    unfolding contains_iff by metis
qed

lemma strip_Nil [simp]: "strip [] = []"
  by (simp add: strip_def rstrip_def lstrip_def rstrip_by_def lstrip_by_def)

lemma strip_ends:
  assumes "s = [] \<or> \<not> is_space (hd s) \<and> \<not> is_space (last s)"
  shows "strip s = s"
proof (cases "s = []")
  case False
  with assms have h: "\<not> is_space (hd s)" "\<not> is_space (last s)" by auto
  then have "dropWhile is_space s = s"
    by (metis dropWhile_eq_self_iff)
  moreover have "dropWhile is_space (rev s) = rev s"
    by (metis dropWhile_eq_self_iff h(2) hd_rev)
  ultimately show ?thesis
    by (simp add: strip_def rstrip_def lstrip_def rstrip_by_def lstrip_by_def)
qed simp

lemma strip_idem [simp]: "strip (strip s) = strip s"
proof (rule strip_ends)
  have "strip s \<noteq> [] \<Longrightarrow> \<not> is_space (last (strip s))"
    unfolding strip_def rstrip_def rstrip_by_def
    by (metis hd_dropWhile last_rev rev_is_Nil_conv)
  moreover have "strip s \<noteq> [] \<Longrightarrow> \<not> is_space (hd (strip s))"
  proof -
    assume ne: "strip s \<noteq> []"
    obtain v where v: "lstrip s = strip s @ v"
      using rstrip_by_prefix strip_def rstrip_def by metis
    with ne have "hd (strip s) = hd (lstrip s)" "lstrip s \<noteq> []" by auto
    then show ?thesis
      by (metis hd_dropWhile lstrip_by_def lstrip_def)
  qed
  ultimately show "strip s = [] \<or> \<not> is_space (hd (strip s)) \<and> \<not> is_space (last (strip s))"
    by blast
qed

subsection \<open>Splitting and joining\<close>

text \<open>
  \<open>s.split(c)\<close> for one character, \<open>s.split()\<close> on white space, \<open>s.split('\n')\<close>, the lines of
  an open file (each with its newline), \<open>splitlines()\<close>, \<open>partition\<close> and \<open>rpartition\<close>.
\<close>

fun split_char :: "char \<Rightarrow> str \<Rightarrow> str list" where
  "split_char d [] = [[]]"
| "split_char d (c # s) =
     (if c = d then [] # split_char d s
      else (case split_char d s of [] \<Rightarrow> [[c]] | w # ws \<Rightarrow> (c # w) # ws))"

lemma split_char_ne [simp]: "split_char d s \<noteq> []"
  by (induction s) (auto split: list.splits)

fun join :: "str \<Rightarrow> str list \<Rightarrow> str" where
  "join d [] = []"
| "join d [w] = w"
| "join d (w # v # ws) = w @ d @ join d (v # ws)"

lemma join_Cons: "ws \<noteq> [] \<Longrightarrow> join d (w # ws) = w @ d @ join d ws"
  by (cases ws) auto

lemma join_hd_Cons: "join d ((c # w) # ws) = c # join d (w # ws)"
  by (cases ws) auto

lemma join_split_char [simp]: "join [d] (split_char d s) = s"
proof (induction s)
  case (Cons c s)
  obtain w ws where "split_char d s = w # ws"
    using split_char_ne by (metis list.exhaust)
  with Cons show ?case by (auto simp: join_hd_Cons)
qed simp

lemma split_char_no_sep: "d \<notin> set s \<Longrightarrow> split_char d s = [s]"
  by (induction s) auto

lemma split_char_append: "d \<notin> set w \<Longrightarrow> split_char d (w @ d # s) = w # split_char d s"
  by (induction w) auto

lemma split_char_join:
  "ws \<noteq> [] \<Longrightarrow> (\<And>w. w \<in> set ws \<Longrightarrow> d \<notin> set w) \<Longrightarrow> split_char d (join [d] ws) = ws"
proof (induction ws)
  case (Cons w ws)
  show ?case
  proof (cases "ws = []")
    case True
    with Cons.prems show ?thesis by (simp add: split_char_no_sep)
  next
    case False
    with Cons show ?thesis by (simp add: join_Cons split_char_append)
  qed
qed simp

lemma split_char_parts: "w \<in> set (split_char d s) \<Longrightarrow> d \<notin> set w"
  by (induction s arbitrary: w) (auto split: list.splits if_splits)

text \<open>The lines of \<open>s.split('\n')\<close>.\<close>

abbreviation split_nl :: "str \<Rightarrow> str list" where
  "split_nl \<equiv> split_char nl"

text \<open>Iterating over an open file: lines with their newline, no empty last line.\<close>

fun file_lines :: "str \<Rightarrow> str list" where
  "file_lines [] = []"
| "file_lines (c # s) =
     (if c = nl then [nl] # file_lines s
      else (case file_lines s of [] \<Rightarrow> [[c]] | w # ws \<Rightarrow> (c # w) # ws))"

lemma concat_file_lines [simp]: "concat (file_lines s) = s"
  by (induction s) (auto split: list.splits)

text \<open>\<open>str.splitlines()\<close>: every line boundary character ends a line (the pair CR LF counts
  once), no empty last line.\<close>

fun splitlines :: "str \<Rightarrow> str list" where
  "splitlines [] = []"
| "splitlines (c # s) =
     (if is_line_end c
      then [] # splitlines (if c = CHR 0x0D \<and> startswith s [nl] then tl s else s)
      else (case splitlines s of [] \<Rightarrow> [[c]] | w # ws \<Rightarrow> (c # w) # ws))"

text \<open>\<open>s.split()\<close>: maximal runs of characters that are not white space.\<close>

fun split_ws :: "str \<Rightarrow> str list" where
  "split_ws [] = []"
| "split_ws (c # s) =
     (if is_space c then split_ws s
      else if s = [] \<or> is_space (hd s) then [c] # split_ws s
      else (case split_ws s of [] \<Rightarrow> [[c]] | w # ws \<Rightarrow> (c # w) # ws))"

lemma split_ws_no_space: "w \<in> set (split_ws s) \<Longrightarrow> w \<noteq> [] \<and> (\<forall>c \<in> set w. \<not> is_space c)"
  by (induction s arbitrary: w) (fastforce split: list.splits if_splits)+

lemma space_not_word: "is_space c \<Longrightarrow> \<not> is_word c"
  by (auto simp: is_space_def is_word_def is_alnum_def is_alpha_ascii_def is_digit_def)

lemma split_ws_blanks: "list_all is_space g \<Longrightarrow> split_ws (g @ s) = split_ws s"
  by (induction g) auto

lemma split_ws_word:
  "w \<noteq> [] \<Longrightarrow> \<forall>c \<in> set w. \<not> is_space c \<Longrightarrow> s = [] \<or> is_space (hd s) \<Longrightarrow> split_ws (w @ s) = w # split_ws s"
proof (induction w)
  case (Cons c w)
  then show ?case by (cases w) auto
qed simp

lemma split_ws_at: "is_space c \<Longrightarrow> split_ws (s @ c # t) = split_ws s @ split_ws t"
proof (induction s)
  case (Cons d s)
  show ?case
  proof (cases "is_space d \<or> s = []")
    case False
    then obtain e r where "s = e # r" by (cases s) auto
    then have "\<not> is_space e \<Longrightarrow> split_ws s \<noteq> []" by (cases r) (auto split: list.splits)
    with Cons False show ?thesis
      by (auto simp: \<open>s = e # r\<close> split_ws.simps(2) [of d] simp del: split_ws.simps(2) split: list.splits)
  qed (use Cons in auto)
qed simp

lemma file_lines_Nil_iff: "file_lines s = [] \<longleftrightarrow> s = []"
  by (cases s) (auto split: list.splits)

lemma file_lines_at: "file_lines (s @ nl # t) = file_lines (s @ [nl]) @ file_lines t"
  by (induction s) (auto simp: file_lines_Nil_iff split: list.splits)

lemma file_lines_infix: "l \<in> set (file_lines s) \<Longrightarrow> contains s l"
  by (metis concat_file_lines contains_append concat_append concat.simps(2) split_list)

text \<open>The first occurrence of \<open>d\<close>: what precedes and what follows it.\<close>

fun cut :: "str \<Rightarrow> str \<Rightarrow> (str \<times> str) option" where
  "cut d [] = (if d = [] then Some ([], []) else None)"
| "cut d (c # s) =
     (if startswith (c # s) d then Some ([], drop (length d) (c # s))
      else (case cut d s of None \<Rightarrow> None | Some (u, v) \<Rightarrow> Some (c # u, v)))"

text \<open>\<open>s.partition(d)\<close>, \<open>s.rpartition(d)\<close>: (before, separator found, after).\<close>

definition partition_str :: "str \<Rightarrow> str \<Rightarrow> str \<times> bool \<times> str" where
  "partition_str d s = (case cut d s of None \<Rightarrow> (s, False, []) | Some (u, v) \<Rightarrow> (u, True, v))"

definition rcut :: "str \<Rightarrow> str \<Rightarrow> (str \<times> str) option" where
  "rcut d s = (case cut (rev d) (rev s) of None \<Rightarrow> None | Some (u, v) \<Rightarrow> Some (rev v, rev u))"

definition rpartition_str :: "str \<Rightarrow> str \<Rightarrow> str \<times> bool \<times> str" where
  "rpartition_str d s = (case rcut d s of None \<Rightarrow> ([], False, s) | Some (u, v) \<Rightarrow> (u, True, v))"

lemma cut_Some: "cut d s = Some (u, v) \<Longrightarrow> s = u @ d @ v"
proof (induction d s arbitrary: u v rule: cut.induct)
  case (2 d c s)
  then show ?case
    by (auto simp: startswith_iff split: if_splits option.splits)
qed (auto split: if_splits)

lemma cut_None_iff: "cut d s = None \<longleftrightarrow> \<not> contains s d"
  by (induction d s rule: cut.induct) (auto split: option.splits)

lemma cut_contains: "contains s d \<longleftrightarrow> (\<exists>u v. cut d s = Some (u, v))"
  using cut_None_iff by (metis not_None_eq surj_pair)

lemma rcut_Some: "rcut d s = Some (u, v) \<Longrightarrow> s = u @ d @ v"
  unfolding rcut_def
  by (auto split: option.splits dest!: cut_Some)
     (metis append.assoc rev_append rev_rev_ident)

text \<open>\<open>s.split(d)[0]\<close>: the text before the first separator, or all of it.\<close>

definition before :: "str \<Rightarrow> str \<Rightarrow> str" where
  "before d s = (case cut d s of None \<Rightarrow> s | Some (u, v) \<Rightarrow> u)"

lemma before_prefix: "\<exists>v. s = before d s @ v"
  by (auto simp: before_def split: option.splits dest: cut_Some)

text \<open>\<open>s.replace(old, new)\<close> for a non-empty \<open>old\<close>: left to right, no overlap.\<close>

function (sequential) replace_all :: "str \<Rightarrow> str \<Rightarrow> str \<Rightarrow> str" where
  "replace_all old new [] = []"
| "replace_all old new (c # s) =
     (if old \<noteq> [] \<and> startswith (c # s) old
      then new @ replace_all old new (drop (length old - 1) s)
      else c # replace_all old new s)"
  by pat_completeness auto
termination
  by (relation "measure (\<lambda>(old, new, s). length s)") (auto simp: le_imp_less_Suc)

lemma replace_all_absent: "\<not> contains s old \<Longrightarrow> replace_all old new s = s"
  by (induction s) auto

text \<open>\<open>s.replace(old, new, 1)\<close>.\<close>

definition replace_once :: "str \<Rightarrow> str \<Rightarrow> str \<Rightarrow> str" where
  "replace_once old new s = (case cut old s of None \<Rightarrow> s | Some (u, v) \<Rightarrow> u @ new @ v)"

subsection \<open>Padding\<close>

definition ljust :: "nat \<Rightarrow> str \<Rightarrow> str" where
  "ljust n s = s @ replicate (n - length s) (CHR '' '')"

definition rjust :: "nat \<Rightarrow> str \<Rightarrow> str" where
  "rjust n s = replicate (n - length s) (CHR '' '') @ s"

definition zfill :: "nat \<Rightarrow> str \<Rightarrow> str" where
  "zfill n s = (case s of
     c # r \<Rightarrow> if c \<in> {CHR ''+'', CHR ''-''}
              then c # replicate (n - length s) (CHR ''0'') @ r
              else replicate (n - length s) (CHR ''0'') @ s
   | [] \<Rightarrow> replicate n (CHR ''0''))"

lemma length_ljust [simp]: "length (ljust n s) = max n (length s)"
  by (simp add: ljust_def)

lemma length_rjust [simp]: "length (rjust n s) = max n (length s)"
  by (simp add: rjust_def)

subsection \<open>Integers and their decimal text\<close>

fun nat_str :: "nat \<Rightarrow> str" where
  "nat_str n = (if n < 10 then [digit_char n] else nat_str (n div 10) @ [digit_char (n mod 10)])"

declare nat_str.simps [simp del]

definition int_str :: "int \<Rightarrow> str" where
  "int_str i = (if i < 0 then CHR ''-'' # nat_str (nat (- i)) else nat_str (nat i))"

text \<open>
  \<open>int(s)\<close>: white space around, one optional sign, decimal digits, single underscores between
  digits; \<open>None\<close> is the \<open>ValueError\<close>.
\<close>

fun int_digits :: "nat \<Rightarrow> str \<Rightarrow> nat option" where
  "int_digits acc [] = Some acc"
| "int_digits acc (c # s) =
     (if is_digit c then int_digits (10 * acc + digit_val c) s
      else if c = CHR ''_'' \<and> s \<noteq> [] \<and> is_digit (hd s) then int_digits acc s
      else None)"

definition py_nat :: "str \<Rightarrow> nat option" where
  "py_nat s = (if s \<noteq> [] \<and> is_digit (hd s) then int_digits 0 s else None)"

definition py_int :: "str \<Rightarrow> int option" where
  "py_int s =
     (case strip s of
        [] \<Rightarrow> None
      | c # r \<Rightarrow>
          if c = CHR ''-'' then map_option (\<lambda>n. - int n) (py_nat r)
          else if c = CHR ''+'' then map_option int (py_nat r)
          else map_option int (py_nat (c # r)))"

lemma nat_str_ne [simp]: "nat_str n \<noteq> []"
  by (subst nat_str.simps) simp

lemma nat_str_digits: "c \<in> set (nat_str n) \<Longrightarrow> is_digit c"
proof (induction n rule: nat_str.induct)
  case (1 n)
  then show ?case
    by (subst (asm) nat_str.simps) (auto split: if_splits)
qed

lemma nat_str_hd_last: "is_digit (hd (nat_str n))" "is_digit (last (nat_str n))"
  by (rule nat_str_digits [of _ n], simp)+

lemma int_digits_append:
  "(\<And>c. c \<in> set s \<Longrightarrow> is_digit c) \<Longrightarrow>
   int_digits acc (s @ t) = int_digits (fold (\<lambda>c a. 10 * a + digit_val c) s acc) t"
  by (induction s arbitrary: acc) auto

lemma nat_str_fold: "fold (\<lambda>c a. 10 * a + digit_val c) (nat_str n) 0 = n"
proof (induction n rule: nat_str.induct)
  case (1 n)
  show ?case
  proof (cases "n < 10")
    case True
    then show ?thesis by (simp add: nat_str.simps [of n])
  next
    case False
    with 1 show ?thesis by (simp add: nat_str.simps [of n])
  qed
qed

lemma py_nat_nat_str [simp]: "py_nat (nat_str n) = Some n"
  using int_digits_append [of "nat_str n" 0 "[]"] nat_str_digits [of _ n] nat_str_hd_last [of n]
  by (simp add: py_nat_def nat_str_fold)

lemma strip_nat_str [simp]: "strip (nat_str n) = nat_str n"
  by (rule strip_ends) (simp add: nat_str_hd_last is_digit_not_space)

lemma sign_not_digit [simp]: "\<not> is_digit (CHR ''-'')" "\<not> is_digit (CHR ''+'')"
  by (simp_all add: is_digit_def)

lemma sign_not_space [simp]: "\<not> is_space (CHR ''-'')" "\<not> is_space (CHR ''+'')"
  by (simp_all add: is_space_def)

lemma py_int_nat_str [simp]: "py_int (nat_str n) = Some (int n)"
proof -
  obtain c r where cr: "nat_str n = c # r"
    using nat_str_ne by (metis list.exhaust)
  then have "is_digit c"
    using nat_str_hd_last [of n] by simp
  then have "c \<noteq> CHR ''-'' \<and> c \<noteq> CHR ''+''"
    by auto
  with cr show ?thesis
    using py_nat_nat_str [of n] strip_nat_str [of n] by (simp add: py_int_def)
qed

lemma py_int_int_str [simp]: "py_int (int_str i) = Some i"
proof (cases "i < 0")
  case True
  have "strip (CHR ''-'' # nat_str (nat (- i))) = CHR ''-'' # nat_str (nat (- i))"
    by (rule strip_ends) (simp add: nat_str_hd_last is_digit_not_space)
  with True show ?thesis
    by (simp add: int_str_def py_int_def)
qed (simp add: int_str_def)

lemma int_str_chars: "c \<in> set (int_str v) \<Longrightarrow> is_digit c \<or> c = CHR ''-''"
  using nat_str_digits by (auto simp: int_str_def split: if_splits)

lemma nat_str_inj: "nat_str m = nat_str n \<longleftrightarrow> m = n"
  by (metis option.inject py_nat_nat_str)

lemma nat_str_last_digit: "last (nat_str n) = digit_char (n mod 10)"
  by (subst nat_str.simps) auto

lemma nat_str_butlast: "butlast (nat_str n) = (if n < 10 then [] else nat_str (n div 10))"
  by (subst nat_str.simps) auto

subsection \<open>Dictionaries\<close>

text \<open>
  What the scripts rely on in a dictionary: \<open>d.get(k)\<close> after \<open>d[k] = v\<close>. The lemmas of this
  interface describe the accumulation every tool performs over its records,
  \<open>acc[k] = max(acc.get(k, 0), n)\<close>, whatever the keys are.
\<close>

locale keyed_store =
  fixes get :: "'m \<Rightarrow> 'k \<Rightarrow> nat option"
    and put :: "'k \<Rightarrow> nat \<Rightarrow> 'm \<Rightarrow> 'm"
    and none :: "'m"
  assumes get_none: "get none k = None"
    and get_put: "get (put k v m) j = (if j = k then Some v else get m j)"
begin

lemma get_max_fold_from:
  "get (fold (\<lambda>r m. put (key r) (max (case get m (key r) of None \<Rightarrow> 0 | Some n \<Rightarrow> n) (cnt r)) m) rs m) k =
     (let vs = map cnt (filter (\<lambda>r. key r = k) rs)
      in if vs = [] then get m k
         else Some (fold max vs (case get m k of None \<Rightarrow> 0 | Some n \<Rightarrow> n)))"
  by (induction rs arbitrary: m) (auto simp: get_put Let_def max.commute split: option.splits)

lemma get_max_fold:
  "get (fold (\<lambda>r m. put (key r) (max (case get m (key r) of None \<Rightarrow> 0 | Some n \<Rightarrow> n) (cnt r)) m) rs none) k =
     (let vs = map cnt (filter (\<lambda>r. key r = k) rs)
      in if vs = [] then None else Some (fold max vs 0))"
  by (simp add: get_max_fold_from get_none)

end

interpretation dict: keyed_store map_of AList.update "[]"
  by unfold_locales (auto simp: update_conv)

lemma fold_max_ge: "n \<le> fold max ns (n :: nat)"
  by (induction ns arbitrary: n) (simp, metis fold_Cons max.cobounded2 o_apply order.trans)

lemma fold_max_mem: "v \<in> set vs \<Longrightarrow> v \<le> fold max vs (n :: nat)"
proof (induction vs arbitrary: n)
  case (Cons w vs)
  then show ?case
    using fold_max_ge [of "max w n" vs] by auto
qed simp

lemma fold_max_0_iff: "fold max vs (0 :: nat) = 0 \<longleftrightarrow> (\<forall>v \<in> set vs. v = 0)"
proof
  assume "\<forall>v \<in> set vs. v = 0"
  then show "fold max vs 0 = 0" by (induction vs) auto
qed (metis fold_max_mem le_zero_eq)

lemma fold_max_Max: "fold max vs (n :: nat) = Max (insert n (set vs))"
  by (metis List.finite_set Max.set_eq_fold list.simps(15))

text \<open>\<open>collections.Counter\<close> and \<open>dict.setdefault(k, []).append(v)\<close>.\<close>

definition bump :: "'k \<Rightarrow> ('k \<times> nat) list \<Rightarrow> ('k \<times> nat) list" where
  "bump k d = AList.update k (Suc (case map_of d k of None \<Rightarrow> 0 | Some n \<Rightarrow> n)) d"

definition append_at :: "'k \<Rightarrow> 'v \<Rightarrow> ('k \<times> 'v list) list \<Rightarrow> ('k \<times> 'v list) list" where
  "append_at k v d = AList.update k ((case map_of d k of None \<Rightarrow> [] | Some vs \<Rightarrow> vs) @ [v]) d"

definition group_by :: "('r \<Rightarrow> 'k) \<Rightarrow> ('r \<Rightarrow> 'v) \<Rightarrow> 'r list \<Rightarrow> ('k \<times> 'v list) list" where
  "group_by key val rs = fold (\<lambda>r d. append_at (key r) (val r) d) rs []"

lemma map_of_append_at:
  "map_of (append_at k v d) j =
     (if j = k then Some ((case map_of d k of None \<Rightarrow> [] | Some vs \<Rightarrow> vs) @ [v]) else map_of d j)"
  by (simp add: append_at_def update_conv')

lemma map_of_group_from:
  "map_of (fold (\<lambda>r d. append_at (key r) (val r) d) rs d) k =
     (let vs = map val (filter (\<lambda>r. key r = k) rs)
      in if vs = [] then map_of d k
         else Some ((case map_of d k of None \<Rightarrow> [] | Some us \<Rightarrow> us) @ vs))"
  by (induction rs arbitrary: d) (auto simp: map_of_append_at Let_def split: option.splits)

lemma map_of_group_by:
  "map_of (group_by key val rs) k =
     (let vs = map val (filter (\<lambda>r. key r = k) rs) in if vs = [] then None else Some vs)"
  by (simp add: group_by_def map_of_group_from)

lemma distinct_group_from:
  "distinct (map fst d) \<Longrightarrow> distinct (map fst (fold (\<lambda>r d. append_at (key r) (val r) d) rs d))"
  by (induction rs arbitrary: d) (auto simp: append_at_def distinct_update)

lemma distinct_group_by: "distinct (map fst (group_by key val rs))"
  by (simp add: group_by_def distinct_group_from)

lemma group_by_mem_iff:
  "(k, vs) \<in> set (group_by key val rs) \<longleftrightarrow>
     vs = map val (filter (\<lambda>r. key r = k) rs) \<and> vs \<noteq> []"
proof -
  have "(k, vs) \<in> set (group_by key val rs) \<longleftrightarrow> map_of (group_by key val rs) k = Some vs"
    using distinct_group_by by (metis map_of_eq_Some_iff)
  then show ?thesis
    by (auto simp: map_of_group_by Let_def)
qed

lemma map_of_bump:
  "map_of (bump k d) j = (if j = k then Some (Suc (case map_of d k of None \<Rightarrow> 0 | Some n \<Rightarrow> n)) else map_of d j)"
  by (simp add: bump_def update_conv')

end
