(* ===== verification/PosixPath.thy ===== *)
theory PosixPath
  imports PyText
begin

text \<open>
  The functions of \<open>os.path\<close> the scripts call, on POSIX path strings: splitting at the last
  slash, joining, normalising and making relative. None of them looks at the file system; the
  current directory is an argument.
\<close>

definition basename :: "str \<Rightarrow> str" where
  "basename p = last (split_char CHR ''/'' p)"

definition dirname :: "str \<Rightarrow> str" where
  "dirname p =
     (let head = rev (dropWhile (\<lambda>c. c \<noteq> CHR ''/'') (rev p))
      in if set head \<subseteq> {CHR ''/''} then head else rstrip_by (\<lambda>c. c = CHR ''/'') head)"

definition path_join :: "str \<Rightarrow> str \<Rightarrow> str" where
  "path_join a b =
     (if startswith b ''/'' then b
      else if a = [] \<or> endswith a ''/'' then a @ b
      else a @ ''/'' @ b)"

text \<open>\<open>normpath\<close>: one pass over the components with the result so far as a stack.\<close>

definition norm_step :: "bool \<Rightarrow> str \<Rightarrow> str list \<Rightarrow> str list" where
  "norm_step rooted c out =
     (if c = [] \<or> c = ''.'' then out
      else if c \<noteq> ''..'' \<or> \<not> rooted \<and> out = [] \<or> out \<noteq> [] \<and> last out = ''..'' then out @ [c]
      else if out \<noteq> [] then butlast out
      else out)"

definition normpath :: "str \<Rightarrow> str" where
  "normpath p =
     (if p = [] then ''.''
      else
        (let slashes = (if startswith p ''//'' \<and> \<not> startswith p ''///'' then ''//''
                        else if startswith p ''/'' then ''/'' else []);
             comps = fold (norm_step (slashes \<noteq> [])) (split_char CHR ''/'' p) [];
             r = slashes @ join ''/'' comps
         in if r = [] then ''.'' else r))"

definition abspath :: "str \<Rightarrow> str \<Rightarrow> str" where
  "abspath cwd p = normpath (if startswith p ''/'' then p else path_join cwd p)"

fun drop_common :: "str list \<Rightarrow> str list \<Rightarrow> str list \<times> str list" where
  "drop_common (x # xs) (y # ys) = (if x = y then drop_common xs ys else (x # xs, y # ys))"
| "drop_common xs ys = (xs, ys)"

definition relpath :: "str \<Rightarrow> str \<Rightarrow> str \<Rightarrow> str" where
  "relpath cwd p start =
     (let (up, down) = drop_common (filter (\<lambda>c. c \<noteq> []) (split_char CHR ''/'' (abspath cwd start)))
                                   (filter (\<lambda>c. c \<noteq> []) (split_char CHR ''/'' (abspath cwd p)));
          rel = replicate (length up) ''..'' @ down
      in if rel = [] then ''.'' else join ''/'' rel)"

definition splitext :: "str \<Rightarrow> str \<times> str" where
  "splitext p =
     (case rcut ''.'' p of
        None \<Rightarrow> (p, [])
      | Some (u, v) \<Rightarrow>
          if CHR ''/'' \<in> set v \<or> (\<forall>c \<in> set (basename u). c = CHR ''.'') then (p, [])
          else (u, CHR ''.'' # v))"

lemma basename_no_slash: "CHR ''/'' \<notin> set (basename p)"
  unfolding basename_def by (rule split_char_parts) (rule last_in_set, simp)

lemma split_char_concat: "split_char d (u @ d # v) = split_char d u @ split_char d v"
proof (induction u)
  case (Cons c u)
  then show ?case
    by (cases "split_char d u") (auto dest: split_char_ne [THEN notE])
qed simp

lemma split_char_append_last: "last (split_char d (u @ d # v)) = last (split_char d v)"
  by (simp add: split_char_concat)

lemma basename_join: "CHR ''/'' \<notin> set f \<Longrightarrow> basename (d @ CHR ''/'' # f) = f"
  by (simp add: basename_def split_char_append_last split_char_no_sep)

lemma basename_plain: "CHR ''/'' \<notin> set f \<Longrightarrow> basename f = f"
  by (simp add: basename_def split_char_no_sep)

lemma basename_endswith:
  assumes "CHR ''/'' \<notin> set f" and "endswith p (CHR ''/'' # f)"
  shows "basename p = f"
proof -
  obtain d where "p = d @ CHR ''/'' # f" using assms(2) by (auto simp: endswith_iff)
  then show ?thesis using basename_join [OF assms(1)] by simp
qed

subsection \<open>Absolute normal forms\<close>

definition comps_ok :: "str list \<Rightarrow> bool" where
  "comps_ok cs \<longleftrightarrow> (\<forall>c \<in> set cs. c \<noteq> [] \<and> c \<noteq> ''.'' \<and> c \<noteq> ''..'' \<and> CHR ''/'' \<notin> set c)"

definition normal_path :: "str \<Rightarrow> bool" where
  "normal_path p \<longleftrightarrow> (\<exists>cs. p = CHR ''/'' # join ''/'' cs \<and> comps_ok cs)"

lemma fold_norm_ok:
  "comps_ok out \<Longrightarrow> (\<And>c. c \<in> set cs \<Longrightarrow> CHR ''/'' \<notin> set c) \<Longrightarrow> comps_ok (fold (norm_step True) cs out)"
proof (induction cs arbitrary: out)
  case (Cons c cs)
  have "comps_ok (norm_step True c out)"
    using Cons.prems by (auto simp: norm_step_def comps_ok_def dest: in_set_butlastD)
  with Cons show ?case by simp
qed simp

lemma fold_norm_fixed: "comps_ok cs \<Longrightarrow> fold (norm_step True) cs out = out @ cs"
  by (induction cs arbitrary: out) (auto simp: norm_step_def comps_ok_def)

lemma join_comps_hd: "comps_ok cs \<Longrightarrow> join ''/'' cs = [] \<or> hd (join ''/'' cs) \<noteq> CHR ''/''"
  by (cases cs; cases "tl cs"; cases "hd cs") (auto simp: comps_ok_def)

lemma normpath_normal_form:
  assumes "startswith p ''/''" and "\<not> startswith p ''//''"
  shows "normal_path (normpath p)"
proof -
  define cs where "cs = fold (norm_step True) (split_char CHR ''/'' p) []"
  have "comps_ok cs"
    unfolding cs_def by (rule fold_norm_ok) (auto simp: comps_ok_def dest: split_char_parts)
  moreover have "normpath p = CHR ''/'' # join ''/'' cs"
    using assms by (cases p) (auto simp: normpath_def Let_def cs_def)
  ultimately show ?thesis by (auto simp: normal_path_def)
qed

lemma normal_path_start: "normal_path p \<Longrightarrow> startswith p ''/'' \<and> \<not> startswith p ''//''"
  by (auto simp: normal_path_def startswith_iff dest!: join_comps_hd)

lemma normpath_of_normal: "normal_path p \<Longrightarrow> normpath p = p"
proof -
  assume n: "normal_path p"
  then obtain cs where cs: "p = CHR ''/'' # join ''/'' cs" "comps_ok cs" by (auto simp: normal_path_def)
  have "fold (norm_step True) (split_char CHR ''/'' p) [] = cs"
  proof (cases "cs = []")
    case True
    then show ?thesis by (simp add: cs(1) norm_step_def)
  next
    case False
    have "split_char CHR ''/'' (join ''/'' cs) = cs"
      using False cs(2) by (intro split_char_join) (auto simp: comps_ok_def)
    then show ?thesis
      using fold_norm_fixed [OF cs(2), of "[]"] by (simp add: cs(1) norm_step_def)
  qed
  with normal_path_start [OF n] cs(1) show ?thesis
    by (simp add: normpath_def Let_def)
qed

lemma abspath_of_normal: "normal_path p \<Longrightarrow> abspath cwd p = p"
  using normal_path_start normpath_of_normal by (simp add: abspath_def)

lemma normal_no_double: "normal_path p \<Longrightarrow> p \<noteq> []"
  by (auto simp: normal_path_def)

lemma dirname_prefix: "\<exists>v. p = dirname p @ v"
proof -
  define head where "head = rev (dropWhile (\<lambda>c. c \<noteq> CHR ''/'') (rev p))"
  have "p = head @ rev (takeWhile (\<lambda>c. c \<noteq> CHR ''/'') (rev p))"
    unfolding head_def by (metis rev_append rev_rev_ident takeWhile_dropWhile_id)
  moreover obtain v where "head = rstrip_by (\<lambda>c. c = CHR ''/'') head @ v"
    using rstrip_by_prefix by blast
  ultimately show ?thesis
    unfolding dirname_def Let_def head_def [symmetric] by (metis append.assoc)
qed

lemma dirname_absolute: "startswith p ''/'' \<Longrightarrow> startswith (dirname p) ''/''"
proof -
  assume "startswith p ''/''"
  then obtain r where p: "p = CHR ''/'' # r" by (auto simp: startswith_iff)
  define head where "head = rev (dropWhile (\<lambda>c. c \<noteq> CHR ''/'') (rev p))"
  have "head \<noteq> []" by (simp add: head_def p)
  have "dirname p \<noteq> []"
  proof (cases "set head \<subseteq> {CHR ''/''}")
    case True
    with \<open>head \<noteq> []\<close> show ?thesis by (simp add: dirname_def head_def)
  next
    case False
    then have "rstrip_by (\<lambda>c. c = CHR ''/'') head \<noteq> []"
      by (auto simp: rstrip_by_def)
    with False show ?thesis by (simp add: dirname_def head_def)
  qed
  moreover obtain v where "p = dirname p @ v" using dirname_prefix by blast
  ultimately show ?thesis using p by (cases "dirname p") auto
qed

lemma join_under_normal:
  assumes "startswith base ''/''" and "\<not> startswith base ''//''" and "\<not> startswith t ''//''"
  shows "startswith (path_join base t) ''/'' \<and> \<not> startswith (path_join base t) ''//''"
proof (cases "startswith t ''/''")
  case True
  with assms show ?thesis by (simp add: path_join_def)
next
  case False
  obtain r where r: "base = CHR ''/'' # r" using assms(1) by (auto simp: startswith_iff)
  then have "r = [] \<or> hd r \<noteq> CHR ''/''" using assms(2) by (cases r) auto
  with False r show ?thesis
    by (cases r; cases t) (auto simp: path_join_def endswith_iff)
qed

lemma abspath_join_normal:
  assumes "normal_path path" and "\<not> startswith t ''//''"
  shows "normal_path (abspath cwd (path_join (dirname path) t))"
proof -
  obtain v where v: "path = dirname path @ v" using dirname_prefix by blast
  note st = normal_path_start [OF assms(1)]
  have "\<not> startswith (dirname path) ''//''"
  proof
    assume "startswith (dirname path) ''//''"
    then have "startswith (dirname path @ v) ''//''" by (auto simp: startswith_iff)
    with v st show False by simp
  qed
  from join_under_normal [OF dirname_absolute [OF st [THEN conjunct1]] this assms(2)]
  show ?thesis by (simp add: abspath_def normpath_normal_form)
qed

end
