(* ===== verification/Flatten.thy ===== *)
theory Flatten
  imports PosixPath "HOL-Library.Sublist"
begin

text \<open>
  \<open>flatten_filelist.py\<close>: a filelist and everything it includes, as one list of lines that no
  longer depends on a directory. The file system is an argument: a path is a file with its text,
  a directory, or absent. \<open>Path.resolve()\<close> is the absolute normal form of a path; the trees the
  script runs on hold no symbolic links. Python's recursion limit is the fuel of the recursion,
  and running out of it is \<open>RecursionError\<close>.
\<close>

datatype node = File str | Dir

type_synonym fsys = "(str \<times> node) list"

definition resolve :: "str \<Rightarrow> str \<Rightarrow> str" where
  "resolve cwd p = abspath cwd p"

definition exists :: "fsys \<Rightarrow> str \<Rightarrow> bool" where
  "exists fs p \<longleftrightarrow> map_of fs p \<noteq> None"

subsection \<open>Flattening\<close>

datatype warning = NestedNotFound str str | FileNotFound str str | CannotOpen str

text \<open>The state every call shares: the processed files, and what went to \<open>stderr\<close>.\<close>

record fstate =
  processed :: "str list"
  warnings :: "warning list"

definition warn :: "warning \<Rightarrow> fstate \<Rightarrow> fstate" where
  "warn w st = st\<lparr>warnings := warnings st @ [w]\<rparr>"

text \<open>A line without white space around it, comments and inline \<open>//\<close> comments removed.\<close>

definition clean_line :: "str \<Rightarrow> str" where
  "clean_line line =
     (let s = strip line
      in if s = [] \<or> startswith s ''//'' \<or> startswith s ''#'' then [] else strip (before ''//'' s))"

definition incdir_tag :: str where
  "incdir_tag = ''+incdir+''"

type_synonym fresult = "(str list \<times> fstate) res"

definition line_step ::
    "(str \<Rightarrow> fstate \<Rightarrow> fresult) \<Rightarrow> fsys \<Rightarrow> str \<Rightarrow> str \<Rightarrow> str list \<times> fstate \<Rightarrow> fresult" where
  "line_step rec fs path line acc =
     (case acc of (out, st) \<Rightarrow>
        let s = clean_line line; base = dirname path
        in if s = [] then Inr (out, st)
           else if startswith s ''-f '' then
             (let full = resolve [] (path_join base (strip (drop 3 s)))
              in if exists fs full then bind_res (rec full st) (\<lambda>(ls, st1). Inr (out @ ls, st1))
                 else Inr (out, warn (NestedNotFound full path) st))
           else if startswith s incdir_tag then
             (let inc = drop (length incdir_tag) s
              in if startswith inc ''./'' then Inr (out @ [incdir_tag @ inc], st)
                 else Inr (out @ [incdir_tag @ resolve [] (path_join base inc)], st))
           else if startswith s ''+'' \<or> startswith s ''-'' then Inr (out @ [s], st)
           else if startswith s ''./'' then Inr (out @ [s], st)
           else
             (let full = resolve [] (path_join base s)
              in Inr (out @ [full], if exists fs full then st else warn (FileNotFound full path) st)))"

text \<open>\<open>process_filelist\<close> on a resolved path.\<close>

primrec process :: "nat \<Rightarrow> fsys \<Rightarrow> str \<Rightarrow> fstate \<Rightarrow> fresult" where
  "process 0 fs path st = Inl RecursionError"
| "process (Suc n) fs path st =
     (if path \<in> set (processed st) then Inr ([], st)
      else
        (let st1 = st\<lparr>processed := path # processed st\<rparr>
         in case map_of fs path of
              None \<Rightarrow> Inr ([], warn (CannotOpen path) st1)
            | Some Dir \<Rightarrow> Inl (RuntimeError ''IsADirectoryError'')
            | Some (File t) \<Rightarrow> fold_res (line_step (process n fs) fs path) (file_lines t) ([], st1)))"

definition process_filelist :: "nat \<Rightarrow> fsys \<Rightarrow> str \<Rightarrow> str \<Rightarrow> fresult" where
  "process_filelist limit fs cwd filepath =
     process limit fs (resolve cwd filepath) \<lparr>processed = [], warnings = []\<rparr>"

subsection \<open>Duplicates\<close>

definition is_incdir :: "str \<Rightarrow> bool" where
  "is_incdir l = startswith l incdir_tag"

definition is_directive :: "str \<Rightarrow> bool" where
  "is_directive l \<longleftrightarrow> \<not> is_incdir l \<and> (startswith l ''+'' \<or> startswith l ''-'')"

definition is_local :: "str \<Rightarrow> bool" where
  "is_local l = startswith l ''./''"

fun dedup_from :: "str list \<Rightarrow> str list \<Rightarrow> str list \<times> nat" where
  "dedup_from seen [] = ([], 0)"
| "dedup_from seen (l # ls) =
     (if is_directive l then (let (out, n) = dedup_from seen ls in (l # out, n))
      else if l \<in> set seen then (let (out, n) = dedup_from seen ls in (out, Suc n))
      else (let (out, n) = dedup_from (l # seen) ls in (l # out, n)))"

definition dedup_lines :: "str list \<Rightarrow> str list" where
  "dedup_lines ls = fst (dedup_from [] ls)"

definition dropped :: "str list \<Rightarrow> nat" where
  "dropped ls = snd (dedup_from [] ls)"

subsection \<open>Relative paths\<close>

definition relativize_line :: "str \<Rightarrow> str \<Rightarrow> str \<Rightarrow> str" where
  "relativize_line cwd base l =
     (let rel = (\<lambda>p. relpath cwd (resolve cwd p) base)
      in if is_incdir l then
           (let inc = drop (length incdir_tag) l
            in incdir_tag @ (if startswith inc ''./'' then inc else rel inc))
         else if startswith l ''+'' \<or> startswith l ''-'' then l
         else if is_local l then l
         else rel l)"

definition relativize_lines :: "str \<Rightarrow> str list \<Rightarrow> str \<Rightarrow> str list" where
  "relativize_lines cwd ls base = map (relativize_line cwd (resolve cwd base)) ls"

subsection \<open>Output formats\<close>

definition unlines :: "str list \<Rightarrow> str" where
  "unlines ls = concat (map (\<lambda>l. l @ [nl]) ls)"

definition slash_rule :: str where
  "slash_rule = ''//========================================================='' "

definition hash_rule :: str where
  "hash_rule = ''#========================================================='' "

definition emit_raw :: "str \<Rightarrow> str \<Rightarrow> str list \<Rightarrow> str" where
  "emit_raw cwd src ls =
     unlines ([slash_rule, ''// AUTO-GENERATED FLATTENED FILELIST  (do not edit)'',
       ''// Source: '' @ resolve cwd src, ''// Entries: '' @ nat_str (length ls), slash_rule, []] @ ls)"

definition tcl_files :: "str list \<Rightarrow> str list" where
  "tcl_files ls = filter (\<lambda>l. \<not> is_incdir l \<and> \<not> is_directive l \<and> \<not> is_local l) ls"

definition tcl_incdirs :: "str list \<Rightarrow> str list" where
  "tcl_incdirs ls = map (drop (length incdir_tag)) (filter is_incdir ls)"

definition tcl_list :: "str \<Rightarrow> str list \<Rightarrow> str list" where
  "tcl_list name xs =
     (if xs = [] then [''set '' @ name @ '' [list]'']
      else [''set '' @ name @ '' [list '' @ [bslash]] @ map (\<lambda>x. ''    '' @ x @ '' '' @ [bslash]) xs @ ['']''])"

definition emit_tcl :: "str \<Rightarrow> str \<Rightarrow> str list \<Rightarrow> str" where
  "emit_tcl cwd src ls =
     unlines ([hash_rule, ''# AUTO-GENERATED RTL FILELIST  (do not edit)'',
       ''# Source : '' @ resolve cwd src, ''# Files  : '' @ nat_str (length (tcl_files ls)),
       ''# Incdirs: '' @ nat_str (length (tcl_incdirs ls)), hash_rule, []] @
       tcl_list ''RTL_SOURCE_FILES'' (tcl_files ls) @ [[]] @ tcl_list ''RTL_INCDIRS'' (tcl_incdirs ls))"

text \<open>\<open>Path(p).suffix\<close>\<close>

definition suffix :: "str \<Rightarrow> str" where
  "suffix p =
     (case rcut ''.'' (basename p) of
        None \<Rightarrow> []
      | Some (u, v) \<Rightarrow> if u = [] \<or> v = [] then [] else CHR ''.'' # v)"

definition macro_row :: "str \<Rightarrow> (str \<times> str) list" where
  "macro_row t =
     (let s = strip t in if s = [] then [] else [(''VERILOG_MACRO'', [dquote] @ s @ [dquote])])"

definition source_kind :: "str \<Rightarrow> str" where
  "source_kind l =
     (let ext = lower (suffix l)
      in if ext = ''.sv'' then ''SYSTEMVERILOG_FILE''
         else if ext = ''.vhd'' \<or> ext = ''.vhdl'' then ''VHDL_FILE'' else ''VERILOG_FILE'')"

definition qsf_row :: "str \<Rightarrow> (str \<times> str) list" where
  "qsf_row l =
     (if is_incdir l then [(''SEARCH_PATH'', drop (length incdir_tag) l)]
      else if startswith l ''+define+'' then macro_row (drop 8 l)
      else if startswith l ''-D'' then macro_row (drop 2 l)
      else if startswith l ''+'' \<or> startswith l ''-'' then []
      else if is_local l then []
      else [(source_kind l, l)])"

definition qsf_rows :: "str list \<Rightarrow> (str \<times> str) list" where
  "qsf_rows ls = concat (map qsf_row ls)"

definition emit_qsf :: "str \<Rightarrow> str \<Rightarrow> str list \<Rightarrow> str" where
  "emit_qsf cwd src ls =
     (let rows = qsf_rows ls; n = length (filter (\<lambda>(name, v). endswith name ''_FILE'') rows)
      in unlines ([hash_rule, ''# AUTO-GENERATED QUARTUS SOURCE ASSIGNMENTS  (do not edit)'',
           ''# Source this file from your project .qsf:  source <this_file>'',
           ''# Source : '' @ resolve cwd src, ''# Files  : '' @ nat_str n, hash_rule, []] @
           map (\<lambda>(name, v). ''set_global_assignment -name '' @ ljust 18 name @ '' '' @ v) rows))"

datatype format = FRaw | FTcl | FQsf

definition main :: "nat \<Rightarrow> fsys \<Rightarrow> str \<Rightarrow> format \<Rightarrow> str option \<Rightarrow> str \<Rightarrow> str res" where
  "main limit fs cwd fmt relative_to input =
     bind_res (process_filelist limit fs cwd input) (\<lambda>(ls, st).
       let ls1 = dedup_lines ls;
           ls2 = (case relative_to of
                    Some d \<Rightarrow> if d = [] then ls1 else relativize_lines cwd ls1 d
                  | None \<Rightarrow> ls1)
       in Inr (case fmt of FRaw \<Rightarrow> emit_raw cwd input ls2 | FTcl \<Rightarrow> emit_tcl cwd input ls2
               | FQsf \<Rightarrow> emit_qsf cwd input ls2))"

subsection \<open>The recursion ends\<close>

lemma fold_res_no_error:
  assumes "\<And>x acc. Q acc \<Longrightarrow> f x acc \<noteq> Inl e \<and> (\<forall>acc'. f x acc = Inr acc' \<longrightarrow> Q acc')" and "Q acc"
  shows "fold_res f xs acc \<noteq> Inl e"
  using assms(2)
proof (induction xs arbitrary: acc)
  case (Cons x xs)
  with assms(1) [of acc x] show ?case by (cases "f x acc") auto
qed simp

text \<open>One line either leaves the processed set alone or hands it to the recursive call.\<close>

lemma line_step_state:
  assumes "line_step rec fs path line (out, st) = Inr (out', st')"
  shows "processed st' = processed st \<or>
    (\<exists>full ls. rec full st = Inr (ls, st') \<and> out' = out @ ls \<and> exists fs full)"
  using assms
  by (auto simp: line_step_def Let_def warn_def bind_res_Inr_iff split: if_splits)

lemma bind_res_Inl_iff: "bind_res m f = Inl e \<longleftrightarrow> m = Inl e \<or> (\<exists>x. m = Inr x \<and> f x = Inl e)"
  by (cases m) auto

lemma line_step_error:
  assumes "line_step rec fs path line (out, st) = Inl e"
  shows "\<exists>full. rec full st = Inl e"
  using assms
  by (auto simp: line_step_def Let_def bind_res_Inl_iff split: if_splits)

lemma process_mono: "process n fs path st = Inr (ls, st') \<Longrightarrow> set (processed st) \<subseteq> set (processed st')"
proof (induction n arbitrary: path st ls st')
  case (Suc n)
  have step: "set (processed st1) \<subseteq> set (processed s2)"
    if "set (processed st1) \<subseteq> set (processed s1)" "line_step (process n fs) fs path line (o1, s1) = Inr (o2, s2)"
    for st1 s1 s2 line o1 o2
  proof -
    have "set (processed s1) \<subseteq> set (processed s2)"
      using line_step_state [OF that(2)]
    proof
      assume "\<exists>full ls. process n fs full s1 = Inr (ls, s2) \<and> o2 = o1 @ ls \<and> exists fs full"
      then show ?thesis using Suc.IH by blast
    qed simp
    with that(1) show ?thesis by (rule subset_trans)
  qed
  have loop: "set (processed st1) \<subseteq> set (processed s2)"
    if "fold_res (line_step (process n fs) fs path) lns ([], st1) = Inr (o2, s2)" for lns st1 o2 s2
    using fold_res_inv [where Q = "\<lambda>acc. set (processed st1) \<subseteq> set (processed (snd acc))", OF _ _ that] step
    by fastforce
  show ?case
    using Suc.prems loop
    by (force simp: Let_def warn_def split: if_splits option.splits node.splits)
qed simp

lemma process_no_recursion_error:
  "card (fst ` set fs - set (processed st)) < n \<Longrightarrow> process n fs path st \<noteq> Inl RecursionError"
proof (induction n arbitrary: path st)
  case (Suc n)
  show ?case
  proof (cases "path \<notin> set (processed st) \<and> (\<exists>t. map_of fs path = Some (File t))")
    case True
    then obtain t where t: "map_of fs path = Some (File t)" by blast
    define st1 where "st1 = st\<lparr>processed := path # processed st\<rparr>"
    have "path \<in> fst ` set fs" using t by (force dest: map_of_SomeD)
    then have "fst ` set fs - set (processed st1) \<subset> fst ` set fs - set (processed st)"
      using True by (auto simp: st1_def)
    then have "card (fst ` set fs - set (processed st1)) < card (fst ` set fs - set (processed st))"
      by (rule psubset_card_mono [rotated]) simp
    with Suc.prems have less: "card (fst ` set fs - set (processed st1)) < n" by linarith
    have "fold_res (line_step (process n fs) fs path) (file_lines t) ([], st1) \<noteq> Inl RecursionError"
    proof (rule fold_res_no_error [where Q = "\<lambda>acc. set (processed st1) \<subseteq> set (processed (snd acc))"])
      fix line and acc :: "str list \<times> fstate"
      assume sub: "set (processed st1) \<subseteq> set (processed (snd acc))"
      obtain o1 s1 where acc: "acc = (o1, s1)" by fastforce
      have "card (fst ` set fs - set (processed s1)) \<le> card (fst ` set fs - set (processed st1))"
        using sub acc by (intro card_mono) auto
      with less have "process n fs full s1 \<noteq> Inl RecursionError" for full
        by (intro Suc.IH) linarith
      then have "line_step (process n fs) fs path line (o1, s1) \<noteq> Inl RecursionError"
        using line_step_error by blast
      moreover have "set (processed st1) \<subseteq> set (processed s2)"
        if "line_step (process n fs) fs path line (o1, s1) = Inr (o2, s2)" for o2 s2
      proof -
        have "set (processed s1) \<subseteq> set (processed s2)"
          using line_step_state [OF that]
        proof
          assume "\<exists>full ls. process n fs full s1 = Inr (ls, s2) \<and> o2 = o1 @ ls \<and> exists fs full"
          then show ?thesis using process_mono by blast
        qed simp
        with sub acc show ?thesis by simp
      qed
      ultimately show "line_step (process n fs) fs path line acc \<noteq> Inl RecursionError \<and>
          (\<forall>acc'. line_step (process n fs) fs path line acc = Inr acc' \<longrightarrow>
             set (processed st1) \<subseteq> set (processed (snd acc')))"
        unfolding acc by auto
    qed simp
    with True t show ?thesis by (simp add: Let_def st1_def)
  next
    case False
    then consider "path \<in> set (processed st)" | "path \<notin> set (processed st)" "map_of fs path = None"
      | "path \<notin> set (processed st)" "map_of fs path = Some Dir"
      by (cases "map_of fs path") (auto, metis node.exhaust)
    then show ?thesis by cases simp_all
  qed
qed simp

text \<open>
  C12. Flattening ends, circular includes or not: with a recursion limit above the number of
  files, \<open>process_filelist\<close> never runs into \<open>RecursionError\<close>, because no filelist is entered twice.
\<close>

theorem flatten_terminates:
  assumes "length fs < limit"
  shows "process_filelist limit fs cwd input \<noteq> Inl RecursionError"
proof -
  have "card (fst ` set fs) < limit"
    using assms card_image_le [of "set fs" fst] card_length [of fs] by simp
  then show ?thesis
    unfolding process_filelist_def by (intro process_no_recursion_error) simp
qed

definition loop_fs :: fsys where
  "loop_fs = [(''/p/a.f'', File (''-f b.f'' @ [nl] @ ''x.v'' @ [nl])), (''/p/b.f'', File (''-f a.f'' @ [nl] @ ''y.v'' @ [nl]))]"

theorem flatten_terminates_witness:
  "process_filelist 3 loop_fs ''/p'' ''a.f'' \<noteq> Inl RecursionError"
  by (rule flatten_terminates) (simp add: loop_fs_def)

subsection \<open>The lines no longer depend on a directory\<close>

definition portable :: "str \<Rightarrow> bool" where
  "portable l \<longleftrightarrow>
     (if is_incdir l then is_local (drop (length incdir_tag) l) \<or> normal_path (drop (length incdir_tag) l)
      else is_directive l \<or> is_local l \<or> normal_path l)"

lemma cut_first: "cut d s = Some (u, v) \<Longrightarrow> d \<noteq> [] \<Longrightarrow> \<not> contains u d"
proof (induction s arbitrary: u)
  case (Cons c s)
  show ?case
  proof (cases "startswith (c # s) d")
    case True
    with Cons.prems show ?thesis by (cases d) simp_all
  next
    case False
    with Cons.prems obtain u' where u: "u = c # u'" "cut d s = Some (u', v)"
      by (auto split: option.splits)
    have "s = u' @ d @ v" using cut_Some [OF u(2)] .
    with False have "\<not> startswith (c # u') d"
      by (auto simp: startswith_iff) (metis append.assoc append_Cons)
    with Cons.IH [OF u(2) Cons.prems(2)] show ?thesis by (simp add: u(1))
  qed
qed (simp split: if_splits)

lemma before_not_contains: "d \<noteq> [] \<Longrightarrow> \<not> contains (before d s) d"
  by (auto simp: before_def cut_None_iff [symmetric] split: option.splits dest: cut_first)

lemma clean_line_no_comment: "\<not> contains (clean_line line) ''//''"
proof -
  have "\<not> contains (strip (before ''//'' t)) ''//''" for t
    using before_not_contains [of "''//''" t] contains_trans [OF strip_infix [of "before ''//'' t"]] by blast
  then show ?thesis by (simp add: clean_line_def Let_def)
qed

lemma no_comment_drop: "\<not> contains s ''//'' \<Longrightarrow> \<not> startswith (drop n s) ''//''"
  by (metis append.assoc append_take_drop_id contains_append startswith_iff)

lemma no_comment_strip: "\<not> contains s ''//'' \<Longrightarrow> \<not> startswith (strip s) ''//''"
  by (metis append_Nil contains_append contains_trans startswith_iff strip_infix)

lemma portable_incdir: "portable (incdir_tag @ inc) \<longleftrightarrow> is_local inc \<or> normal_path inc"
  by (simp add: portable_def is_incdir_def)

lemma normal_not_tagged: "normal_path p \<Longrightarrow> \<not> is_incdir p \<and> \<not> is_directive p \<and> \<not> is_local p"
  by (auto simp: normal_path_def is_incdir_def is_directive_def is_local_def incdir_tag_def)

lemma line_step_portable:
  assumes "normal_path path"
    and "\<And>full st ls st'. normal_path full \<Longrightarrow> rec full st = Inr (ls, st') \<Longrightarrow> list_all portable ls"
    and "list_all portable out" and "line_step rec fs path line (out, st) = Inr (out', st')"
  shows "list_all portable out'"
proof -
  define s where "s = clean_line line"
  have nc: "\<not> contains s ''//''" unfolding s_def by (rule clean_line_no_comment)
  have norm: "normal_path (resolve [] (path_join (dirname path) t))" if "\<not> startswith t ''//''" for t
    unfolding resolve_def by (rule abspath_join_normal [OF assms(1) that])
  note drop_norm = norm [OF no_comment_drop [OF nc]]
  have strip_norm: "normal_path (resolve [] (path_join (dirname path) (strip (drop 3 s))))"
    using nc by (intro norm no_comment_strip) (metis append.right_neutral append_take_drop_id contains_append contains_trans)
  have whole_norm: "normal_path (resolve [] (path_join (dirname path) s))"
    using drop_norm [of 0] by simp
  show ?thesis
    using assms(3,4) drop_norm [of "length incdir_tag"] strip_norm whole_norm assms(2) normal_not_tagged
    unfolding line_step_def prod.case Let_def s_def [symmetric]
    by (auto simp: bind_res_Inr_iff portable_incdir warn_def is_local_def
        portable_def is_directive_def is_incdir_def split: if_splits)
qed

lemma process_portable:
  "normal_path path \<Longrightarrow> process n fs path st = Inr (ls, st') \<Longrightarrow> list_all portable ls"
proof (induction n arbitrary: path st ls st')
  case (Suc n)
  have loop: "list_all portable o2"
    if "fold_res (line_step (process n fs) fs path) lns ([], st1) = Inr (o2, s2)" for lns st1 o2 s2
    using fold_res_inv [where Q = "\<lambda>acc. list_all portable (fst acc)", OF _ _ that]
      line_step_portable [OF Suc.prems(1) Suc.IH] by fastforce
  show ?case
    using Suc.prems(2) loop by (force simp: Let_def split: if_splits option.splits node.splits)
qed simp

text \<open>
  C30. The flattened list can be used from any directory: every line is a directive passed
  through, a \<open>./\<close> path meant for the simulator's own directory, or an absolute path in normal
  form, possibly behind \<open>+incdir+\<close>. A line that is just \<open>.\<close> is not passed through, whatever the
  header of the script says: it becomes the directory of its file list (\<open>lone_dot_resolved\<close> below).
\<close>

theorem flattened_lines_portable:
  assumes "normal_path cwd" and "\<not> startswith input ''//''"
    and "process_filelist limit fs cwd input = Inr (ls, st)"
  shows "list_all portable ls"
proof (rule process_portable)
  have "normal_path (resolve cwd input)"
    using normal_path_start [OF assms(1)] join_under_normal [of cwd input] assms(2)
    by (simp add: resolve_def abspath_def normpath_normal_form)
  then show "normal_path (resolve cwd input)" .
  show "process limit fs (resolve cwd input) \<lparr>processed = [], warnings = []\<rparr> = Inr (ls, st)"
    using assms(3) by (simp add: process_filelist_def)
qed

lemma normal_p: "normal_path ''/p''"
  unfolding normal_path_def comps_ok_def by (intro exI [of _ "[''p'']"]) simp

theorem flattened_lines_portable_witness: "list_all portable [''/p/y.v'', ''/p/x.v'']"
proof -
  have "map_res (\<lambda>u. bind_res (process_filelist 3 loop_fs ''/p'' ''a.f'') (\<lambda>(ls, st). Inr ls)) [()] =
      Inr [[''/p/y.v'', ''/p/x.v'']]"
    by code_simp
  then obtain st where "process_filelist 3 loop_fs ''/p'' ''a.f'' = Inr ([''/p/y.v'', ''/p/x.v''], st)"
    by (auto simp: bind_res_Inr_iff)
  from flattened_lines_portable [OF normal_p _ this] show ?thesis by simp
qed

text \<open>Of the two forms the header names together, only the one with the slash is left alone.\<close>

lemma lone_dot_resolved:
  "(case process_filelist 3 [(''/p/a.f'', File (''.'' @ [nl] @ ''./gen.v'' @ [nl]))] ''/p'' ''a.f'' of
      Inr (ls, st) \<Rightarrow> ls | Inl e \<Rightarrow> []) = [''/p'', ''./gen.v'']"
  by code_simp

subsection \<open>A flattened list is a fixed point\<close>

lemma file_lines_unlines: "(\<And>l. l \<in> set ls \<Longrightarrow> nl \<notin> set l) \<Longrightarrow> file_lines (unlines ls) = map (\<lambda>l. l @ [nl]) ls"
proof (induction ls)
  case (Cons l ls)
  have "file_lines (u @ nl # t) = (u @ [nl]) # file_lines t" if "nl \<notin> set u" for u t
    using that by (induction u) (auto split: list.splits)
  with Cons show ?case by (simp add: unlines_def)
qed (simp add: unlines_def)

text \<open>Lines a filelist can hold as they are: no comment, no white space around, no include.\<close>

definition plain_line :: "str \<Rightarrow> bool" where
  "plain_line l \<longleftrightarrow> l \<noteq> [] \<and> nl \<notin> set l \<and> clean_line (l @ [nl]) = l \<and> \<not> startswith l ''-f ''"

lemma path_join_absolute: "normal_path p \<Longrightarrow> path_join base p = p"
  using normal_path_start by (simp add: path_join_def)

lemma line_step_fixed:
  assumes "portable l" and "plain_line l"
  shows "\<exists>ws. line_step rec fs path (l @ [nl]) (out, st) = Inr (out @ [l], st\<lparr>warnings := warnings st @ ws\<rparr>)"
proof -
  have cl: "clean_line (l @ [nl]) = l" "l \<noteq> []" "\<not> startswith l ''-f ''"
    using assms(2) by (simp_all add: plain_line_def)
  have abs: "normal_path p \<Longrightarrow> resolve [] (path_join (dirname path) p) = p" for p
    by (simp add: resolve_def path_join_absolute abspath_of_normal)
  consider (inc) inc where "l = incdir_tag @ inc" "is_local inc \<or> normal_path inc"
    | (dir) "\<not> is_incdir l" "is_directive l \<or> is_local l" | (path) "normal_path l"
  proof (cases "is_incdir l")
    case True
    then obtain inc where "l = incdir_tag @ inc" unfolding is_incdir_def startswith_iff by blast
    with assms(1) True inc show thesis by (simp add: portable_incdir)
  next
    case False
    with assms(1) dir path show thesis unfolding portable_def if_not_P [OF False] by blast
  qed
  then show ?thesis
  proof cases
    case inc
    have tag: "startswith l incdir_tag" "drop (length incdir_tag) l = inc" by (simp_all add: inc(1))
    have "normal_path inc \<Longrightarrow> \<not> startswith inc ''./''"
      using normal_not_tagged by (simp add: is_local_def)
    moreover have "line_step rec fs path (l @ [nl]) (out, st) =
        (if startswith inc ''./'' then Inr (out @ [incdir_tag @ inc], st)
         else Inr (out @ [incdir_tag @ resolve [] (path_join (dirname path) inc)], st))"
      unfolding line_step_def prod.case Let_def cl(1) by (simp only: cl(2,3) tag if_True if_False)
    ultimately have "line_step rec fs path (l @ [nl]) (out, st) = Inr (out @ [l], st)"
      using abs [of inc] inc by (auto simp: is_local_def)
    then show ?thesis by (intro exI [of _ "[]"]) simp
  next
    case dir
    have tag: "\<not> startswith l incdir_tag" using dir(1) by (simp add: is_incdir_def)
    have "line_step rec fs path (l @ [nl]) (out, st) =
        (if startswith l ''+'' \<or> startswith l ''-'' then Inr (out @ [l], st)
         else if startswith l ''./'' then Inr (out @ [l], st)
         else (let full = resolve [] (path_join (dirname path) l)
               in Inr (out @ [full], if exists fs full then st else warn (FileNotFound full path) st)))"
      unfolding line_step_def prod.case Let_def cl(1) by (simp only: cl(2,3) tag if_False)
    with dir(2) have "line_step rec fs path (l @ [nl]) (out, st) = Inr (out @ [l], st)"
      by (auto simp: is_local_def is_directive_def)
    then show ?thesis by (intro exI [of _ "[]"]) simp
  next
    case path
    note tags = normal_not_tagged [OF path, unfolded is_incdir_def is_directive_def is_local_def]
    then have "\<not> (startswith l ''+'' \<or> startswith l ''-'')" by blast
    with tags have "line_step rec fs path (l @ [nl]) (out, st) =
        Inr (out @ [l], if exists fs l then st else warn (FileNotFound l path) st)"
      unfolding line_step_def prod.case Let_def cl(1) abs [OF path]
      by (simp only: cl(2,3) if_False simp_thms)
    then show ?thesis
      by (intro exI [of _ "if exists fs l then [] else [FileNotFound l path]"]) (simp add: warn_def)
  qed
qed

lemma fold_fixed:
  "list_all (\<lambda>l. portable l \<and> plain_line l) ls \<Longrightarrow>
   \<exists>ws. fold_res (line_step rec fs path) (map (\<lambda>l. l @ [nl]) ls) (out, st) =
     Inr (out @ ls, st\<lparr>warnings := warnings st @ ws\<rparr>)"
proof (induction ls arbitrary: out st)
  case Nil
  then show ?case by (auto intro: exI [of _ "[]"])
next
  case (Cons l ls)
  then obtain ws where ws: "line_step rec fs path (l @ [nl]) (out, st) =
      Inr (out @ [l], st\<lparr>warnings := warnings st @ ws\<rparr>)"
    using line_step_fixed [of l rec fs path out st] by auto
  from Cons.prems have "list_all (\<lambda>l. portable l \<and> plain_line l) ls" by simp
  from Cons.IH [OF this, of "out @ [l]" "st\<lparr>warnings := warnings st @ ws\<rparr>"] obtain vs where
    "fold_res (line_step rec fs path) (map (\<lambda>l. l @ [nl]) ls) (out @ [l], st\<lparr>warnings := warnings st @ ws\<rparr>) =
      Inr ((out @ [l]) @ ls, st\<lparr>warnings := warnings st @ ws\<rparr>
        \<lparr>warnings := warnings (st\<lparr>warnings := warnings st @ ws\<rparr>) @ vs\<rparr>)"
    by blast
  with ws show ?case by (auto intro: exI [of _ "ws @ vs"])
qed

lemma comment_line_skipped:
  "startswith (strip line) ''//'' \<or> strip line = [] \<Longrightarrow> line_step rec fs path line acc = Inr acc"
  by (cases acc) (auto simp: line_step_def clean_line_def Let_def)

text \<open>
  C13. Flattening is a fixed point: when the raw output for portable, plain lines is itself given
  to the flattener, from wherever it is stored, the same lines come back.
\<close>

theorem flatten_emitted_raw:
  assumes "list_all (\<lambda>l. portable l \<and> plain_line l) ls" and "nl \<notin> set (resolve cwd src)"
    and "map_of fs path = Some (File (emit_raw cwd src ls))"
  shows "\<exists>st. process (Suc n) fs path \<lparr>processed = [], warnings = []\<rparr> = Inr (ls, st)"
proof -
  define hd_lines where "hd_lines = [slash_rule, ''// AUTO-GENERATED FLATTENED FILELIST  (do not edit)'',
       ''// Source: '' @ resolve cwd src, ''// Entries: '' @ nat_str (length ls), slash_rule, []]"
  have emit: "emit_raw cwd src ls = unlines (hd_lines @ ls)"
    by (simp add: emit_raw_def hd_lines_def)
  have no_nl: "nl \<notin> set (nat_str k)" for k
    using nat_str_digits [of nl k] by (auto simp: is_digit_def)
  have "nl \<notin> set l" if "l \<in> set (hd_lines @ ls)" for l
    using that assms(1,2) no_nl
    by (auto simp: hd_lines_def slash_rule_def list_all_iff plain_line_def)
  then have lines: "file_lines (emit_raw cwd src ls) = map (\<lambda>l. l @ [nl]) hd_lines @ map (\<lambda>l. l @ [nl]) ls"
    unfolding emit by (subst file_lines_unlines) auto
  have strip_slash: "startswith (strip (CHR ''/'' # CHR ''/'' # t)) ''//''" for t
  proof -
    have "\<exists>t'. rstrip (CHR ''/'' # CHR ''/'' # t) = CHR ''/'' # CHR ''/'' # t'"
      by (cases "\<forall>x \<in> set t. is_space x")
         (auto simp: rstrip_def rstrip_by_def dropWhile_append is_space_def intro: rev_rev_ident [symmetric])
    then show ?thesis by (auto simp: strip_def lstrip_def lstrip_by_def is_space_def)
  qed
  have skip: "line_step rec fs path (l @ [nl]) acc = Inr acc" if "l \<in> set hd_lines" for l rec acc
  proof (rule comment_line_skipped)
    have "l = [] \<or> (\<exists>t. l = CHR ''/'' # CHR ''/'' # t)"
      using that by (auto simp: hd_lines_def slash_rule_def)
    moreover have "strip [nl] = []" by code_simp
    ultimately show "startswith (strip (l @ [nl])) ''//'' \<or> strip (l @ [nl]) = []"
      using strip_slash by auto
  qed
  have skips: "fold_res (line_step rec fs path) (map (\<lambda>l. l @ [nl]) hs @ rest) acc = fold_res (line_step rec fs path) rest acc"
    if "set hs \<subseteq> set hd_lines" for hs rest rec acc
    using that by (induction hs) (simp_all add: skip)
  obtain ws where "fold_res (line_step (process n fs) fs path) (map (\<lambda>l. l @ [nl]) ls) ([], \<lparr>processed = [path], warnings = []\<rparr>) =
      Inr (ls, \<lparr>processed = [path], warnings = []\<rparr>\<lparr>warnings := [] @ ws\<rparr>)"
    using fold_fixed [OF assms(1), of "process n fs" fs path "[]" "\<lparr>processed = [path], warnings = []\<rparr>"] by auto
  then show ?thesis
    by (simp add: assms(3) lines skips)
qed

definition sample_lines :: "str list" where
  "sample_lines = [''+define+SIM'', ''+incdir+/p/inc'', ''/p/y.v'', ''./gen.v'']"

theorem flatten_emitted_raw_witness:
  "\<exists>st. process 1 [(''/q/flat.f'', File (emit_raw ''/p'' ''a.f'' sample_lines))] ''/q/flat.f''
     \<lparr>processed = [], warnings = []\<rparr> = Inr (sample_lines, st)"
proof -
  have "normal_path ''/p/inc''" "normal_path ''/p/y.v''"
    unfolding normal_path_def comps_ok_def
    by (intro exI [of _ "[''p'', ''inc'']"], simp) (intro exI [of _ "[''p'', ''y.v'']"], simp)
  then have portable: "list_all portable sample_lines"
    by (simp add: sample_lines_def portable_def is_incdir_def incdir_tag_def is_directive_def is_local_def)
  have plain: "list_all plain_line sample_lines" by code_simp
  from portable plain have both: "list_all (\<lambda>l. portable l \<and> plain_line l) sample_lines"
    by (simp add: list_all_iff)
  have "nl \<notin> set (resolve ''/p'' ''a.f'')" by code_simp
  from flatten_emitted_raw [OF both this, of "[(''/q/flat.f'', File (emit_raw ''/p'' ''a.f'' sample_lines))]" "''/q/flat.f''" 0]
  show ?thesis by simp
qed

subsection \<open>Removing duplicates\<close>

lemma dedup_from_append:
  "\<exists>seen'. fst (dedup_from seen (xs @ ys)) = fst (dedup_from seen xs) @ fst (dedup_from seen' ys)"
proof (induction xs arbitrary: seen)
  case (Cons x xs)
  obtain s1 where "fst (dedup_from seen (xs @ ys)) = fst (dedup_from seen xs) @ fst (dedup_from s1 ys)"
    using Cons by blast
  moreover obtain s2 where "fst (dedup_from (x # seen) (xs @ ys)) = fst (dedup_from (x # seen) xs) @ fst (dedup_from s2 ys)"
    using Cons by blast
  ultimately show ?case by (simp add: split_beta Let_def) blast
qed auto

lemma dedup_from_spec:
  "distinct (filter (\<lambda>l. \<not> is_directive l) (fst (dedup_from seen ls))) \<and>
   (\<forall>l \<in> set (fst (dedup_from seen ls)). is_directive l \<or> l \<notin> set seen) \<and>
   (\<forall>l. \<not> is_directive l \<longrightarrow> (l \<in> set (fst (dedup_from seen ls)) \<longleftrightarrow> l \<in> set ls \<and> l \<notin> set seen)) \<and>
   filter is_directive (fst (dedup_from seen ls)) = filter is_directive ls \<and>
   subseq (fst (dedup_from seen ls)) ls \<and>
   length (fst (dedup_from seen ls)) + snd (dedup_from seen ls) = length ls"
proof (induction ls arbitrary: seen)
  case (Cons l ls)
  from Cons [of seen] Cons [of "l # seen"] show ?case
    by (simp add: split_beta Let_def) blast
qed simp

text \<open>
  Duplicate removal keeps the first occurrence of every file and include directory, in order,
  and every directive: the result is a subsequence of the input with the same files and the
  same directives in which no file appears twice, the reported count is what was left out, and
  what precedes is never affected by what follows.
\<close>

lemma dedup_keeps_first:
  "distinct (filter (\<lambda>l. \<not> is_directive l) (dedup_lines ls)) \<and> set (dedup_lines ls) = set ls \<and>
   filter is_directive (dedup_lines ls) = filter is_directive ls \<and>
   subseq (dedup_lines ls) ls \<and> length (dedup_lines ls) + dropped ls = length ls \<and>
   prefix (dedup_lines ls) (dedup_lines (ls @ ls2))"
proof -
  note sp = dedup_from_spec [of "[]" ls]
  have "set (filter is_directive (dedup_lines ls)) = set (filter is_directive ls)"
    using sp by (simp add: dedup_lines_def)
  then have "is_directive l \<Longrightarrow> l \<in> set (dedup_lines ls) \<longleftrightarrow> l \<in> set ls" for l
    unfolding set_filter by blast
  moreover have "\<not> is_directive l \<Longrightarrow> l \<in> set (dedup_lines ls) \<longleftrightarrow> l \<in> set ls" for l
    using sp by (simp add: dedup_lines_def)
  ultimately have "set (dedup_lines ls) = set ls" by blast
  moreover have "prefix (dedup_lines ls) (dedup_lines (ls @ ls2))"
    using dedup_from_append [of "[]" ls ls2] by (auto simp: dedup_lines_def prefix_def)
  ultimately show ?thesis
    using sp by (simp add: dedup_lines_def dropped_def)
qed

subsection \<open>The output formats agree\<close>

lemma source_kind_file: "endswith (source_kind l) ''_FILE''"
  by (auto simp: source_kind_def Let_def endswith_iff)

lemma macro_row_not_file: "filter (\<lambda>(name, v). endswith name ''_FILE'') (macro_row t) = [] \<and>
    filter (\<lambda>(name, v). name = ''SEARCH_PATH'') (macro_row t) = []"
proof -
  have "\<not> endswith ''VERILOG_MACRO'' ''_FILE''" by code_simp
  then show ?thesis by (simp add: macro_row_def Let_def)
qed

text \<open>
  C31. The synthesis formats agree: the Quartus fragment assigns exactly the source files of the
  Tcl list, in the same order, and the same search path, and the lines outside the two Tcl
  lists are exactly the directives and the \<open>./\<close> artefacts.
\<close>

theorem qsf_matches_tcl:
  "map snd (filter (\<lambda>(name, v). endswith name ''_FILE'') (qsf_rows ls)) = tcl_files ls \<and>
   map snd (filter (\<lambda>(name, v). name = ''SEARCH_PATH'') (qsf_rows ls)) = tcl_incdirs ls \<and>
   length (tcl_files ls) + length (tcl_incdirs ls) + length (filter is_directive ls) +
     length (filter is_local ls) = length ls"
proof (induction ls)
  case (Cons l ls)
  have sp: "\<not> endswith ''SEARCH_PATH'' ''_FILE''" by code_simp
  have sk: "source_kind l \<noteq> ''SEARCH_PATH''" by (simp add: source_kind_def Let_def)
  have plus: "startswith l ''+define+'' \<Longrightarrow> startswith l ''+''" "startswith l ''-D'' \<Longrightarrow> startswith l ''-''"
    by (cases l; simp)+
  have dot: "is_local l \<Longrightarrow> \<not> startswith l ''+'' \<and> \<not> startswith l ''-'' \<and> \<not> is_incdir l"
    by (cases l) (simp_all add: is_local_def is_incdir_def incdir_tag_def)
  have split: "tcl_files (l # ls) = tcl_files [l] @ tcl_files ls" "tcl_incdirs (l # ls) = tcl_incdirs [l] @ tcl_incdirs ls"
    "qsf_rows (l # ls) = qsf_row l @ qsf_rows ls" for l ls
    by (simp_all add: tcl_files_def tcl_incdirs_def qsf_rows_def)
  have "map snd (filter (\<lambda>(name, v). endswith name ''_FILE'') (qsf_row l)) = tcl_files [l] \<and>
      map snd (filter (\<lambda>(name, v). name = ''SEARCH_PATH'') (qsf_row l)) = tcl_incdirs [l] \<and>
      length (tcl_files [l]) + length (tcl_incdirs [l]) + length (filter is_directive [l]) +
        length (filter is_local [l]) = 1"
  proof -
    note defs = qsf_row_def tcl_files_def tcl_incdirs_def is_directive_def
    consider (inc) "is_incdir l" "\<not> is_local l" | (loc) "\<not> is_incdir l" "is_local l" "\<not> startswith l ''+''" "\<not> startswith l ''-''"
      | (dir) "\<not> is_incdir l" "\<not> is_local l" "startswith l ''+'' \<or> startswith l ''-''"
      | (source) "\<not> is_incdir l" "\<not> is_local l" "\<not> startswith l ''+''" "\<not> startswith l ''-''"
      using dot by blast
    then show ?thesis
    proof cases
      case inc
      then show ?thesis by (simp add: defs sp)
    next
      case loc
      moreover from this plus have "\<not> startswith l ''+define+''" "\<not> startswith l ''-D''" by blast+
      ultimately show ?thesis by (simp add: defs)
    next
      case dir
      with macro_row_not_file show ?thesis by (simp add: defs)
    next
      case source
      moreover from this plus have "\<not> startswith l ''+define+''" "\<not> startswith l ''-D''" by blast+
      ultimately show ?thesis by (simp add: defs sk source_kind_file)
    qed
  qed
  with Cons show ?case unfolding split [of l ls]
    by (cases "is_directive l"; cases "is_local l") simp_all
qed (simp add: tcl_files_def tcl_incdirs_def qsf_rows_def)

end
