(* ===== verification/PyRegex.thy ===== *)
theory PyRegex
  imports PyText
begin

text \<open>
  The part of Python's \<open>re\<close> module the scripts use, as a backtracking matcher over syntax trees.
  A state of the matcher is the text already consumed (reversed), the text still ahead and the
  groups captured so far; \<open>run r k s\<close> matches \<open>r\<close> from \<open>s\<close> and hands every way of doing so, in
  Python's order of preference, to the continuation \<open>k\<close> until one succeeds. The patterns of the
  sources are values of \<open>rx\<close>, built with the combinators below next to the regular
  expression they spell. \<open>outcomes\<close> is the reference semantics, the list of all ways to match
  with the preferred one first; \<open>run_outcomes\<close> relates the two.
\<close>

subsection \<open>Patterns and matcher states\<close>

datatype rx =
    Eps
  | Chr "char \<Rightarrow> bool"
  | Seq rx rx
  | Alt rx rx
  | Many bool rx
  | Group nat rx
  | Bol | BolM | Eol | EolM | WordB
  | Ahead rx
  | NotAhead rx

record mst =
  past :: str
  rest :: str
  groups :: "(nat \<times> str) list"

definition step_char :: "mst \<Rightarrow> mst" where
  "step_char s = (case rest s of [] \<Rightarrow> s | c # cs \<Rightarrow> s\<lparr>past := c # past s, rest := cs\<rparr>)"

definition pos :: "mst \<Rightarrow> nat" where
  "pos s = length (past s)"

definition text_between :: "mst \<Rightarrow> mst \<Rightarrow> str" where
  "text_between s t = rev (take (length (past t) - length (past s)) (past t))"

definition set_group :: "nat \<Rightarrow> mst \<Rightarrow> mst \<Rightarrow> mst" where
  "set_group g s t = t\<lparr>groups := AList.update g (text_between s t) (groups t)\<rparr>"

definition group :: "mst \<Rightarrow> nat \<Rightarrow> str option" where
  "group s g = map_of (groups s) g"

definition group_text :: "mst \<Rightarrow> nat \<Rightarrow> str" where
  "group_text s g = (case group s g of None \<Rightarrow> [] | Some t \<Rightarrow> t)"

text \<open>Zero-width tests: \<open>^\<close>, \<open>$\<close> (plain and under \<open>re.M\<close>) and \<open>\b\<close>.\<close>

definition at_word :: "str \<Rightarrow> bool" where
  "at_word t \<longleftrightarrow> t \<noteq> [] \<and> is_word (hd t)"

fun zero_width :: "rx \<Rightarrow> mst \<Rightarrow> bool" where
  "zero_width Bol s \<longleftrightarrow> past s = []"
| "zero_width BolM s \<longleftrightarrow> past s = [] \<or> hd (past s) = nl"
| "zero_width Eol s \<longleftrightarrow> rest s = [] \<or> rest s = [nl]"
| "zero_width EolM s \<longleftrightarrow> rest s = [] \<or> hd (rest s) = nl"
| "zero_width WordB s \<longleftrightarrow> at_word (past s) \<noteq> at_word (rest s)"
| "zero_width _ s \<longleftrightarrow> False"

subsection \<open>The matcher\<close>

text \<open>
  A repetition tries its body and then itself again as long as the body consumed something, or
  gives up and continues; greedy repetitions prefer the first, lazy ones the second. The bound
  on the number of rounds is the length of the text ahead, which no repetition can exceed.
\<close>

primrec rounds :: "bool \<Rightarrow> ((mst \<Rightarrow> mst option) \<Rightarrow> mst \<Rightarrow> mst option) \<Rightarrow> (mst \<Rightarrow> mst option) \<Rightarrow>
    nat \<Rightarrow> mst \<Rightarrow> mst option" where
  "rounds greedy m k 0 s = k s"
| "rounds greedy m k (Suc n) s =
     (if greedy
      then (case m (\<lambda>t. if pos s < pos t then rounds greedy m k n t else None) s of
              None \<Rightarrow> k s | Some t \<Rightarrow> Some t)
      else (case k s of
              None \<Rightarrow> m (\<lambda>t. if pos s < pos t then rounds greedy m k n t else None) s
            | Some t \<Rightarrow> Some t))"

primrec run :: "rx \<Rightarrow> (mst \<Rightarrow> mst option) \<Rightarrow> mst \<Rightarrow> mst option" where
  "run Eps k s = k s"
| "run (Chr p) k s = (case rest s of [] \<Rightarrow> None | c # cs \<Rightarrow> if p c then k (step_char s) else None)"
| "run (Seq a b) k s = run a (run b k) s"
| "run (Alt a b) k s = (case run a k s of None \<Rightarrow> run b k s | Some t \<Rightarrow> Some t)"
| "run (Many greedy a) k s = rounds greedy (run a) k (length (rest s)) s"
| "run (Group g a) k s = run a (\<lambda>t. k (set_group g s t)) s"
| "run Bol k s = (if zero_width Bol s then k s else None)"
| "run BolM k s = (if zero_width BolM s then k s else None)"
| "run Eol k s = (if zero_width Eol s then k s else None)"
| "run EolM k s = (if zero_width EolM s then k s else None)"
| "run WordB k s = (if zero_width WordB s then k s else None)"
| "run (Ahead a) k s = (case run a Some s of None \<Rightarrow> None | Some t \<Rightarrow> k (s\<lparr>groups := groups t\<rparr>))"
| "run (NotAhead a) k s = (case run a Some s of None \<Rightarrow> k s | Some t \<Rightarrow> None)"

subsection \<open>Reference semantics: all outcomes, preferred first\<close>

primrec outcome_rounds :: "bool \<Rightarrow> (mst \<Rightarrow> mst list) \<Rightarrow> nat \<Rightarrow> mst \<Rightarrow> mst list" where
  "outcome_rounds greedy m 0 s = [s]"
| "outcome_rounds greedy m (Suc n) s =
     (let again = concat (map (outcome_rounds greedy m n) (filter (\<lambda>t. pos s < pos t) (m s)))
      in if greedy then again @ [s] else s # again)"

primrec outcomes :: "rx \<Rightarrow> mst \<Rightarrow> mst list" where
  "outcomes Eps s = [s]"
| "outcomes (Chr p) s = (case rest s of [] \<Rightarrow> [] | c # cs \<Rightarrow> if p c then [step_char s] else [])"
| "outcomes (Seq a b) s = concat (map (outcomes b) (outcomes a s))"
| "outcomes (Alt a b) s = outcomes a s @ outcomes b s"
| "outcomes (Many greedy a) s = outcome_rounds greedy (outcomes a) (length (rest s)) s"
| "outcomes (Group g a) s = map (set_group g s) (outcomes a s)"
| "outcomes Bol s = (if zero_width Bol s then [s] else [])"
| "outcomes BolM s = (if zero_width BolM s then [s] else [])"
| "outcomes Eol s = (if zero_width Eol s then [s] else [])"
| "outcomes EolM s = (if zero_width EolM s then [s] else [])"
| "outcomes WordB s = (if zero_width WordB s then [s] else [])"
| "outcomes (Ahead a) s = (case outcomes a s of [] \<Rightarrow> [] | t # ts \<Rightarrow> [s\<lparr>groups := groups t\<rparr>])"
| "outcomes (NotAhead a) s = (case outcomes a s of [] \<Rightarrow> [s] | t # ts \<Rightarrow> [])"

fun first_some :: "('a \<Rightarrow> 'b option) \<Rightarrow> 'a list \<Rightarrow> 'b option" where
  "first_some f [] = None"
| "first_some f (x # xs) = (case f x of None \<Rightarrow> first_some f xs | Some y \<Rightarrow> Some y)"

lemma first_some_append:
  "first_some f (xs @ ys) = (case first_some f xs of None \<Rightarrow> first_some f ys | Some y \<Rightarrow> Some y)"
  by (induction xs) (auto split: option.splits)

lemma first_some_concat_map:
  "first_some f (concat (map g xs)) = first_some (\<lambda>x. first_some f (g x)) xs"
  by (induction xs) (auto simp: first_some_append split: option.splits)

lemma first_some_map: "first_some f (map g xs) = first_some (\<lambda>x. f (g x)) xs"
  by (induction xs) (auto split: option.splits)

lemma first_some_filter:
  "first_some f (filter p xs) = first_some (\<lambda>x. if p x then f x else None) xs"
  by (induction xs) (auto split: option.splits)

lemma first_some_Some [simp]: "first_some Some xs = (case xs of [] \<Rightarrow> None | x # _ \<Rightarrow> Some x)"
  by (cases xs) auto

lemma rounds_outcomes:
  assumes "\<And>k s. m k s = first_some k (ms s)"
  shows "rounds greedy m k n s = first_some k (outcome_rounds greedy ms n s)"
proof (induction n arbitrary: s)
  case (Suc n)
  have "m (\<lambda>t. if pos s < pos t then rounds greedy m k n t else None) s =
      first_some k (concat (map (outcome_rounds greedy ms n) (filter (\<lambda>t. pos s < pos t) (ms s))))"
    by (simp add: assms first_some_concat_map first_some_filter Suc.IH cong: if_cong)
  then show ?case
    by (simp add: Let_def first_some_append split: option.splits)
qed (simp split: option.splits)

theorem run_outcomes: "run r k s = first_some k (outcomes r s)"
proof (induction r arbitrary: k s)
  case (Seq a b)
  then show ?case by (simp add: first_some_concat_map)
next
  case (Many greedy a)
  then show ?case by (simp add: rounds_outcomes)
qed (auto simp: first_some_append first_some_map split: option.splits list.splits)

lemma run_Some: "run r Some s = (case outcomes r s of [] \<Rightarrow> None | t # _ \<Rightarrow> Some t)"
  by (simp add: run_outcomes)

subsection \<open>What a match consumes\<close>

definition reaches :: "mst \<Rightarrow> mst \<Rightarrow> bool" where
  "reaches s t \<longleftrightarrow> (\<exists>w. past t = rev w @ past s \<and> rest s = w @ rest t)"

lemma reaches_refl [simp]: "reaches s s"
  by (simp add: reaches_def)

lemma reaches_trans: "reaches s t \<Longrightarrow> reaches t u \<Longrightarrow> reaches s u"
  by (fastforce simp: reaches_def)

lemma reaches_step_char [simp]: "reaches s (step_char s)"
  by (cases "rest s") (auto simp: reaches_def step_char_def)

lemma reaches_groups [simp]:
  "reaches s (t\<lparr>groups := gs\<rparr>) = reaches s t"
  "reaches (s\<lparr>groups := gs\<rparr>) t = reaches s t"
  "reaches s (set_group g u t) = reaches s t"
  by (simp_all add: reaches_def set_group_def)

lemma outcome_rounds_reaches:
  assumes "\<And>s t. t \<in> set (m s) \<Longrightarrow> reaches s t"
  shows "t \<in> set (outcome_rounds greedy m n s) \<Longrightarrow> reaches s t"
proof (induction n arbitrary: s)
  case (Suc n)
  then show ?case
    by (auto simp: Let_def split: if_splits dest!: assms intro: reaches_trans)
qed simp

lemma outcomes_reaches: "t \<in> set (outcomes r s) \<Longrightarrow> reaches s t"
proof (induction r arbitrary: s t)
  case (Seq a b)
  then show ?case by simp (blast intro: reaches_trans)
next
  case (Many greedy a)
  then show ?case by (auto intro: outcome_rounds_reaches)
qed (auto split: list.splits if_splits)

lemma reaches_text:
  assumes "reaches s t"
  shows "rest s = text_between s t @ rest t" and "past t = rev (text_between s t) @ past s"
  using assms by (auto simp: reaches_def text_between_def)

lemma reaches_pos: "reaches s t \<Longrightarrow> pos s \<le> pos t \<and> length (rest t) \<le> length (rest s)"
  by (auto simp: reaches_def pos_def)

subsection \<open>The module's functions\<close>

definition at_start :: "str \<Rightarrow> mst" where
  "at_start t = \<lparr>past = [], rest = t, groups = []\<rparr>"

text \<open>\<open>re.match(r, t)\<close>: at the beginning of \<open>t\<close>.\<close>

definition re_match :: "rx \<Rightarrow> str \<Rightarrow> mst option" where
  "re_match r t = run r Some (at_start t)"

text \<open>\<open>r.search(t)\<close>: the leftmost match, as the states where it begins and ends.\<close>

function search_from :: "rx \<Rightarrow> mst \<Rightarrow> (mst \<times> mst) option" where
  "search_from r s =
     (case run r Some s of
        Some t \<Rightarrow> Some (s, t)
      | None \<Rightarrow> if rest s = [] then None else search_from r (step_char s))"
  by pat_completeness auto
termination
  by (relation "measure (\<lambda>(r, s). length (rest s))") (auto simp: step_char_def split: list.splits)

declare search_from.simps [simp del]

definition re_search :: "rx \<Rightarrow> str \<Rightarrow> (mst \<times> mst) option" where
  "re_search r t = search_from r (at_start t)"

text \<open>
  \<open>re.finditer(r, t)\<close>: successive matches; the search resumes where a match ended, or one
  character further when it was empty. Every round moves forward, so one round more than the
  text has characters is enough.
\<close>

primrec matches_from :: "nat \<Rightarrow> rx \<Rightarrow> mst \<Rightarrow> (mst \<times> mst) list" where
  "matches_from 0 r s = []"
| "matches_from (Suc n) r s =
     (case search_from r s of
        None \<Rightarrow> []
      | Some (a, b) \<Rightarrow>
          (a, b) # (if pos a < pos b then matches_from n r (b\<lparr>groups := []\<rparr>)
                    else if rest b = [] then []
                    else matches_from n r (step_char (b\<lparr>groups := []\<rparr>))))"

definition re_finditer :: "rx \<Rightarrow> str \<Rightarrow> (mst \<times> mst) list" where
  "re_finditer r t = matches_from (Suc (length t)) r (at_start t)"

text \<open>\<open>re.sub(r, f, t)\<close> and \<open>re.sub(r, f, t, count=1)\<close>, \<open>f\<close> given the whole match.\<close>

fun splice :: "nat \<Rightarrow> (mst \<times> mst) list \<Rightarrow> (mst \<times> mst \<Rightarrow> str) \<Rightarrow> str \<Rightarrow> str" where
  "splice i [] f t = drop i t"
| "splice i ((a, b) # ms) f t = take (pos a - i) (drop i t) @ f (a, b) @ splice (pos b) ms f t"

definition re_sub :: "rx \<Rightarrow> (mst \<times> mst \<Rightarrow> str) \<Rightarrow> str \<Rightarrow> str" where
  "re_sub r f t = splice 0 (re_finditer r t) f t"

definition re_sub_once :: "rx \<Rightarrow> (mst \<times> mst \<Rightarrow> str) \<Rightarrow> str \<Rightarrow> str" where
  "re_sub_once r f t = splice 0 (take 1 (re_finditer r t)) f t"

abbreviation whole :: "mst \<times> mst \<Rightarrow> str" where
  "whole m \<equiv> text_between (fst m) (snd m)"

lemma search_from_Some:
  "search_from r s = Some (a, b) \<Longrightarrow> reaches s a \<and> reaches a b \<and> run r Some a = Some b"
proof (induction r s rule: search_from.induct)
  case (1 r s)
  show ?case
  proof (cases "run r Some s")
    case None
    with 1 have "reaches (step_char s) a \<and> reaches a b \<and> run r Some a = Some b"
      by (auto simp: search_from.simps [of r s] split: if_splits)
    then show ?thesis
      using reaches_step_char reaches_trans by blast
  next
    case (Some t)
    with 1 have ab: "a = s" "b = t" by (simp_all add: search_from.simps [of r s])
    from Some have "t \<in> set (outcomes r s)"
      by (auto simp: run_Some split: list.splits)
    with ab Some show ?thesis by (simp add: outcomes_reaches)
  qed
qed

lemma search_from_None_iff:
  "search_from r s = None \<longleftrightarrow>
     (\<forall>u v. rest s = u @ v \<longrightarrow> run r Some (s\<lparr>past := rev u @ past s, rest := v\<rparr>) = None)"
proof (induction r s rule: search_from.induct)
  case (1 r s)
  show ?case
  proof (cases "rest s")
    case Nil
    then have upd: "s\<lparr>rest := []\<rparr> = s" by simp
    with Nil show ?thesis
      by (auto simp: search_from.simps [of r s] upd split: option.splits)
  next
    case (Cons c cs)
    have upd: "s\<lparr>rest := c # cs\<rparr> = s" using Cons by simp
    have st: "step_char s = s\<lparr>past := c # past s, rest := cs\<rparr>"
      using Cons by (simp add: step_char_def)
    have split: "(\<forall>u v. c # cs = u @ v \<longrightarrow> P u v) \<longleftrightarrow> P [] (c # cs) \<and> (\<forall>u v. cs = u @ v \<longrightarrow> P (c # u) v)" for P
      by (auto simp: Cons_eq_append_conv)
    show ?thesis
    proof (cases "run r Some s")
      case None
      with 1 Cons have "search_from r s = None \<longleftrightarrow>
          (\<forall>u v. cs = u @ v \<longrightarrow> run r Some (s\<lparr>past := rev u @ (c # past s), rest := v\<rparr>) = None)"
        by (simp add: search_from.simps [of r s] st)
      with None show ?thesis
        unfolding Cons split by (simp add: upd)
    next
      case (Some t)
      then show ?thesis
        unfolding Cons split by (simp add: search_from.simps [of r s] upd)
    qed
  qed
qed

subsection \<open>Building patterns\<close>

fun lit :: "str \<Rightarrow> rx" where
  "lit [] = Eps"
| "lit [c] = Chr (\<lambda>x. x = c)"
| "lit (c # d # cs) = Seq (Chr (\<lambda>x. x = c)) (lit (d # cs))"

fun seqs :: "rx list \<Rightarrow> rx" where
  "seqs [] = Eps"
| "seqs [r] = r"
| "seqs (r # q # rs) = Seq r (seqs (q # rs))"

fun alts :: "rx list \<Rightarrow> rx" where
  "alts [] = NotAhead Eps"
| "alts [r] = r"
| "alts (r # q # rs) = Alt r (alts (q # rs))"

abbreviation star :: "rx \<Rightarrow> rx" where "star r \<equiv> Many True r"
abbreviation lazy :: "rx \<Rightarrow> rx" where "lazy r \<equiv> Many False r"
definition plus :: "rx \<Rightarrow> rx" where "plus r = Seq r (Many True r)"
definition lazy_plus :: "rx \<Rightarrow> rx" where "lazy_plus r = Seq r (Many False r)"
definition opt :: "rx \<Rightarrow> rx" where "opt r = Alt r Eps"

definition one_of :: "str \<Rightarrow> rx" where "one_of cs = Chr (\<lambda>c. c \<in> set cs)"
definition none_of :: "str \<Rightarrow> rx" where "none_of cs = Chr (\<lambda>c. c \<notin> set cs)"
definition dot :: rx where "dot = Chr (\<lambda>c. c \<noteq> nl)"
definition any_char :: rx where "any_char = Chr (\<lambda>c. True)"
definition digit :: rx where "digit = Chr is_digit"
definition word_char :: rx where "word_char = Chr is_word"
definition space :: rx where "space = Chr is_space"
definition non_space :: rx where "non_space = Chr (\<lambda>c. \<not> is_space c)"

lemmas rx_defs [py_simps] = plus_def lazy_plus_def opt_def one_of_def none_of_def dot_def
  any_char_def digit_def word_char_def space_def non_space_def

lemma run_lit: "run (lit w) k s =
    (if startswith (rest s) w
     then k (s\<lparr>past := rev w @ past s, rest := drop (length w) (rest s)\<rparr>) else None)"
proof (induction w arbitrary: s rule: lit.induct)
  case (2 c)
  then show ?case by (cases "rest s") (auto simp: step_char_def)
next
  case (3 c d cs)
  then show ?case by (cases "rest s") (auto simp: step_char_def)
qed simp

text \<open>A greedy repetition takes all it can when the rest of the pattern then matches.\<close>

lemma run_star_all:
  assumes "rest s = u @ v" "list_all p u" "v = [] \<or> \<not> p (hd v)" "k (s\<lparr>past := rev u @ past s, rest := v\<rparr>) = Some t"
  shows "run (star (Chr p)) k s = Some t"
proof -
  have "length u \<le> n \<Longrightarrow> rounds True (run (Chr p)) k n s = Some t" for n
    using assms
  proof (induction u arbitrary: s n)
    case Nil
    then show ?case by (cases s; cases n; cases v) auto
  next
    case (Cons c u)
    then obtain m where n: "n = Suc m" "length u \<le> m" by (cases n) auto
    have "rounds True (run (Chr p)) k m (step_char s) = Some t"
      using Cons.prems by (intro Cons.IH [OF n(2)]) (simp_all add: step_char_def)
    moreover have "run (Chr p) l s = l (step_char s)" for l using Cons.prems by simp
    ultimately show ?case using Cons.prems by (simp add: n(1) step_char_def pos_def del: run.simps)
  qed
  then show ?thesis by (simp add: assms(1))
qed

lemma run_plus_all:
  assumes "rest s = u @ v" "u \<noteq> []" "list_all p u" "v = [] \<or> \<not> p (hd v)" "k (s\<lparr>past := rev u @ past s, rest := v\<rparr>) = Some t"
  shows "run (plus (Chr p)) k s = Some t"
proof -
  obtain c u' where u: "u = c # u'" using assms(2) by (cases u) auto
  have "run (star (Chr p)) k (step_char s) = Some t"
    using assms by (intro run_star_all [where u = u' and v = v]) (simp_all add: u step_char_def)
  then show ?thesis using assms(1,3) by (simp add: plus_def u)
qed

end
