(* ===== verification/RtlConfigs.thy ===== *)
theory RtlConfigs
  imports PyRegex
begin

text \<open>
  The parameter tables \<open>rtl_configs.py\<close> of the eight IP blocks and \<open>gen_rtl_params.py\<close>, the one
  translation of a table entry into the Tcl the synthesis and lint tools read; for
  \<open>arv_custom_csr\<close> also \<open>rtl_configs_defines.py\<close>, the translation into simulation defines.
  A parameter dictionary is an association list in insertion order.
\<close>

subsection \<open>The tables\<close>

type_synonym params = "(str \<times> int) list"

text \<open>
  The two shapes of an entry, \<open>(label, params)\<close> and \<open>(label, top, params)\<close>; any other entry
  is only ever printed, so its \<open>repr\<close> stands for it.
\<close>

datatype centry = Pair2 str params | Triple str str params | Malformed str

record rtl_configs =
  configs :: "centry list"
  top_module :: "str option"

definition ahb_aclint_configs :: rtl_configs where
  "ahb_aclint_configs = \<lparr>configs =
    [Pair2 ''default'' [],
     Pair2 ''nh1_su0'' [(''SU_MODE_EN'', 0)],
     Pair2 ''nh2_su1'' [(''NUM_HARTS'', 2), (''SU_MODE_EN'', 1)],
     Pair2 ''nh4_su1'' [(''NUM_HARTS'', 4), (''SU_MODE_EN'', 1)],
     Pair2 ''nh16_su0'' [(''NUM_HARTS'', 16), (''SU_MODE_EN'', 0)],
     Pair2 ''nh16_su1'' [(''NUM_HARTS'', 16), (''SU_MODE_EN'', 1)],
     Pair2 ''priv_off'' [(''PRIV_CHECK_EN'', 0), (''SU_MODE_EN'', 1)],
     Pair2 ''sync_rst'' [(''ASYNC_RST_EN'', 0), (''SU_MODE_EN'', 1)],
     Pair2 ''lf_sync'' [(''LF_SYNC_EN'', 1), (''SU_MODE_EN'', 1)],
     Pair2 ''lf_sync_rst'' [(''LF_SYNC_EN'', 1), (''ASYNC_RST_EN'', 0), (''SU_MODE_EN'', 1)]],
    top_module = Some ''ahb_aclint''\<rparr>"

definition ahb_interconnect_configs :: rtl_configs where
  "ahb_interconnect_configs = \<lparr>configs =
    [Triple ''generic_default'' ''ahb_interconnect_generic'' [],
     Triple ''generic_syncrst'' ''ahb_interconnect_generic'' [(''ASYNC_RST_EN'', 0)],
     Triple ''hiperf_default'' ''ahb_interconnect_hiperf'' [],
     Triple ''hiperf_syncrst'' ''ahb_interconnect_hiperf'' [(''ASYNC_RST_EN'', 0)],
     Triple ''fused_default'' ''ahb_interconnect_fused'' [],
     Triple ''fused_norom'' ''ahb_interconnect_fused'' [(''NR_S_X_ROM'', 0)],
     Triple ''fused_syncrst'' ''ahb_interconnect_fused'' [(''ASYNC_RST_EN'', 0)]],
    top_module = None\<rparr>"

definition ahb_periph_example_configs :: rtl_configs where
  "ahb_periph_example_configs = \<lparr>configs =
    [Pair2 ''default'' [],
     Pair2 ''sync_rst'' [(''ASYNC_RST_EN'', 0)],
     Pair2 ''addrw8'' [(''ADDRW'', 8)]],
    top_module = Some ''ahb_periph_example''\<rparr>"

definition ahb_plic_configs :: rtl_configs where
  "ahb_plic_configs = \<lparr>configs =
    [Pair2 ''default'' [],
     Pair2 ''nh1_su1'' [(''SU_MODE_EN'', 1)],
     Pair2 ''nh2_su1'' [(''NUM_HARTS'', 2), (''SU_MODE_EN'', 1)],
     Pair2 ''nh2_su0'' [(''NUM_HARTS'', 2), (''SU_MODE_EN'', 0)],
     Pair2 ''nh4_su1'' [(''NUM_HARTS'', 4), (''SU_MODE_EN'', 1)],
     Pair2 ''ns63_pb4'' [(''NUM_SOURCES'', 63), (''PRIO_BITS'', 4), (''SU_MODE_EN'', 1)],
     Pair2 ''ns127_pb7'' [(''NUM_SOURCES'', 127), (''PRIO_BITS'', 7), (''SU_MODE_EN'', 1)],
     Pair2 ''nh4_su1_ns63_pb4'' [(''NUM_HARTS'', 4), (''NUM_SOURCES'', 63), (''PRIO_BITS'', 4), (''SU_MODE_EN'', 1)],
     Pair2 ''ns40_pb1'' [(''NUM_SOURCES'', 40), (''PRIO_BITS'', 1), (''SU_MODE_EN'', 1)],
     Pair2 ''sync_rst'' [(''ASYNC_RST_EN'', 0), (''SU_MODE_EN'', 1)]],
    top_module = Some ''ahb_plic''\<rparr>"

definition ahb_rom_controller_configs :: rtl_configs where
  "ahb_rom_controller_configs = \<lparr>configs =
    [Pair2 ''default'' [],
     Pair2 ''sync_rst'' [(''ASYNC_RST_EN'', 0)],
     Pair2 ''mem8'' [(''MEM_SIZE'', 8)],
     Pair2 ''mem64k'' [(''MEM_SIZE'', 65536)]],
    top_module = Some ''ahb_rom_controller''\<rparr>"

definition ahb_sram_controller_configs :: rtl_configs where
  "ahb_sram_controller_configs = \<lparr>configs =
    [Pair2 ''default'' [],
     Pair2 ''sync_rst'' [(''ASYNC_RST_EN'', 0)],
     Pair2 ''mem8'' [(''MEM_SIZE'', 8)],
     Pair2 ''mem64k'' [(''MEM_SIZE'', 65536)]],
    top_module = Some ''ahb_sram_controller''\<rparr>"

definition arv_custom_csr_configs :: rtl_configs where
  "arv_custom_csr_configs = \<lparr>configs =
    [Pair2 ''default'' [],
     Pair2 ''min_banks'' [(''NR_USR_RW'', 1), (''NR_USR_RO'', 1), (''NR_SUP_RW'', 1), (''NR_SUP_RO'', 1), (''NR_MAC_RW'', 1), (''NR_MAC_RO'', 1)],
     Pair2 ''wide_banks'' [(''NR_USR_RW'', 8), (''NR_USR_RO'', 8), (''NR_SUP_RW'', 8), (''NR_SUP_RO'', 8), (''NR_MAC_RW'', 8), (''NR_MAC_RO'', 8)],
     Pair2 ''sync_rst'' [(''ASYNC_RST_EN'', 0)],
     Pair2 ''ro_only'' [(''NR_USR_RW'', 0), (''NR_SUP_RW'', 0), (''NR_MAC_RW'', 0)],
     Pair2 ''rw_only'' [(''NR_USR_RO'', 0), (''NR_SUP_RO'', 0), (''NR_MAC_RO'', 0)],
     Pair2 ''no_sup'' [(''NR_SUP_RW'', 0), (''NR_SUP_RO'', 0)],
     Pair2 ''two_banks'' [(''NR_USR_RW'', 65), (''NR_SUP_RW'', 65), (''NR_MAC_RW'', 65)],
     Pair2 ''max_banks'' [(''NR_USR_RW'', 256), (''NR_USR_RO'', 64), (''NR_SUP_RW'', 128), (''NR_SUP_RO'', 64), (''NR_MAC_RW'', 128), (''NR_MAC_RO'', 60)]],
    top_module = Some ''arv_custom_csr''\<rparr>"

definition arv_dtm_tops :: "str list" where
  "arv_dtm_tops = [''arv_dtm_jtag'', ''arv_dtm_uart'', ''arv_dtm_i2c'', ''arv_dtm_cjtag'', ''arv_dtm'']"

definition arv_dtm_configs :: rtl_configs where
  "arv_dtm_configs = \<lparr>configs =
    [Triple ''jtag_default'' ''arv_dtm_jtag'' [],
     Triple ''jtag_syncrst'' ''arv_dtm_jtag'' [(''ARST_EN'', 0)],
     Triple ''uart_default'' ''arv_dtm_uart'' [],
     Triple ''uart_syncrst'' ''arv_dtm_uart'' [(''ARST_EN'', 0)],
     Triple ''i2c_default'' ''arv_dtm_i2c'' [],
     Triple ''i2c_syncrst'' ''arv_dtm_i2c'' [(''ARST_EN'', 0)],
     Triple ''cjtag_default'' ''arv_dtm_cjtag'' [],
     Triple ''cjtag_syncrst'' ''arv_dtm_cjtag'' [(''ARST_EN'', 0)],
     Triple ''wrap_jtag'' ''arv_dtm'' [(''DTM_TYPE'', 0)],
     Triple ''wrap_uart'' ''arv_dtm'' [(''DTM_TYPE'', 1)],
     Triple ''wrap_i2c'' ''arv_dtm'' [(''DTM_TYPE'', 2)],
     Triple ''wrap_cjtag'' ''arv_dtm'' [(''DTM_TYPE'', 3)],
     Triple ''wrap_uart_fifo128'' ''arv_dtm'' [(''DTM_TYPE'', 1), (''UART_RX_FIFO_DEPTH'', 128)],
     Triple ''wrap_i2c_wd20'' ''arv_dtm'' [(''DTM_TYPE'', 2), (''I2C_WD_BITS'', 20)]],
    top_module = None\<rparr>"

definition rtl_tables :: "rtl_configs list" where
  "rtl_tables = [ahb_aclint_configs, ahb_interconnect_configs, ahb_periph_example_configs,
     ahb_plic_configs, ahb_rom_controller_configs, ahb_sram_controller_configs,
     arv_custom_csr_configs, arv_dtm_configs]"

subsection \<open>\<open>gen_rtl_params.py\<close>: selecting a configuration\<close>

type_synonym entry3 = "str \<times> str \<times> params"

definition normalise :: "str option \<Rightarrow> centry \<Rightarrow> entry3 res" where
  "normalise tm e =
     (case e of
        Triple label t ps \<Rightarrow> Inr (label, t, ps)
      | Pair2 label ps \<Rightarrow>
          (case tm of
             None \<Rightarrow> Inl (SystemExit (''gen_rtl_params.py: rtl_configs.py uses (label, params) entries '' @
                          ''but defines no TOP_MODULE''))
           | Some t \<Rightarrow> Inr (label, t, ps))
      | Malformed r \<Rightarrow> Inl (SystemExit (''gen_rtl_params.py: malformed rtl_configs entry: '' @ r)))"

definition entries :: "rtl_configs \<Rightarrow> entry3 list res" where
  "entries tab = map_res (normalise (top_module tab)) (configs tab)"

text \<open>\<open>str.isdigit\<close>, which also accepts the superscripts two, three and one; \<open>int\<close> rejects them.\<close>

definition is_digit_py :: "char \<Rightarrow> bool" where
  "is_digit_py c \<longleftrightarrow> is_digit c \<or> code c = 178 \<or> code c = 179 \<or> code c = 185"

definition isdigit :: "str \<Rightarrow> bool" where
  "isdigit s \<longleftrightarrow> s \<noteq> [] \<and> list_all is_digit_py s"

definition config_label :: "entry3 \<Rightarrow> str" where
  "config_label e = fst e"

definition resolve_config :: "entry3 list \<Rightarrow> str option \<Rightarrow> entry3 res" where
  "resolve_config es sel =
     (case sel of
        None \<Rightarrow> (case es of [] \<Rightarrow> Inl IndexError | e # _ \<Rightarrow> Inr e)
      | Some s \<Rightarrow>
          if isdigit s then
            (case py_int s of
               None \<Rightarrow> Inl (ValueError s)
             | Some i \<Rightarrow>
                 if 1 \<le> i \<and> i \<le> int (length es) then Inr (es ! nat (i - 1))
                 else Inl (SystemExit (''gen_rtl_params.py: config index '' @ int_str i @
                        '' out of range 1..'' @ nat_str (length es))))
          else
            (case List.find (\<lambda>e. config_label e = s) es of
               Some e \<Rightarrow> Inr e
             | None \<Rightarrow> Inl (SystemExit (''gen_rtl_params.py: unknown config '' @ [CHR 0x27] @ s @ [CHR 0x27] @
                        '' (have: '' @ join '', '' (map config_label es) @ '')''))))"

subsection \<open>\<open>gen_rtl_params.py\<close>: the Tcl file\<close>

definition reset_key :: "params \<Rightarrow> str" where
  "reset_key ps = (if map_of ps ''ARST_EN'' \<noteq> None then ''ARST_EN'' else ''ASYNC_RST_EN'')"

definition effective :: "params \<Rightarrow> bool \<Rightarrow> params" where
  "effective ps force_sync = (if force_sync then AList.update (reset_key ps) 0 ps else ps)"

definition sorted_items :: "params \<Rightarrow> params" where
  "sorted_items ps = sort_key fst ps"

definition assign_text :: "str \<times> int \<Rightarrow> str" where
  "assign_text kv = fst kv @ ''='' @ int_str (snd kv)"

definition quoted :: "str \<Rightarrow> str" where
  "quoted s = [dquote] @ s @ [dquote]"

definition elaborate_params :: "params \<Rightarrow> str" where
  "elaborate_params eff =
     (if eff = [] then quoted []
      else quoted (''-parameters '' @ [bslash, dquote] @ join '','' (map assign_text (sorted_items eff)) @
                   [bslash, dquote]))"

definition tcl_rule :: str where
  "tcl_rule = CHR ''#'' # replicate 76 (CHR ''-'')"

definition param_line :: "str \<Rightarrow> int \<Rightarrow> str" where
  "param_line k v = ''set RTL_PARAM_'' @ k @ '' '' @ int_str v"

definition params_lines :: "str \<Rightarrow> str \<Rightarrow> params \<Rightarrow> str list" where
  "params_lines label tm eff =
     [tcl_rule,
      ''# AUTO-GENERATED -- do not edit. Source: sim/rtl_sim/bin/rtl_configs.py'',
      ''# Config: '' @ label @ ''  (top: '' @ tm @ '')'',
      tcl_rule, [],
      ''set RTL_CONFIG_LABEL '' @ quoted label,
      ''set RTL_TOP '' @ quoted tm] @
     map (\<lambda>(k, v). param_line k v) (sorted_items eff) @
     (case (map_of eff ''ARST_EN'', map_of eff ''ASYNC_RST_EN'') of
        (Some v, None) \<Rightarrow> [param_line ''ASYNC_RST_EN'' v]
      | _ \<Rightarrow> []) @
     (if eff \<noteq> [] then [''set ELABORATE_PARAMS '' @ elaborate_params eff]
      else [''# RTL defaults -- no -parameters override'', ''set ELABORATE_PARAMS '' @ elaborate_params []])"

definition write_params :: "str \<Rightarrow> str \<Rightarrow> params \<Rightarrow> bool \<Rightarrow> str" where
  "write_params label tm ps force_sync =
     join [nl] (params_lines label tm (effective ps force_sync)) @ [nl]"

text \<open>The command line after \<open>argparse\<close>, and what a run prints and writes.\<close>

record gen_args =
  cfg :: "str option"
  list_configs :: bool
  with_sync_reset :: bool
  out_path :: "str option"

record gen_result =
  printed :: "str list"
  written :: "(str \<times> str) option"

definition config_row :: "nat \<Rightarrow> entry3 \<Rightarrow> str" where
  "config_row i e =
     (case e of (label, tm, ps) \<Rightarrow>
        nat_str i @ [CHR 0x09] @ label @ [CHR 0x09] @ ''top='' @ tm @ '' '' @
        (if ps = [] then ''(defaults)'' else join '' '' (map assign_text (sorted_items ps))))"

definition list_rows :: "entry3 list \<Rightarrow> str list" where
  "list_rows es =
     [''# RTL sweep set ('' @ nat_str (length es) @ '' configs, tops: '' @
        join '', '' (sort (remdups (map (\<lambda>e. fst (snd e)) es))) @ '')'',
      ''# Shared with: run_lint -sweep, run_vclint -rtl_sweep, run_syn -rtl_sweep (where present)''] @
     map (\<lambda>(i, e). config_row i e) (List.enumerate 1 es)"

definition gen_main :: "rtl_configs \<Rightarrow> gen_args \<Rightarrow> gen_result res" where
  "gen_main tab args =
     bind_res (entries tab) (\<lambda>es.
       if \<not> list_configs args \<and> out_path args = None
       then Inl (SystemExit ''-o/--output is required unless --list-configs'')
       else if list_configs args then Inr \<lparr>printed = list_rows es, written = None\<rparr>
       else bind_res (resolve_config es (cfg args)) (\<lambda>(label, tm, ps).
         Inr \<lparr>printed = [label],
              written = map_option (\<lambda>p. (p, write_params label tm ps (with_sync_reset args))) (out_path args)\<rparr>))"

subsection \<open>\<open>rtl_configs_defines.py\<close>\<close>

text \<open>
  \<open>^parameter\s+integer\s+(NR_\w+)\s*=\s*(\d+)\s*;\<close> under \<open>re.M\<close>, over the text of
  \<open>arv_custom_csr.v\<close>.
\<close>

definition nr_default_rx :: rx where
  "nr_default_rx = seqs [BolM, lit ''parameter'', plus space, lit ''integer'', plus space,
     Group 1 (Seq (lit ''NR_'') (plus word_char)), star space, lit ''='', star space,
     Group 2 (plus digit), star space, lit '';'']"

definition nr_defaults :: "str \<Rightarrow> params res" where
  "nr_defaults rtl =
     fold_res (\<lambda>m d. case py_int (group_text (snd m) 2) of
                       None \<Rightarrow> Inl (ValueError (group_text (snd m) 2))
                     | Some v \<Rightarrow> Inr (AList.update (group_text (snd m) 1) v d))
       (re_finditer nr_default_rx rtl) []"

definition merged :: "params \<Rightarrow> params \<Rightarrow> params" where
  "merged defs ov = fold (\<lambda>(k, v) d. AList.update k v d) ov defs"

definition define_text :: "str \<times> int \<Rightarrow> str" where
  "define_text kv = ''-D '' @ assign_text kv"

definition define_line :: "params \<Rightarrow> centry \<Rightarrow> str res" where
  "define_line defs e =
     (case e of
        Pair2 label ov \<Rightarrow> Inr (label @ '':'' @ join '' '' (map define_text (merged defs ov)))
      | Triple _ _ _ \<Rightarrow> Inl (ValueError ''too many values to unpack'')
      | Malformed _ \<Rightarrow> Inl (ValueError ''unpack''))"

definition defines_main :: "str \<Rightarrow> rtl_configs \<Rightarrow> str list res" where
  "defines_main rtl tab =
     bind_res (nr_defaults rtl) (\<lambda>defs.
       if length defs \<noteq> 6
       then Inl (SystemExit (''rtl_configs_defines.py: expected 6 NR_* defaults, found '' @
                   join '', '' (sort (map fst defs))))
       else map_res (define_line defs) (configs tab))"

subsection \<open>Selecting a configuration\<close>

lemma isdigit_nat_str [simp]: "isdigit (nat_str n)"
  using nat_str_digits [of _ n] by (auto simp: isdigit_def list_all_iff is_digit_py_def)

lemma resolve_index:
  "i < length es \<Longrightarrow> resolve_config es (Some (nat_str (Suc i))) = Inr (es ! i)"
  by (simp add: resolve_config_def del: nat_str.simps)

lemma find_label:
  "distinct (map config_label es) \<Longrightarrow> e \<in> set es \<Longrightarrow> List.find (\<lambda>e'. config_label e' = config_label e) es = Some e"
  by (induction es) (auto simp: image_iff)

lemma resolve_label:
  "distinct (map config_label es) \<Longrightarrow> e \<in> set es \<Longrightarrow> \<not> isdigit (config_label e) \<Longrightarrow>
   resolve_config es (Some (config_label e)) = Inr e"
  by (simp add: resolve_config_def find_label)

text \<open>A configuration is selectable when its index and its label both lead to it.\<close>

definition selectable :: "entry3 list \<Rightarrow> nat \<Rightarrow> bool" where
  "selectable es i \<longleftrightarrow>
     resolve_config es (Some (nat_str (Suc i))) = Inr (es ! i) \<and>
     resolve_config es (Some (config_label (es ! i))) = Inr (es ! i)"

lemma all_selectable:
  assumes "distinct (map config_label es)" and "list_all (\<lambda>e. \<not> isdigit (config_label e)) es"
  shows "list_all (selectable es) [0..<length es]"
  using assms by (auto simp: list_all_iff selectable_def resolve_index resolve_label)

definition table_ok :: "rtl_configs \<Rightarrow> bool" where
  "table_ok tab \<longleftrightarrow>
     (case entries tab of
        Inl _ \<Rightarrow> False
      | Inr es \<Rightarrow> es \<noteq> [] \<and> distinct (map config_label es) \<and> list_all (\<lambda>e. \<not> isdigit (config_label e)) es)"

lemma rtl_tables_ok: "list_all table_ok rtl_tables"
  by code_simp

text \<open>
  In every table of the repository, every configuration can be selected both by its 1-based
  index and by its label, and each selects that configuration: no label hides another, and no
  label reads as a number.
\<close>

theorem every_config_selectable:
  "list_all (\<lambda>tab. case entries tab of
       Inl _ \<Rightarrow> False
     | Inr es \<Rightarrow> resolve_config es None = Inr (es ! 0) \<and> list_all (selectable es) [0..<length es]) rtl_tables"
proof -
  have "case entries tab of Inl _ \<Rightarrow> False
     | Inr es \<Rightarrow> resolve_config es None = Inr (es ! 0) \<and> list_all (selectable es) [0..<length es]"
    if "table_ok tab" for tab
    using that all_selectable by (auto simp: table_ok_def resolve_config_def split: sum.splits list.splits)
  then show ?thesis
    using rtl_tables_ok by (auto simp: list_all_iff)
qed

subsection \<open>Reading the Tcl file back\<close>

text \<open>
  What Tcl makes of the file when a script sources it, by the documented rules for the words of a
  command: words are separated by blanks; a word in double quotes ends at the next double quote, after
  which the word must end too; a backslash stands for the character after it. Variable and command
  substitution, braces, several commands in a line, continued lines and the backslash sequences of
  letters and digits are not read: the result is then \<open>None\<close>, as it is for a malformed command.
\<close>

definition tcl_blank :: "char \<Rightarrow> bool" where
  "tcl_blank c \<longleftrightarrow> c \<in> {CHR '' '', CHR 0x09, CHR 0x0B, CHR 0x0C, CHR 0x0D}"

text \<open>The two kinds of words: the word read and the text after it.\<close>

fun tcl_quoted :: "str \<Rightarrow> (str \<times> str) option" where
  "tcl_quoted [] = None"
| "tcl_quoted (c # t) =
     (if c = dquote then Some ([], t)
      else if c = bslash
      then (case t of [] \<Rightarrow> None
            | d # u \<Rightarrow> if is_alnum d \<or> d = nl then None else map_option (\<lambda>(w, r). (d # w, r)) (tcl_quoted u))
      else if c \<in> {CHR ''$'', CHR ''[''} then None
      else map_option (\<lambda>(w, r). (c # w, r)) (tcl_quoted t))"

fun tcl_bare :: "str \<Rightarrow> (str \<times> str) option" where
  "tcl_bare [] = Some ([], [])"
| "tcl_bare (c # t) =
     (if tcl_blank c then Some ([], c # t)
      else if c = bslash
      then (case t of [] \<Rightarrow> None
            | d # u \<Rightarrow> if is_alnum d \<or> d = nl then None else map_option (\<lambda>(w, r). (d # w, r)) (tcl_bare u))
      else if c \<in> {CHR ''$'', CHR ''['', CHR '';''} then None
      else map_option (\<lambda>(w, r). (c # w, r)) (tcl_bare t))"

definition tcl_word :: "str \<Rightarrow> (str \<times> str) option" where
  "tcl_word t =
     (if startswith t [dquote]
      then (case tcl_quoted (tl t) of
              None \<Rightarrow> None
            | Some (w, r) \<Rightarrow> if r = [] \<or> tcl_blank (hd r) then Some (w, r) else None)
      else if startswith t ''{'' then None
      else tcl_bare t)"

lemma tcl_quoted_shorter: "tcl_quoted s = Some (w, r) \<Longrightarrow> length r < length s"
  by (induction s arbitrary: w rule: tcl_quoted.induct) (fastforce split: if_splits list.splits)+

lemma tcl_bare_shorter: "tcl_bare s = Some (w, r) \<Longrightarrow> length r \<le> length s \<and> (s \<noteq> [] \<and> \<not> tcl_blank (hd s) \<longrightarrow> length r < length s)"
  by (induction s arbitrary: w rule: tcl_bare.induct) (fastforce split: if_splits list.splits)+

lemma tcl_word_shorter: "tcl_word s = Some (w, r) \<Longrightarrow> s \<noteq> [] \<Longrightarrow> \<not> tcl_blank (hd s) \<Longrightarrow> length r < length s"
  using tcl_quoted_shorter [of "tl s" w r] tcl_bare_shorter [of s w r]
  by (cases s) (auto simp: tcl_word_def split: if_splits option.splits)

function tcl_words :: "str \<Rightarrow> str list option" where
  "tcl_words s =
     (let t = dropWhile tcl_blank s
      in if t = [] then Some []
         else (case tcl_word t of None \<Rightarrow> None | Some (w, r) \<Rightarrow> map_option (\<lambda>ws. w # ws) (tcl_words r)))"
  by pat_completeness auto

termination
proof (relation "measure length")
  fix s t and p :: "str \<times> str" and w r
  assume "t = dropWhile tcl_blank s" "t \<noteq> []" "tcl_word t = Some p" "(w, r) = p"
  then have "length r < length t" using tcl_word_shorter [of t w r] hd_dropWhile [of tcl_blank s] by auto
  moreover have "length t \<le> length s" by (simp add: \<open>t = dropWhile tcl_blank s\<close> length_dropWhile_le)
  ultimately show "(r, s) \<in> measure length" by simp
qed simp

declare tcl_words.simps [simp del]

type_synonym tcl_env = "str \<Rightarrow> str option"

definition tcl_command :: "str \<Rightarrow> tcl_env \<Rightarrow> tcl_env option" where
  "tcl_command l env =
     (let t = dropWhile tcl_blank l
      in if t = [] then Some env
         else if last t = bslash then None
         else if hd t = CHR ''#'' then Some env
         else (case tcl_words t of
                 Some [c, n, v] \<Rightarrow> if c = ''set'' then Some (env(n \<mapsto> v)) else None
               | _ \<Rightarrow> None))"

definition tcl_run :: "str list \<Rightarrow> tcl_env option \<Rightarrow> tcl_env option" where
  "tcl_run ls env = fold (\<lambda>l acc. Option.bind acc (tcl_command l)) ls env"

definition tcl_source :: "str \<Rightarrow> tcl_env option" where
  "tcl_source t = tcl_run (split_char nl t) (Some Map.empty)"

text \<open>
  \<open>synthesis/synopsys/read.tcl\<close> and \<open>lint/vc_static/vc_lint.tcl\<close> evaluate the command made of
  \<open>elaborate\<close>, the top module and the value of \<open>ELABORATE_PARAMS\<close>, if that is not empty: the
  parameters it overrides.
\<close>

definition elaborated :: "str \<Rightarrow> str \<Rightarrow> (str \<times> str) list option" where
  "elaborated tm s =
     (if s = [] then Some []
      else (case tcl_words (''elaborate '' @ tm @ '' '' @ s) of
              Some [c, t, flag, a] \<Rightarrow>
                if c = ''elaborate'' \<and> t = tm \<and> flag = ''-parameters''
                then those (map (cut ''='') (split_char (CHR '','') a)) else None
            | _ \<Rightarrow> None))"

text \<open>Names as the tables have them, and text that is plain between double quotes.\<close>

definition ident_text :: "str \<Rightarrow> bool" where
  "ident_text k \<longleftrightarrow> k \<noteq> [] \<and> list_all is_word k"

definition plain_text :: "str \<Rightarrow> bool" where
  "plain_text t \<longleftrightarrow> list_all (\<lambda>c. c \<notin> {dquote, bslash, CHR ''$'', CHR ''['', nl}) t"

definition plain_params :: "params \<Rightarrow> bool" where
  "plain_params ps \<longleftrightarrow> distinct (map fst ps) \<and> list_all (\<lambda>(k, v). ident_text k) ps"

lemma tcl_quoted_plain:
  "list_all (\<lambda>c. c \<notin> {dquote, bslash, CHR ''$'', CHR ''[''}) u \<Longrightarrow>
   tcl_quoted (u @ s) = map_option (\<lambda>(w, r). (u @ w, r)) (tcl_quoted s)"
  by (induction u) (auto simp: option.map_comp option.map_ident case_prod_beta' comp_def)

definition bare_text :: "str \<Rightarrow> bool" where
  "bare_text u \<longleftrightarrow> u \<noteq> [] \<and> hd u \<notin> {dquote, CHR ''{''} \<and>
     list_all (\<lambda>c. \<not> tcl_blank c \<and> c \<notin> {bslash, CHR ''$'', CHR ''['', CHR '';''}) u"

lemma tcl_bare_text:
  "list_all (\<lambda>c. \<not> tcl_blank c \<and> c \<notin> {bslash, CHR ''$'', CHR ''['', CHR '';''}) u \<Longrightarrow> s = [] \<or> tcl_blank (hd s) \<Longrightarrow>
   tcl_bare (u @ s) = Some (u, s)"
  by (induction u) (cases s; auto)+

lemma tcl_words_blank: "tcl_blank c \<Longrightarrow> tcl_words (c # s) = tcl_words s"
  by (simp add: tcl_words.simps [of "c # s"] tcl_words.simps [of s])

lemma tcl_words_Nil [simp]: "tcl_words [] = Some []"
  by (simp add: tcl_words.simps)

lemma tcl_words_bare:
  assumes "bare_text u" "s = [] \<or> tcl_blank (hd s)"
  shows "tcl_words (u @ s) = map_option (\<lambda>ws. u # ws) (tcl_words s)"
proof -
  obtain c u' where u: "u = c # u'" using assms(1) by (cases u) (auto simp: bare_text_def)
  then have "\<not> tcl_blank c" using assms(1) by (simp add: bare_text_def)
  moreover have "tcl_word (u @ s) = Some (u, s)"
    using tcl_bare_text [of u s] assms u by (simp add: tcl_word_def bare_text_def)
  ultimately show ?thesis unfolding tcl_words.simps [of "u @ s"] using u by simp
qed

lemma tcl_words_quoted:
  assumes "tcl_quoted t = Some (w, s)" "s = [] \<or> tcl_blank (hd s)"
  shows "tcl_words (dquote # t) = map_option (\<lambda>ws. w # ws) (tcl_words s)"
  using assms by (simp add: tcl_words.simps [of "dquote # t"] tcl_word_def tcl_blank_def)

lemma word_char_bare: "is_word c \<Longrightarrow> \<not> tcl_blank c \<and> c \<notin> {dquote, bslash, CHR ''$'', CHR ''['', CHR '';'', CHR ''{'', nl, CHR '','', CHR ''=''}"
  by (auto simp: is_word_def is_alnum_def is_alpha_ascii_def is_digit_def tcl_blank_def)

lemma digit_word: "is_digit c \<Longrightarrow> is_word c"
  by (simp add: is_word_def is_alnum_def)

lemma bare_ident: "ident_text k \<Longrightarrow> bare_text k"
  using word_char_bare by (cases k) (auto simp: ident_text_def bare_text_def list_all_iff)

lemma bare_param: "ident_text k \<Longrightarrow> bare_text (''RTL_PARAM_'' @ k)"
  using word_char_bare by (auto simp: ident_text_def bare_text_def list_all_iff tcl_blank_def)

lemma int_str_char: "c \<in> set (int_str v) \<Longrightarrow> is_word c \<or> c = CHR ''-''"
  using int_str_chars digit_word by blast

lemma bare_int_str: "bare_text (int_str v)"
proof -
  have ok: "\<not> tcl_blank c \<and> c \<notin> {dquote, CHR ''{'', bslash, CHR ''$'', CHR ''['', CHR '';''}"
    if "is_word c \<or> c = CHR ''-''" for c
  proof (cases "is_word c")
    case False
    with that show ?thesis by (simp add: tcl_blank_def)
  qed (use word_char_bare [of c] in simp)
  have "int_str v \<noteq> []" by (simp add: int_str_def del: nat_str.simps)
  moreover from this have "hd (int_str v) \<notin> {dquote, CHR ''{''}"
    using ok [OF int_str_char [OF hd_in_set]] by blast
  ultimately show ?thesis
    unfolding bare_text_def list_all_iff using ok [OF int_str_char] by (intro conjI ballI) blast+
qed

lemma tcl_quoted_ends: "tcl_quoted t = Some (w, []) \<Longrightarrow> t \<noteq> [] \<and> last t = dquote"
  by (induction t arbitrary: w rule: tcl_quoted.induct) (fastforce split: if_splits list.splits)+

lemma set_words: "tcl_words (''set '' @ n @ CHR '' '' # v) = map_option (\<lambda>ws. ''set'' # n # ws) (tcl_words v)" if "bare_text n"
proof -
  have "bare_text ''set''" by (simp add: bare_text_def tcl_blank_def)
  from tcl_words_bare [OF this, of "CHR '' '' # n @ CHR '' '' # v"] tcl_words_bare [OF that, of "CHR '' '' # v"]
  show ?thesis by (simp add: tcl_words_blank tcl_blank_def option.map_comp comp_def)
qed

lemma tcl_command_set:
  assumes "bare_text n" "tcl_words v = Some [w]" "v \<noteq> []" "last v \<noteq> bslash"
  shows "tcl_command (''set '' @ n @ CHR '' '' # v) env = Some (env(n \<mapsto> w))"
proof -
  have "last (''set '' @ n @ CHR '' '' # v) \<noteq> bslash" using assms(3,4) by simp
  then show ?thesis using set_words [OF assms(1), of v] assms(2) by (simp add: tcl_command_def tcl_blank_def)
qed

lemma tcl_set_bare:
  assumes "bare_text n" "bare_text v"
  shows "tcl_command (''set '' @ n @ CHR '' '' # v) env = Some (env(n \<mapsto> v))"
proof (rule tcl_command_set [OF assms(1)])
  show "tcl_words v = Some [v]" using tcl_words_bare [OF assms(2), of "[]"] by simp
  show "v \<noteq> []" "last v \<noteq> bslash" using assms(2) by (auto simp: bare_text_def list_all_iff dest: last_in_set)
qed

lemma tcl_set_quoted:
  assumes "bare_text n" "tcl_quoted t = Some (v, [])"
  shows "tcl_command (''set '' @ n @ CHR '' '' # dquote # t) env = Some (env(n \<mapsto> v))"
  using tcl_words_quoted [OF assms(2)] tcl_quoted_ends [OF assms(2)] by (intro tcl_command_set [OF assms(1)]) simp_all

lemma tcl_quoted_text: "plain_text t \<Longrightarrow> tcl_quoted (t @ [dquote]) = Some (t, [])"
  using tcl_quoted_plain [of t "[dquote]"] by (simp add: plain_text_def list_all_iff)

lemma tcl_run_simps [simp]:
  "tcl_run [] env = env" "tcl_run (l # ls) env = tcl_run ls (Option.bind env (tcl_command l))"
  "tcl_run (ls @ ms) env = tcl_run ms (tcl_run ls env)"
  by (simp_all add: tcl_run_def)

lemma tcl_comment: "last (CHR ''#'' # s) \<noteq> bslash \<Longrightarrow> tcl_command (CHR ''#'' # s) env = Some env"
  by (simp add: tcl_command_def tcl_blank_def)

lemma int_str_0 [simp]: "int_str 0 = ''0''" "int_str 1 = ''1''"
  by code_simp+

lemma nl_int_str [simp]: "nl \<notin> set (int_str v)"
  using int_str_chars [of nl v] by (auto simp: is_digit_def)

lemma sorted_items_set [simp]: "set (sorted_items ps) = set ps"
  by (simp add: sorted_items_def)

lemma sorted_items_distinct: "distinct (map fst ps) \<Longrightarrow> distinct (map fst (sorted_items ps))"
  by (simp add: sorted_items_def distinct_map distinct_sort)

lemma map_of_sorted_items: "distinct (map fst ps) \<Longrightarrow> map_of (sorted_items ps) = map_of ps"
  using sorted_items_distinct [of ps] map_of_inject_set [of "sorted_items ps" ps] by simp

lemma ident_reset_key: "ident_text (reset_key ps)"
  by (simp add: reset_key_def ident_text_def is_word_def is_alnum_def is_alpha_ascii_def)

lemma plain_params_effective: "plain_params ps \<Longrightarrow> plain_params (effective ps b)"
proof -
  assume *: "plain_params ps"
  have "set (AList.update (reset_key ps) 0 ps) \<subseteq> insert (reset_key ps, 0) (set ps)"
    by (induction ps) (auto simp: reset_key_def)
  then show ?thesis
    using * ident_reset_key [of ps] by (fastforce simp: plain_params_def effective_def distinct_update list_all_iff)
qed

lemma param_command: "ident_text k \<Longrightarrow> tcl_command (param_line k v) env = Some (env(''RTL_PARAM_'' @ k \<mapsto> int_str v))"
  using tcl_set_bare [OF bare_param bare_int_str, of k v env] by (simp add: param_line_def)

lemma param_commands:
  assumes "plain_params ps"
  shows "tcl_run (map (\<lambda>(k, v). param_line k v) ps) (Some m) =
    Some (\<lambda>x. case (if startswith x ''RTL_PARAM_'' then map_of ps (drop 10 x) else None) of
       Some v \<Rightarrow> Some (int_str v) | None \<Rightarrow> m x)"
  using assms
proof (induction ps arbitrary: m)
  case (Cons kv ps)
  obtain k v where kv: "kv = (k, v)" by fastforce
  with Cons.prems have "map_of ps k = None" "plain_params ps" "ident_text k"
    by (auto simp: plain_params_def map_of_eq_None_iff)
  then show ?case
    by (auto simp: kv Cons.IH param_command startswith_iff fun_eq_iff split: option.splits)
qed (simp add: fun_eq_iff)

text \<open>The text of the overrides, and what \<open>elaborate\<close> reads in it.\<close>

abbreviation assigns_text :: "params \<Rightarrow> str" where
  "assigns_text ps \<equiv> join '','' (map assign_text ps)"

lemma assign_char:
  assumes "list_all (\<lambda>(k, v). ident_text k) ps" "c \<in> set (assigns_text ps)"
  shows "is_word c \<or> c \<in> {CHR ''='', CHR ''-'', CHR '',''}"
  using assms
proof (induction ps)
  case (Cons kv ps)
  then show ?case
    by (cases kv; cases "ps = []") (auto simp: assign_text_def join_Cons ident_text_def list_all_iff dest: int_str_char)
qed simp

lemma assigns_safe:
  assumes "list_all (\<lambda>(k, v). ident_text k) ps"
  shows "list_all (\<lambda>c. \<not> tcl_blank c \<and> c \<notin> {dquote, bslash, CHR ''$'', CHR ''['', CHR '';'', nl}) (assigns_text ps)"
  using assign_char [OF assms] word_char_bare by (fastforce simp: list_all_iff tcl_blank_def)

lemma elaborate_value:
  assumes "plain_params eff"
  defines "a \<equiv> assigns_text (sorted_items eff)"
  shows "\<exists>t. elaborate_params eff = dquote # t \<and>
    tcl_quoted t = Some (if eff = [] then [] else ''-parameters '' @ dquote # a @ [dquote], [])"
proof -
  have "list_all (\<lambda>c. \<not> tcl_blank c \<and> c \<notin> {dquote, bslash, CHR ''$'', CHR ''['', CHR '';'', nl}) a"
    unfolding a_def using assms(1) by (intro assigns_safe) (auto simp: plain_params_def list_all_iff)
  then have a: "tcl_quoted (a @ s) = map_option (\<lambda>(w, r). (a @ w, r)) (tcl_quoted s)" for s
    by (intro tcl_quoted_plain) (auto simp: list_all_iff)
  have "tcl_quoted (''-parameters '' @ s) = map_option (\<lambda>(w, r). (''-parameters '' @ w, r)) (tcl_quoted s)" for s
    by (rule tcl_quoted_plain) simp
  from this [of "[bslash, dquote] @ a @ [bslash, dquote] @ [dquote]"] show ?thesis
    by (auto simp: elaborate_params_def quoted_def a_def [symmetric] a is_alnum_def is_digit_def is_alpha_ascii_def)
qed

lemma those_map_Some: "(\<And>x. x \<in> set xs \<Longrightarrow> f x = Some (g x)) \<Longrightarrow> those (map f xs) = Some (map g xs)"
  by (induction xs) auto

lemma cut_char: "c \<notin> set u \<Longrightarrow> cut [c] (u @ c # v) = Some (u, v)"
  by (induction u) auto

lemma elaborated_params:
  assumes "plain_params eff" "ident_text tm"
  defines "a \<equiv> assigns_text (sorted_items eff)"
  shows "elaborated tm (if eff = [] then [] else ''-parameters '' @ dquote # a @ [dquote]) =
    Some (map (\<lambda>(k, v). (k, int_str v)) (sorted_items eff))"
proof (cases "eff = []")
  case False
  have idents: "list_all (\<lambda>(k, v). ident_text k) (sorted_items eff)"
    using assms(1) by (auto simp: plain_params_def list_all_iff)
  have "plain_text a" using assigns_safe [OF idents] by (auto simp: a_def plain_text_def list_all_iff)
  then have "tcl_words (dquote # a @ [dquote]) = Some [a]" using tcl_words_quoted [OF tcl_quoted_text] by simp
  moreover have "bare_text ''-parameters''" "bare_text ''elaborate''" by (simp_all add: bare_text_def tcl_blank_def)
  ultimately have words: "tcl_words (''elaborate '' @ tm @ '' '' @ ''-parameters '' @ dquote # a @ [dquote]) =
      Some [''elaborate'', tm, ''-parameters'', a]"
    using tcl_words_bare [of "''elaborate''" "CHR '' '' # tm @ '' '' @ ''-parameters '' @ dquote # a @ [dquote]"]
      tcl_words_bare [OF bare_ident [OF assms(2)], of "'' '' @ ''-parameters '' @ dquote # a @ [dquote]"]
      tcl_words_bare [of "''-parameters''" "CHR '' '' # dquote # a @ [dquote]"]
    by (simp add: tcl_words_blank tcl_blank_def)
  have sep: "CHR '','' \<notin> set (assign_text kv)" "CHR ''='' \<notin> set (fst kv)" if "kv \<in> set (sorted_items eff)" for kv
  proof -
    have "is_word c" if "c \<in> set (fst kv)" for c
      using idents \<open>kv \<in> set (sorted_items eff)\<close> that by (auto simp: list_all_iff ident_text_def)
    then show "CHR ''='' \<notin> set (fst kv)" "CHR '','' \<notin> set (assign_text kv)"
      using word_char_bare int_str_char by (fastforce simp: assign_text_def)+
  qed
  have "sorted_items eff \<noteq> []" using False by (metis set_empty sorted_items_set)
  then have "split_char (CHR '','') a = map assign_text (sorted_items eff)"
    unfolding a_def using sep(1) by (intro split_char_join) auto
  moreover have "those (map (cut ''='') (map assign_text (sorted_items eff))) =
      Some (map (\<lambda>(k, v). (k, int_str v)) (sorted_items eff))"
    unfolding map_map using sep(2) cut_char [of "CHR ''=''"]
    by (intro those_map_Some) (auto simp: assign_text_def split: prod.splits)
  ultimately show ?thesis using False words by (simp add: elaborated_def)
qed (simp add: elaborated_def sorted_items_def)

lemma quoted_set:
  "bare_text n \<Longrightarrow> plain_text t \<Longrightarrow> tcl_command (''set '' @ n @ CHR '' '' # quoted t) env = Some (env(n \<mapsto> t))"
  using tcl_set_quoted [OF _ tcl_quoted_text, of n t env] by (simp add: quoted_def)

lemma name_bare: "bare_text ''RTL_CONFIG_LABEL''" "bare_text ''RTL_TOP''" "bare_text ''ELABORATE_PARAMS''"
  by (simp_all add: bare_text_def tcl_blank_def)

definition head_env :: "str \<Rightarrow> str \<Rightarrow> tcl_env" where
  "head_env label tm = [''RTL_CONFIG_LABEL'' \<mapsto> label, ''RTL_TOP'' \<mapsto> tm]"

definition alias_env :: "params \<Rightarrow> tcl_env \<Rightarrow> tcl_env" where
  "alias_env eff m =
     (case (map_of eff ''ARST_EN'', map_of eff ''ASYNC_RST_EN'') of
        (Some v, None) \<Rightarrow> m(''RTL_PARAM_ASYNC_RST_EN'' \<mapsto> int_str v) | _ \<Rightarrow> m)"

lemma ident_plain: "ident_text t \<Longrightarrow> plain_text t"
  using word_char_bare by (auto simp: ident_text_def plain_text_def list_all_iff)

lemma tcl_lines:
  assumes "plain_params eff" "plain_text label" "ident_text tm"
  defines "items \<equiv> sorted_items eff"
  defines "opts \<equiv> (if eff = [] then [] else ''-parameters '' @ dquote # assigns_text items @ [dquote])"
  shows "tcl_run (params_lines label tm eff) (Some Map.empty) =
    Some ((alias_env eff (\<lambda>x. case (if startswith x ''RTL_PARAM_'' then map_of eff (drop 10 x) else None) of
        Some v \<Rightarrow> Some (int_str v) | None \<Rightarrow> head_env label tm x))(''ELABORATE_PARAMS'' \<mapsto> opts))"
proof -
  have items: "plain_params items" "map_of items = map_of eff"
    using assms(1) sorted_items_distinct map_of_sorted_items by (auto simp: items_def plain_params_def list_all_iff)
  have set_label: "tcl_command (''set RTL_CONFIG_LABEL '' @ quoted label) m = Some (m(''RTL_CONFIG_LABEL'' \<mapsto> label))" for m
    using quoted_set [OF name_bare(1) assms(2), of m] by simp
  have set_top: "tcl_command (''set RTL_TOP '' @ quoted tm) m = Some (m(''RTL_TOP'' \<mapsto> tm))" for m
    using quoted_set [OF name_bare(2) ident_plain [OF assms(3)], of m] by simp
  obtain t where "elaborate_params eff = dquote # t" "tcl_quoted t = Some (opts, [])"
    using elaborate_value [OF assms(1)] unfolding opts_def items_def by blast
  then have set_opts: "tcl_command (''set ELABORATE_PARAMS '' @ elaborate_params eff) m = Some (m(''ELABORATE_PARAMS'' \<mapsto> opts))" for m
    using tcl_set_quoted [OF name_bare(3), of t opts m] by simp
  have "last tcl_rule \<noteq> bslash" by (simp add: tcl_rule_def)
  then have rule: "tcl_command tcl_rule m = Some m" for m unfolding tcl_rule_def by (rule tcl_comment)
  have also_arst: "tcl_command (param_line ''ASYNC_RST_EN'' v) m = Some (m(''RTL_PARAM_ASYNC_RST_EN'' \<mapsto> int_str v))" for v m
    using param_command [of "''ASYNC_RST_EN''" v m] ident_reset_key [of "[]"] by (simp add: reset_key_def)
  have blank: "tcl_command [] m = Some m" for m by (simp add: tcl_command_def)
  have comment: "tcl_command (CHR ''#'' # l) m = Some m" if "last (CHR ''#'' # l) \<noteq> bslash" for l m by (rule tcl_comment [OF that])
  have body: "tcl_run (map (\<lambda>(k, v). param_line k v) items) (Some m) =
    Some (\<lambda>x. case (if startswith x ''RTL_PARAM_'' then map_of eff (drop 10 x) else None) of
       Some v \<Rightarrow> Some (int_str v) | None \<Rightarrow> m x)" for m
    using param_commands [OF items(1)] by (simp only: items(2))
  have no_opts: "tcl_command (''set ELABORATE_PARAMS '' @ elaborate_params []) m = Some (m(''ELABORATE_PARAMS'' \<mapsto> opts))"
    if "eff = []" for m using set_opts [of m] by (simp add: that)
  have head: "[''RTL_CONFIG_LABEL'' \<mapsto> label, ''RTL_TOP'' \<mapsto> tm] = head_env label tm" by (simp add: head_env_def)
  show ?thesis
    unfolding params_lines_def items_def [symmetric]
    by (simp add: rule blank comment set_label [simplified] set_top [simplified] set_opts [simplified] no_opts [simplified]
        also_arst body head alias_env_def split: option.split)
qed

lemma params_lines_nl:
  assumes "plain_params eff" "plain_text label" "ident_text tm" "l \<in> set (params_lines label tm eff)"
  shows "nl \<notin> set l"
proof -
  have idents: "list_all (\<lambda>(k, v). ident_text k) (sorted_items eff)" using assms(1) by (auto simp: plain_params_def list_all_iff)
  have "nl \<notin> set k" if "ident_text k" for k using ident_plain [OF that] by (auto simp: plain_text_def list_all_iff)
  then have "nl \<notin> set tm" "(k, v) \<in> set (sorted_items eff) \<Longrightarrow> nl \<notin> set k" for k v
    using assms(3) idents by (auto simp: list_all_iff)
  moreover have "nl \<notin> set label" using assms(2) by (auto simp: plain_text_def list_all_iff)
  moreover have "nl \<notin> set (assigns_text (sorted_items eff))" using assigns_safe [OF idents] by (auto simp: list_all_iff)
  ultimately show ?thesis
    using assms(4) by (auto simp: params_lines_def param_line_def tcl_rule_def quoted_def elaborate_params_def
        split: option.splits if_splits)
qed

lemma join_end: "ls \<noteq> [] \<Longrightarrow> join [nl] ls @ [nl] = join [nl] (ls @ [[]])"
proof (induction ls)
  case (Cons a ls)
  then show ?case by (cases "ls = []") (auto simp: join_Cons)
qed simp

lemma tcl_source_lines:
  assumes "ls \<noteq> []" and "\<And>l. l \<in> set ls \<Longrightarrow> nl \<notin> set l"
  shows "tcl_source (join [nl] ls @ [nl]) = tcl_run ls (Some Map.empty)"
proof -
  have "split_char nl (join [nl] (ls @ [[]])) = ls @ [[]]"
    using assms by (intro split_char_join) auto
  moreover have "Option.bind acc (tcl_command []) = acc" for acc by (cases acc) (simp_all add: tcl_command_def)
  ultimately show ?thesis by (simp add: tcl_source_def join_end [OF assms(1)])
qed

text \<open>The value a parameter is to have: the override of the entry, or 0 for the reset style that is forced.\<close>

definition asked :: "params \<Rightarrow> bool \<Rightarrow> str \<Rightarrow> int option" where
  "asked ps force k =
     (if force \<and> k = (if ''ARST_EN'' \<in> fst ` set ps then ''ARST_EN'' else ''ASYNC_RST_EN'') then Some 0 else map_of ps k)"

lemma map_of_effective: "map_of (effective ps force) = asked ps force"
  by (auto simp: effective_def update_conv' asked_def reset_key_def fun_eq_iff map_of_eq_None_iff)

lemma sourced:
  fixes force :: bool
  assumes "plain_params ps" "plain_text label" "ident_text tm"
  defines "eff \<equiv> effective ps force"
  obtains env where "tcl_source (write_params label tm ps force) = Some env"
    and "env ''RTL_CONFIG_LABEL'' = Some label" "env ''RTL_TOP'' = Some tm"
    and "env ''ELABORATE_PARAMS'' = Some (if eff = [] then [] else ''-parameters '' @ dquote # assigns_text (sorted_items eff) @ [dquote])"
    and "\<And>k. env (''RTL_PARAM_'' @ k) = map_option int_str
      (if k = ''ASYNC_RST_EN'' \<and> asked ps force k = None then asked ps force ''ARST_EN'' else asked ps force k)"
proof -
  have eff: "plain_params eff" unfolding eff_def using assms(1) by (rule plain_params_effective)
  have "params_lines label tm eff \<noteq> []" by (simp add: params_lines_def)
  from tcl_source_lines [OF this params_lines_nl [OF eff assms(2,3)]]
  have "tcl_source (write_params label tm ps force) = tcl_run (params_lines label tm eff) (Some Map.empty)"
    by (simp add: write_params_def eff_def)
  note env = this [unfolded tcl_lines [OF eff assms(2,3)]]
  have maps: "map_of eff = asked ps force" by (simp add: eff_def map_of_effective)
  show ?thesis
    by (rule that [OF env]) (auto simp: alias_env_def head_env_def maps split: option.splits)
qed

text \<open>
  C14. Sourcing the generated file works and gives back the configuration: the label and the top module;
  for every parameter the variable \<open>RTL_PARAM_K\<close>, which holds its value or is not set, except that an
  \<open>ARST_EN\<close> without \<open>ASYNC_RST_EN\<close> is also visible as \<open>RTL_PARAM_ASYNC_RST_EN\<close>; and the \<open>elaborate\<close> command
  the tools make of \<open>ELABORATE_PARAMS\<close> overrides every parameter of the configuration once, with its
  value, and no other. With the option for the synchronous reset the parameter of the reset style is 0.
\<close>

theorem rtl_params_read_back:
  assumes "plain_params ps" and "plain_text label" and "ident_text tm"
  shows "\<exists>env opts overrides. tcl_source (write_params label tm ps force) = Some env \<and>
    env ''RTL_CONFIG_LABEL'' = Some label \<and> env ''RTL_TOP'' = Some tm \<and>
    (\<forall>k. env (''RTL_PARAM_'' @ k) = map_option int_str
      (if k = ''ASYNC_RST_EN'' \<and> asked ps force k = None then asked ps force ''ARST_EN'' else asked ps force k)) \<and>
    env ''ELABORATE_PARAMS'' = Some opts \<and> elaborated tm opts = Some overrides \<and>
    distinct (map fst overrides) \<and> map_of overrides = map_option int_str \<circ> asked ps force"
proof -
  let ?eff = "effective ps force"
  let ?over = "map (\<lambda>(k, v). (k, int_str v)) (sorted_items ?eff)"
  obtain env where env: "tcl_source (write_params label tm ps force) = Some env"
    "env ''RTL_CONFIG_LABEL'' = Some label" "env ''RTL_TOP'' = Some tm"
    "env ''ELABORATE_PARAMS'' = Some (if ?eff = [] then [] else ''-parameters '' @ dquote # assigns_text (sorted_items ?eff) @ [dquote])"
    "\<And>k. env (''RTL_PARAM_'' @ k) = map_option int_str
      (if k = ''ASYNC_RST_EN'' \<and> asked ps force k = None then asked ps force ''ARST_EN'' else asked ps force k)"
    using sourced [OF assms] by metis
  have eff: "plain_params ?eff" using assms(1) by (rule plain_params_effective)
  then have items: "distinct (map fst (sorted_items ?eff))" "map_of (sorted_items ?eff) = asked ps force"
    using sorted_items_distinct map_of_sorted_items by (simp_all add: plain_params_def map_of_effective)
  have "map fst ?over = map fst (sorted_items ?eff)" by (simp add: comp_def case_prod_beta')
  with items have "distinct (map fst ?over)" "map_of ?over = map_option int_str \<circ> asked ps force"
    by (simp_all only: map_of_map)
  with env elaborated_params [OF eff assms(3)] show ?thesis by blast
qed

theorem rtl_params_read_back_witness:
  "\<exists>env opts. tcl_source (write_params ''lf_sync_rst'' ''ahb_aclint'' [(''LF_SYNC_EN'', 1), (''ASYNC_RST_EN'', 0)] False) = Some env \<and>
    env (''RTL_PARAM_'' @ ''ASYNC_RST_EN'') = Some ''0'' \<and> env ''ELABORATE_PARAMS'' = Some opts \<and>
    (\<exists>overrides. elaborated ''ahb_aclint'' opts = Some overrides \<and> map_of overrides ''LF_SYNC_EN'' = Some ''1'')"
proof -
  have "plain_params [(''LF_SYNC_EN'', 1), (''ASYNC_RST_EN'', 0)]" "plain_text ''lf_sync_rst''" "ident_text ''ahb_aclint''"
    by code_simp+
  from rtl_params_read_back [OF this, of False] obtain env opts overrides where
    *: "tcl_source (write_params ''lf_sync_rst'' ''ahb_aclint'' [(''LF_SYNC_EN'', 1), (''ASYNC_RST_EN'', 0)] False) = Some env"
    "\<forall>k. env (''RTL_PARAM_'' @ k) = map_option int_str
      (if k = ''ASYNC_RST_EN'' \<and> asked [(''LF_SYNC_EN'', 1), (''ASYNC_RST_EN'', 0)] False k = None
       then asked [(''LF_SYNC_EN'', 1), (''ASYNC_RST_EN'', 0)] False ''ARST_EN''
       else asked [(''LF_SYNC_EN'', 1), (''ASYNC_RST_EN'', 0)] False k)"
    "env ''ELABORATE_PARAMS'' = Some opts" "elaborated ''ahb_aclint'' opts = Some overrides"
    "map_of overrides = map_option int_str \<circ> asked [(''LF_SYNC_EN'', 1), (''ASYNC_RST_EN'', 0)] False"
    by blast
  have "env (''RTL_PARAM_'' @ ''ASYNC_RST_EN'') = Some ''0''" "map_of overrides ''LF_SYNC_EN'' = Some ''1''"
    using *(2) [THEN spec, of "''ASYNC_RST_EN''"] by (simp_all add: *(5) asked_def)
  with * show ?thesis by blast
qed

text \<open>
  \<open>--with-sync-reset\<close> reaches the reset-style rules: whatever the configuration, as long as
  it does not override both spellings, the variable \<open>RTL_PARAM_ASYNC_RST_EN\<close> those rules test
  is 0, and no other parameter changes.
\<close>

theorem sync_reset_reaches_rules:
  assumes "plain_params ps" and "plain_text label" and "ident_text tm"
    and "map_of ps ''ARST_EN'' = None \<or> map_of ps ''ASYNC_RST_EN'' = None"
  shows "\<exists>on off. tcl_source (write_params label tm ps True) = Some on \<and> tcl_source (write_params label tm ps False) = Some off \<and>
    on ''RTL_PARAM_ASYNC_RST_EN'' = Some ''0'' \<and>
    (\<forall>k. k \<noteq> ''ARST_EN'' \<longrightarrow> k \<noteq> ''ASYNC_RST_EN'' \<longrightarrow> on (''RTL_PARAM_'' @ k) = off (''RTL_PARAM_'' @ k))"
proof -
  obtain on off where env: "tcl_source (write_params label tm ps True) = Some on" "tcl_source (write_params label tm ps False) = Some off"
    "\<And>k. on (''RTL_PARAM_'' @ k) = map_option int_str
      (if k = ''ASYNC_RST_EN'' \<and> asked ps True k = None then asked ps True ''ARST_EN'' else asked ps True k)"
    "\<And>k. off (''RTL_PARAM_'' @ k) = map_option int_str
      (if k = ''ASYNC_RST_EN'' \<and> asked ps False k = None then asked ps False ''ARST_EN'' else asked ps False k)"
    using sourced [OF assms(1-3), of True] sourced [OF assms(1-3), of False] by metis
  have "on ''RTL_PARAM_ASYNC_RST_EN'' = Some ''0''"
    using env(3) [of "''ASYNC_RST_EN''"] assms(4) by (force simp: asked_def map_of_eq_None_iff dest: map_of_SomeD)
  moreover have "on (''RTL_PARAM_'' @ k) = off (''RTL_PARAM_'' @ k)" if "k \<noteq> ''ARST_EN''" "k \<noteq> ''ASYNC_RST_EN''" for k
    using that by (simp only: env(3,4)) (simp add: asked_def)
  ultimately show ?thesis using env(1,2) by blast
qed

text \<open>
  The elaborated parameter is another matter: for an \<open>arv_dtm\<close> configuration that does not
  override the reset style itself, the option sets \<open>ASYNC_RST_EN\<close>, a parameter the
  \<open>arv_dtm\<close> tops do not have (theirs is \<open>ARST_EN\<close>).
\<close>

lemma arv_dtm_sync_reset_spelling:
  "case entries arv_dtm_configs of
     Inl _ \<Rightarrow> False
   | Inr es \<Rightarrow> list_all (\<lambda>(label, tm, ps).
       map_of ps ''ARST_EN'' = None \<longrightarrow>
       map_of (effective ps True) ''ARST_EN'' = None \<and> map_of (effective ps True) ''ASYNC_RST_EN'' = Some 0) es \<and>
       list_ex (\<lambda>(label, tm, ps). map_of ps ''ARST_EN'' = None) es"
  by code_simp

subsection \<open>Reading the simulation defines back\<close>

text \<open>
  The consumer, \<open>while IFS=: read -r label defines\<close>, splits at the first colon; the tools split
  the defines at blanks and each define at its \<open>=\<close>.
\<close>

fun define_words :: "str list \<Rightarrow> (str \<times> str) list" where
  "define_words (d # w # ws) =
     (if d = ''-D'' then (case cut ''='' w of None \<Rightarrow> (w, []) | Some kv \<Rightarrow> kv) # define_words ws
      else define_words (w # ws))"
| "define_words ws = []"

definition read_define_line :: "str \<Rightarrow> (str \<times> (str \<times> str) list) option" where
  "read_define_line l = map_option (\<lambda>(label, d). (label, define_words (split_char (CHR '' '') d))) (cut '':'' l)"

lemma define_text_words:
  assumes "ps \<noteq> []" and "list_all (\<lambda>(k, v). CHR '' '' \<notin> set k \<and> CHR ''='' \<notin> set k) ps"
  shows "define_words (split_char (CHR '' '') (join '' '' (map define_text ps))) =
    map (\<lambda>(k, v). (k, int_str v)) ps"
  using assms
proof (induction ps)
  case (Cons kv ps)
  obtain k v where kv: "kv = (k, v)" by fastforce
  have sp: "CHR '' '' \<notin> set (k @ CHR ''='' # int_str v)"
    using Cons.prems kv int_str_chars [of "CHR '' ''" v] by (auto simp: is_digit_def)
  have word: "cut ''='' (k @ CHR ''='' # int_str v) = Some (k, int_str v)"
    using Cons.prems kv by (intro cut_char) simp
  have one: "split_char (CHR '' '') (define_text kv) = [''-D'', k @ CHR ''='' # int_str v]"
    using sp by (simp add: define_text_def assign_text_def kv split_char_no_sep)
  show ?case
  proof (cases "ps = []")
    case True
    with one word show ?thesis by (simp add: kv)
  next
    case False
    have "split_char (CHR '' '') (define_text kv @ CHR '' '' # t) =
        [''-D'', k @ CHR ''='' # int_str v] @ split_char (CHR '' '') t" for t
      using split_char_append [OF sp, of t] by (simp add: define_text_def assign_text_def kv)
    with False word Cons show ?thesis by (simp add: kv join_Cons)
  qed
qed simp

lemma map_of_merged: "distinct (map fst ov) \<Longrightarrow> map_of (merged defs ov) = map_of defs ++ map_of ov"
proof (induction ov arbitrary: defs)
  case (Cons kv ov)
  obtain k v where kv: "kv = (k, v)" by fastforce
  have "k \<notin> dom (map_of ov)" using Cons.prems kv by (simp add: dom_map_of_conv_image_fst)
  then have "(map_of defs)(k \<mapsto> v) ++ map_of ov = map_of defs ++ (map_of ov)(k \<mapsto> v)"
    by (auto simp: map_add_def fun_eq_iff split: option.splits)
  with Cons.IH [of "AList.update k v defs"] Cons.prems show ?case
    by (simp only: merged_def kv update_conv' fold_Cons o_apply prod.case map_of.simps distinct.simps
        list.map fst_conv snd_conv)
qed (simp add: merged_def)

lemma merged_keys: "set (map fst (merged defs ov)) = set (map fst defs) \<union> set (map fst ov)"
proof (induction ov arbitrary: defs)
  case (Cons kv ov)
  obtain k v where kv: "kv = (k, v)" by fastforce
  have "merged defs (kv # ov) = merged (AList.update k v defs) ov" by (simp add: merged_def kv)
  then show ?case using Cons [of "AList.update k v defs"] by (auto simp: kv update_keys dest: set_mp [OF equalityD1])
qed (simp add: merged_def)

definition define_keys :: "params \<Rightarrow> bool" where
  "define_keys ps \<longleftrightarrow> distinct (map fst ps) \<and> list_all (\<lambda>(k, v). CHR '' '' \<notin> set k \<and> CHR ''='' \<notin> set k) ps"

lemma define_keys_merged:
  assumes "define_keys defs" and "define_keys ov"
  shows "define_keys (merged defs ov)"
proof -
  have "distinct (map fst (fold (\<lambda>(k, v) d. AList.update k v d) xs d))"
    if "distinct (map fst d)" for xs and d :: params
    using that by (induction xs arbitrary: d) (auto simp: distinct_update)
  then have "distinct (map fst (merged defs ov))"
    using assms(1) by (simp add: merged_def define_keys_def)
  moreover have "CHR '' '' \<notin> set k \<and> CHR ''='' \<notin> set k" if "k \<in> set (map fst (merged defs ov))" for k
    using that assms unfolding merged_keys by (auto simp: define_keys_def list_all_iff)
  ultimately show ?thesis by (force simp: define_keys_def list_all_iff)
qed

lemma define_line_read:
  assumes "define_keys defs" "define_keys ov" "defs \<noteq> []" "CHR '':'' \<notin> set label"
    and "define_line defs (Pair2 label ov) = Inr l"
  shows "read_define_line l = Some (label, map (\<lambda>(k, v). (k, int_str v)) (merged defs ov))"
proof -
  have "merged defs ov \<noteq> []" using merged_keys [of defs ov] assms(3) by auto
  then have words: "define_words (split_char (CHR '' '') (join '' '' (map define_text (merged defs ov)))) =
      map (\<lambda>(k, v). (k, int_str v)) (merged defs ov)"
    using define_keys_merged [OF assms(1,2)] by (intro define_text_words) (auto simp: define_keys_def)
  have "l = label @ CHR '':'' # join '' '' (map define_text (merged defs ov))"
    using assms(5) by (simp add: define_line_def)
  then show ?thesis
    using assms(4) words by (simp add: read_define_line_def cut_char)
qed

text \<open>
  C32. Each line of \<open>rtl_configs_defines.py\<close> is read back by its consumer as the label of its
  configuration and one define per parameter, whose values are the configuration's overrides on
  top of the defaults of the RTL: no parameter is left to a default of the bench.
\<close>

theorem defines_read_back:
  assumes "nr_defaults rtl = Inr defs" and "length defs = 6" and "define_keys defs"
    and "configs tab = map (\<lambda>(l, ps). Pair2 l ps) cs" and "i < length cs" and "cs ! i = (label, ov)"
    and "CHR '':'' \<notin> set label" and "define_keys ov"
  shows "\<exists>ls ws. defines_main rtl tab = Inr ls \<and> length ls = length cs \<and>
    read_define_line (ls ! i) = Some (label, ws) \<and> distinct (map fst ws) \<and>
    map_of ws = map_option int_str \<circ> (map_of defs ++ map_of ov)"
proof -
  have conv: "map_of (map (\<lambda>(k, v). (k, int_str v)) ps) = map_option int_str \<circ> map_of ps" for ps
    by (induction ps) auto
  define ln1 where "ln1 = (\<lambda>(label, ov). label @ '':'' @ join '' '' (map define_text (merged defs ov)))"
  have "map_res (define_line defs) (configs tab) = Inr (map (\<lambda>e. case e of Pair2 l ps \<Rightarrow> ln1 (l, ps)) (configs tab))"
    unfolding assms(4) by (intro map_res_total) (auto simp: define_line_def ln1_def)
  then have main: "defines_main rtl tab = Inr (map ln1 cs)"
    using assms(1,2,4) by (simp add: defines_main_def o_def case_prod_unfold)
  have "read_define_line (map ln1 cs ! i) = Some (label, map (\<lambda>(k, v). (k, int_str v)) (merged defs ov))"
    using assms by (intro define_line_read) (auto simp: define_line_def ln1_def)
  moreover have "distinct (map fst (map (\<lambda>(k, v). (k, int_str v)) (merged defs ov)))"
    using define_keys_merged [OF assms(3,8)] by (simp add: define_keys_def o_def case_prod_unfold)
  moreover have "map_of (map (\<lambda>(k, v). (k, int_str v)) (merged defs ov)) = map_option int_str \<circ> (map_of defs ++ map_of ov)"
    using assms(8) by (simp only: conv map_of_merged define_keys_def)
  ultimately show ?thesis using main by (metis length_map)
qed

definition nr_sample :: str where
  "nr_sample = concat (map (\<lambda>l. l @ [nl])
     [''parameter integer NR_USR_RW = 6;'', ''parameter integer NR_USR_RO = 2;'', ''// a comment'',
      ''parameter integer NR_SUP_RW = 4;'', ''parameter integer NR_SUP_RO = 2;'',
      ''parameter integer NR_MAC_RW = 2;'', ''parameter integer NR_MAC_RO = 1; // min'',
      ''parameter ASYNC_RST_EN = 1;''])"

lemma nr_sample_defaults:
  "nr_defaults nr_sample = Inr [(''NR_USR_RW'', 6), (''NR_USR_RO'', 2), (''NR_SUP_RW'', 4),
     (''NR_SUP_RO'', 2), (''NR_MAC_RW'', 2), (''NR_MAC_RO'', 1)]"
  by code_simp

theorem defines_read_back_witness:
  "\<exists>ls ws. defines_main nr_sample \<lparr>configs = [Pair2 ''no_sup'' [(''NR_SUP_RW'', 0), (''NR_SUP_RO'', 0)]], top_module = None\<rparr> = Inr ls \<and>
    read_define_line (ls ! 0) = Some (''no_sup'', ws) \<and> map_of ws ''NR_SUP_RW'' = Some ''0''"
  using defines_read_back [OF nr_sample_defaults, where i = 0 and cs = "[(''no_sup'', [(''NR_SUP_RW'', 0), (''NR_SUP_RO'', 0)])]"
      and label = "''no_sup''" and ov = "[(''NR_SUP_RW'', 0), (''NR_SUP_RO'', 0)]"
      and tab = "\<lparr>configs = [Pair2 ''no_sup'' [(''NR_SUP_RW'', 0), (''NR_SUP_RO'', 0)]], top_module = None\<rparr>"]
  by (auto simp: define_keys_def)

end
