(* ===== verification/Sweep.thy ===== *)
theory Sweep
  imports RtlConfigs
begin

text \<open>
  The simulation sweeps: \<open>sim_configs.py\<close>, \<open>run_sweep.py\<close> of \<open>ahb_aclint\<close> and \<open>ahb_plic\<close>, and the
  functional-coverage gate (\<open>coverage.py\<close>; \<open>ahb_plic\<close> has its own copy of it in the sweep).
  The compiler, the simulator and the random numbers are arguments; what the sweep keeps on disk
  (logs, directories, the stimulus link, the simulation binary) is its state. Compiler and simulator
  always return: the script gives them no time limit, so one that hangs hangs the sweep, and no
  lemma here speaks of that case.
\<close>

subsection \<open>The tables of \<open>sim_configs.py\<close>\<close>

type_synonym sim_config = "str \<times> params \<times> str list"

definition aclint_default_tests :: "str list" where
  "aclint_default_tests =
    [''mswi_basic'', ''mtimer_cmp_writeback'', ''mtimer_cmp_stall'', ''mtimer_atomic_read'',
     ''mtimer_zicntr_time'', ''mtimer_zicntr_wr_coherency'', ''mtimer_wake'',
     ''mtimer_cmp_boundary'', ''mtimer_mtip_mask'', ''mtimer_cmp_torn_write'', ''mtimer_cmp_wrap'',
     ''mtimer_mtime_write'', ''mtimer_warm_reset'', ''mtimer_load_oneshot'', ''mtimer_half_write'',
     ''mtimer_cmp_sleep_hold'', ''mtimer_lf_duty'', ''mtimer_deep_sleep'', ''mtimer_tick_stress'',
     ''sswi_basic'', ''unmapped_access'', ''priv_check'', ''reset_values'', ''ahb_wait_states'',
     ''ahb_pipelined'', ''ahb_subword'', ''ahb_htrans_seq_busy'', ''ahb_hsel_deassert'',
     ''ahb_error_p2'', ''mtimer_data_patterns'', ''mtimer_mtime_load_mtip'', ''mtimer_scan_mode'',
     ''ahb_reset_midtransfer'', ''ahb_corner_trio'', ''mtimer_deep_sleep_zero_edge'',
     ''mtimer_mtime_write_tick_walk'']"

definition aclint_mtimer_cdc_tests :: "str list" where
  "aclint_mtimer_cdc_tests =
    [''mtimer_mtime_write'', ''mtimer_warm_reset'', ''mtimer_load_oneshot'', ''mtimer_half_write'',
     ''mtimer_cmp_sleep_hold'', ''mtimer_deep_sleep'', ''mtimer_tick_stress'',
     ''mtimer_cmp_writeback'', ''mtimer_cmp_stall'', ''mtimer_atomic_read'',
     ''mtimer_cmp_boundary'', ''mtimer_mtip_mask'', ''mtimer_cmp_torn_write'', ''mtimer_cmp_wrap'',
     ''mtimer_zicntr_time'', ''mtimer_wake'', ''mtimer_data_patterns'', ''mtimer_mtime_load_mtip'',
     ''mtimer_deep_sleep_zero_edge'']"

definition aclint_multihart_tests :: "str list" where
  "aclint_multihart_tests =
    [''mswi_multihart'', ''mtimer_multihart'', ''sswi_multihart'', ''mtimer_hart_sweep'']"

definition aclint_sim_configs :: "sim_config list" where
  "aclint_sim_configs =
    [(''default'', [],
      aclint_default_tests),
     (''nh2'', [(''ACLINT_NUM_HARTS'', 2)],
      [''mswi_basic'', ''unmapped_access''] @ aclint_multihart_tests),
     (''nh16'', [(''ACLINT_NUM_HARTS'', 16)],
      [''mswi_basic'', ''unmapped_access'', ''mtimer_hart_hi''] @ aclint_multihart_tests),
     (''su0'', [(''ACLINT_SU_MODE_EN'', 0)],
      [''mswi_basic'', ''mtimer_cmp_writeback'', ''mtimer_wake'', ''mtimer_zicntr_time'',
        ''unmapped_access'', ''su_disabled'']),
     (''priv_off'', [(''ACLINT_PRIV_CHECK_EN'', 0)],
      [''priv_check_off'', ''mswi_basic'', ''unmapped_access'', ''ahb_subword'']),
     (''sync_rst'', [(''ACLINT_ASYNC_RST_EN'', 0)],
      aclint_default_tests),
     (''slow_lf40'', [(''ACLINT_LF_HALF_PERIOD'', 1000)],
      aclint_mtimer_cdc_tests),
     (''slow_lf400'', [(''ACLINT_LF_HALF_PERIOD'', 10000)],
      aclint_mtimer_cdc_tests),
     (''sync_rst_slow'', [(''ACLINT_ASYNC_RST_EN'', 0), (''ACLINT_LF_HALF_PERIOD'', 10000)],
      aclint_mtimer_cdc_tests),
     (''lf_sync'', [(''ACLINT_LF_SYNC_EN'', 1)],
      aclint_default_tests),
     (''lf_sync_slow'', [(''ACLINT_LF_SYNC_EN'', 1), (''ACLINT_LF_HALF_PERIOD'', 10000)],
      aclint_mtimer_cdc_tests),
     (''lf_sync_rst'', [(''ACLINT_LF_SYNC_EN'', 1), (''ACLINT_ASYNC_RST_EN'', 0)],
      aclint_default_tests)]"

definition aclint_tb_top :: str where
  "aclint_tb_top = ''tb_ahb_aclint''"

definition aclint_mandatory_cover_bins :: "str list" where
  "aclint_mandatory_cover_bins =
    [''lf_tick'', ''mirror_valid'', ''mirror_stale'', ''time_req'', ''time_gnt'', ''cmp_wr'',
     ''mtime_wr'', ''load_ack'', ''hclk_en_hi'', ''hclk_en_lo'', ''irq_msw'', ''irq_mtip'',
     ''irq_ssw'', ''wake_lf'', ''hresp_err'', ''pipelined'', ''wait_state'', ''htrans_seq'',
     ''htrans_busy'', ''subword'', ''mtip_top_hart'', ''mtime_rd_stall'']"

definition aclint_sweep_only_cover_bins :: "str list" where
  "aclint_sweep_only_cover_bins =
    [''mtip_top_hart'']"

definition plic_default_tests :: "str list" where
  "plic_default_tests =
    [''priority_rdwr'', ''enable_rdwr'', ''pending_gateway'', ''threshold_claim'',
     ''arbiter_tiebreak'', ''m_s_routing'', ''unmapped_access'', ''claim_threshold_independent'',
     ''complete_invalid_id'', ''priv_check'', ''priority_zero'', ''threshold_boundary'',
     ''size_check'', ''reset_values'', ''ahb_error_p2'', ''pending_gated_wake'', ''random_irq'',
     ''bus_pipelined'', ''error_hold'', ''priv_contexts'', ''addr_walk'', ''reset_in_operation'',
     ''claim_complete_pipelined'', ''source_walk'', ''threshold_extremes'',
     ''enable_priority_dynamics'', ''pair_contests'']"

definition plic_default_only_tests :: "str list" where
  "plic_default_only_tests =
    [''source_walk'', ''threshold_extremes'', ''enable_priority_dynamics'', ''pair_contests'']"

definition plic_multiword_tests :: "str list" where
  "plic_multiword_tests =
    [''priority_multiword'', ''enable_multiword'', ''pending_multiword'']"

definition plic_sim_configs :: "sim_config list" where
  "plic_sim_configs =
    [(''default'', [],
      plic_default_tests),
     (''nh2'', [(''PLIC_NUM_HARTS'', 2)],
      [''priority_rdwr'', ''enable_rdwr'', ''unmapped_access'', ''multihart_routing'',
        ''priv_contexts'', ''context_walk'', ''addr_walk'']),
     (''nh4'', [(''PLIC_NUM_HARTS'', 4)],
      [''priority_rdwr'', ''enable_rdwr'', ''unmapped_access'', ''multihart_routing'',
        ''priv_contexts'', ''context_walk'', ''addr_walk'']),
     (''su0'', [(''PLIC_SU_MODE_EN'', 0)],
      [''priority_rdwr'', ''pending_gateway'', ''threshold_claim'', ''unmapped_access'',
        ''su_disabled'', ''priv_contexts'', ''context_walk'', ''addr_walk'',
        ''enable_priority_dynamics'']),
     (''nh2_su0'', [(''PLIC_NUM_HARTS'', 2), (''PLIC_SU_MODE_EN'', 0)],
      [''priority_rdwr'', ''unmapped_access'', ''su_disabled'', ''priv_contexts'',
        ''context_walk'', ''addr_walk'']),
     (''ns63_pb4'', [(''PLIC_NUM_SOURCES'', 63), (''PLIC_PRIO_BITS'', 4)],
      [''pending_gateway'', ''threshold_claim'', ''arbiter_tiebreak'', ''m_s_routing'',
        ''unmapped_access'', ''source_walk'', ''threshold_extremes'', ''addr_walk'',
        ''context_walk'', ''pair_contests''] @ plic_multiword_tests),
     (''ns127_pb7'', [(''PLIC_NUM_SOURCES'', 127), (''PLIC_PRIO_BITS'', 7)],
      [''unmapped_access'', ''source_walk'', ''threshold_extremes'', ''addr_walk'',
        ''threshold_claim'', ''arbiter_tiebreak'', ''m_s_routing'', ''priority_zero'',
        ''threshold_boundary'', ''complete_invalid_id'', ''priv_contexts'', ''random_irq'',
        ''context_walk'', ''pair_contests''] @ plic_multiword_tests),
     (''ns40_pb1'', [(''PLIC_NUM_SOURCES'', 40), (''PLIC_PRIO_BITS'', 1)],
      [''source_walk'', ''threshold_extremes'', ''addr_walk'', ''unmapped_access'',
        ''pending_gateway'', ''arbiter_tiebreak'', ''m_s_routing'', ''priority_zero'',
        ''complete_invalid_id'', ''random_irq'', ''reset_values'', ''pair_contests''] @ plic_multiword_tests),
     (''nh4_ns63_pb4'', [(''PLIC_NUM_HARTS'', 4), (''PLIC_NUM_SOURCES'', 63), (''PLIC_PRIO_BITS'', 4)],
      [''context_walk'', ''unmapped_access'', ''addr_walk'', ''priv_contexts'']),
     (''priv_off'', [(''PLIC_PRIV_CHECK_EN'', 0)],
      [''priority_rdwr'', ''enable_rdwr'', ''unmapped_access'', ''priv_check_off'',
        ''size_check'', ''addr_walk'']),
     (''sync_rst'', [(''PLIC_ASYNC_RST_EN'', 0)],
      filter (\<lambda>t. t \<notin> set plic_default_only_tests) plic_default_tests)]"

definition plic_tb_top :: str where
  "plic_tb_top = ''tb_ahb_plic''"

definition plic_mandatory_cover_bins :: "str list" where
  "plic_mandatory_cover_bins =
    [''eip_m_hi'', ''eip_s_hi'', ''hclk_en_hi'', ''hclk_en_lo'', ''hresp_err'', ''size_err'',
     ''pending_any'', ''in_service_any'', ''claim_nonzero'', ''claim_pulse'', ''complete_pulse'',
     ''prio0_blocked'', ''threshold_masks'', ''multiword'']"

subsection \<open>What a sweep works on\<close>

text \<open>
  The outside of the sweep: the test sources, the n-th random number drawn, and for a stimulus
  link and a command line the exit code and output of \<open>iverilog\<close> and of the binary it built.
\<close>

record testbench =
  has_source :: "str \<Rightarrow> bool"
  random_draw :: "nat \<Rightarrow> nat"
  compiler :: "str option \<Rightarrow> str list \<Rightarrow> int \<times> str"
  simulator :: "str option \<Rightarrow> str list \<Rightarrow> int \<times> str"

record paths =
  submit_f :: str
  src_dir :: str

record sweep_state =
  logs :: "(str \<times> str) list"
  dirs :: "str list"
  stimulus :: "str option"
  binary :: "str list option"
  draws :: nat
  stdout :: str

datatype status = PASS | FAIL | SKIP | COMPILE_FAIL | INCONCLUSIVE | MISS

definition status_name :: "status \<Rightarrow> str" where
  "status_name s = (case s of PASS \<Rightarrow> ''PASS'' | FAIL \<Rightarrow> ''FAIL'' | SKIP \<Rightarrow> ''SKIP''
     | COMPILE_FAIL \<Rightarrow> ''COMPILE_FAIL'' | INCONCLUSIVE \<Rightarrow> ''INCONCLUSIVE'' | MISS \<Rightarrow> ''MISS'')"

type_synonym run_row = "str \<times> params \<times> str \<times> status"

definition say :: "str \<Rightarrow> sweep_state \<Rightarrow> sweep_state" where
  "say t st = st\<lparr>stdout := stdout st @ t\<rparr>"

definition write_log :: "str \<Rightarrow> str \<Rightarrow> sweep_state \<Rightarrow> sweep_state" where
  "write_log p t st = st\<lparr>logs := AList.update p t (logs st)\<rparr>"

subsection \<open>One run\<close>

text \<open>A fresh link replaces the old one; without a source the old link stays.\<close>

definition setup_stimulus :: "testbench \<Rightarrow> paths \<Rightarrow> str \<Rightarrow> sweep_state \<Rightarrow> str option \<times> sweep_state" where
  "setup_stimulus tb ps test st =
     (if \<not> has_source tb test then (None, st)
      else (let src = src_dir ps @ ''/'' @ test @ ''.v'' in (Some src, st\<lparr>stimulus := Some src\<rparr>)))"

definition build_d_flags :: "params \<Rightarrow> nat \<Rightarrow> str list" where
  "build_d_flags defs seed =
     map (\<lambda>kv. ''-D'' @ assign_text kv) (sorted_items defs) @ [''-D SEED='' @ nat_str seed, ''-D NODUMP'']"

definition compile_cmd :: "paths \<Rightarrow> params \<Rightarrow> nat \<Rightarrow> str list" where
  "compile_cmd ps defs seed =
     [''iverilog'', ''-o'', ''simv'', ''-c'', submit_f ps] @
     map (\<lambda>kv. ''-D'' @ assign_text kv) (sorted_items defs) @ [''-DSEED='' @ nat_str seed, ''-DNODUMP'']"

definition fmt_defines :: "params \<Rightarrow> str" where
  "fmt_defines defs = (if defs = [] then ''(defaults)'' else join '' '' (map assign_text (sorted_items defs)))"

definition rule78 :: str where
  "rule78 = replicate 78 (CHR ''-'')"

definition log_header :: "str \<Rightarrow> params \<Rightarrow> str \<Rightarrow> str list \<Rightarrow> str" where
  "log_header label defs test cmd =
     ''CONFIG: '' @ label @ [nl] @
     ''DEFINES: '' @ join '' '' (map assign_text (sorted_items defs)) @ [nl] @
     ''TEST: '' @ test @ [nl] @
     ''CMD: '' @ join '' '' cmd @ [nl] @ rule78 @ [nl]"

definition log_name :: "str \<Rightarrow> str \<Rightarrow> str" where
  "log_name label test = label @ ''/'' @ test @ ''.log''"

text \<open>
  \<open>run_one\<close> up to reading the log, whose text is then classified; \<open>Inl\<close> is a run that ends before.
\<close>

definition simulate ::
    "testbench \<Rightarrow> paths \<Rightarrow> str \<Rightarrow> params \<Rightarrow> str \<Rightarrow> sweep_state \<Rightarrow> (status + str) \<times> sweep_state" where
  "simulate tb ps label defs test st =
     (case setup_stimulus tb ps test st of
        (None, st1) \<Rightarrow>
          (Inl MISS, write_log (log_name label test)
             (''SKIP: stimulus file not found: ../src/'' @ test @ ''.v'' @ [nl]) st1)
      | (Some src, st1) \<Rightarrow>
          (let seed = random_draw tb (draws st1); cmd = compile_cmd ps defs seed;
               st2 = st1\<lparr>draws := Suc (draws st1), binary := None\<rparr>;
               (rc, out) = compiler tb (stimulus st2) cmd; t1 = log_header label defs test cmd @ out
           in if rc \<noteq> 0 then (Inl COMPILE_FAIL, write_log (log_name label test) t1 st2)
              else (let t2 = t1 @ rule78 @ '' RUN'' @ [nl] @ snd (simulator tb (stimulus st2) cmd)
                    in (Inr t2, write_log (log_name label test) t2 (st2\<lparr>binary := Some cmd\<rparr>)))))"

definition run_one_by ::
    "(str \<Rightarrow> status) \<Rightarrow> testbench \<Rightarrow> paths \<Rightarrow> str \<Rightarrow> params \<Rightarrow> str \<Rightarrow> sweep_state \<Rightarrow> status \<times> sweep_state" where
  "run_one_by classify tb ps label defs test st =
     (case simulate tb ps label defs test st of
        (Inl s, st1) \<Rightarrow> (s, st1) | (Inr t, st1) \<Rightarrow> (classify t, st1))"

definition aclint_classify :: "str \<Rightarrow> status" where
  "aclint_classify t =
     (if contains t ''SIMULATION PASSED'' then PASS
      else if contains t ''SIMULATION FAILED'' then FAIL
      else if contains t ''SIMULATION SKIPPED'' then SKIP else INCONCLUSIVE)"

definition plic_classify :: "str \<Rightarrow> status" where
  "plic_classify t =
     (if contains t ''SIMULATION PASSED'' then PASS
      else if contains t ''SIMULATION FAILED'' then FAIL else INCONCLUSIVE)"

definition aclint_run_one :: "testbench \<Rightarrow> paths \<Rightarrow> str \<Rightarrow> params \<Rightarrow> str \<Rightarrow> sweep_state \<Rightarrow> status \<times> sweep_state" where
  "aclint_run_one = run_one_by aclint_classify"

definition plic_run_one :: "testbench \<Rightarrow> paths \<Rightarrow> str \<Rightarrow> params \<Rightarrow> str \<Rightarrow> sweep_state \<Rightarrow> status \<times> sweep_state" where
  "plic_run_one = run_one_by plic_classify"

subsection \<open>Functional coverage\<close>

definition marker :: str where
  "marker = ''COVERAGE HIT:''"

text \<open>The bins named in a line: none, or the last word after the first marker.\<close>

definition line_bins :: "str \<Rightarrow> str list" where
  "line_bins line =
     (case cut marker line of
        None \<Rightarrow> []
      | Some (u, v) \<Rightarrow> (let ws = split_ws v in if ws = [] then [] else [last ws]))"

definition collect :: "(str \<times> str) list \<Rightarrow> str list" where
  "collect ls =
     remdups (concat (map (\<lambda>(p, t). concat (map line_bins (splitlines t)))
       (filter (\<lambda>(p, t). endswith p ''.log'') ls)))"

text \<open>\<open>coverage.report\<close>: the bins that fail the caller and the report text.\<close>

definition rule_of :: "nat \<Rightarrow> str" where
  "rule_of n = replicate n (CHR ''='')"

definition report :: "str list \<Rightarrow> str list \<Rightarrow> (str \<times> str) list \<Rightarrow> bool \<Rightarrow> nat \<Rightarrow> str list \<times> str" where
  "report mandatory sweep_only ls single width =
     (let hit = collect ls;
          required = filter (\<lambda>b. \<not> (single \<and> b \<in> set sweep_only)) mandatory;
          missing = filter (\<lambda>b. b \<notin> set hit) required;
          expected = filter (\<lambda>b. single \<and> b \<in> set sweep_only \<and> b \<notin> set hit) mandatory;
          scope = (if single then ''default config only'' else ''union across all configs'');
          rows = [rule_of width,
             ''  functional coverage -- '' @ int_str (int (length required) - int (length missing)) @ ''/'' @
               nat_str (length required) @ '' required bins hit ('' @ scope @ '')'',
             rule_of width] @
            map (\<lambda>b. ''  not reachable in this config, covered by run_all -sweep -> '' @ b) expected @
            map (\<lambda>b. ''  COVERAGE GAP: required bin never hit -> '' @ b) missing @
            [if missing \<noteq> [] then ''  -> coverage FAILED ('' @ nat_str (length missing) @ '' bin(s) unexercised)''
             else if single then ''  -> coverage OK for this config (the gate with teeth is run_all -sweep)''
             else ''  -> coverage PASSED (all mandatory bins exercised)'']
      in (missing, join [nl] rows))"

definition plic_report :: "str list \<Rightarrow> (str \<times> str) list \<Rightarrow> str list \<times> str" where
  "plic_report mandatory ls =
     (let hit = collect ls;
          missing = filter (\<lambda>b. b \<notin> set hit) mandatory;
          rows = [rule_of 90,
             ''  functional coverage gate -- '' @ int_str (int (length mandatory) - int (length missing)) @ ''/'' @
               nat_str (length mandatory) @ '' mandatory bins hit (union across all configs)'',
             rule_of 90] @
            (if missing \<noteq> []
             then map (\<lambda>b. ''  COVERAGE GAP: mandatory bin never hit in any config -> '' @ b) missing @
               [''  -> coverage FAILED ('' @ nat_str (length missing) @ '' bin(s) unexercised)'']
             else [''  -> coverage PASSED (all mandatory bins exercised)''])
      in (missing, join [nl] rows))"

text \<open>
  \<open>bin/cov_report\<close>, the report on the logs of a single configuration: the exit code, and the message
  or the text it prints and keeps as \<open>coverage.log\<close>. The directories and the logs in them are arguments.
\<close>

definition cov_report_script :: "(str \<Rightarrow> bool) \<Rightarrow> (str \<Rightarrow> (str \<times> str) list) \<Rightarrow> str list \<Rightarrow> nat \<times> (str + str)" where
  "cov_report_script is_dir logs_in args =
     (case args of
        [d] \<Rightarrow>
          if \<not> is_dir d then (1, Inl (''cov_report: no such log directory: '' @ d))
          else
            (let (missing, t) = report aclint_mandatory_cover_bins aclint_sweep_only_cover_bins (logs_in d) True 90
             in (if missing \<noteq> [] then 1 else 0, Inr t))
      | _ \<Rightarrow> (1, Inl ''usage: cov_report <log_dir>''))"

text \<open>Either report is printed after an empty line and kept as \<open>coverage.log\<close>.\<close>

definition publish_report :: "str list \<times> str \<Rightarrow> sweep_state \<Rightarrow> str list \<times> sweep_state" where
  "publish_report r st =
     (fst r, write_log ''coverage.log'' (snd r @ [nl]) (say ([nl] @ snd r @ [nl]) st))"

subsection \<open>The sweep\<close>

type_synonym runner = "str \<Rightarrow> params \<Rightarrow> str \<Rightarrow> sweep_state \<Rightarrow> status \<times> sweep_state"

definition test_step :: "runner \<Rightarrow> str \<Rightarrow> params \<Rightarrow> str \<Rightarrow> run_row list \<times> sweep_state \<Rightarrow> run_row list \<times> sweep_state" where
  "test_step run_one label defs test acc =
     (case acc of (rows, st) \<Rightarrow>
        let (s, st1) = run_one label defs test (say (''  '' @ ljust 28 test @ '' '') st)
        in (rows @ [(label, defs, test, s)], say (status_name s @ [nl]) st1))"

definition config_step :: "runner \<Rightarrow> sim_config \<Rightarrow> run_row list \<times> sweep_state \<Rightarrow> (run_row list \<times> sweep_state) res" where
  "config_step run_one c acc =
     (case (c, acc) of ((label, defs, tests), (rows, st)) \<Rightarrow>
        if label \<in> set (dirs st) then Inl (RuntimeError ''FileExistsError'')
        else
          (let st1 = say ([nl] @ ''=== config: '' @ label @ ''  ('' @ fmt_defines defs @ '')'' @ [nl])
                       (st\<lparr>dirs := dirs st @ [label]\<rparr>)
           in Inr (fold (test_step run_one label defs) tests (rows, st1))))"

text \<open>A new log root, the flattened file list (a failure raises), every configuration, clean-up.\<close>

definition run_configs :: "runner \<Rightarrow> int \<Rightarrow> sim_config list \<Rightarrow> sweep_state \<Rightarrow> (run_row list \<times> sweep_state) res" where
  "run_configs run_one flatten_rc cs st =
     (if flatten_rc \<noteq> 0 then Inl CalledProcessError
      else bind_res (fold_res (config_step run_one) cs ([], st\<lparr>logs := [], dirs := []\<rparr>)) (\<lambda>(rows, st1).
        Inr (rows, st1\<lparr>stimulus := None, binary := None\<rparr>)))"

type_synonym counts = "(status \<times> nat) list"

definition tally :: "counts \<Rightarrow> run_row list \<Rightarrow> counts" where
  "tally init rows = fold (\<lambda>(c, d, t, s) cs. bump s cs) rows init"

definition aclint_counts0 :: counts where
  "aclint_counts0 = [(PASS, 0), (FAIL, 0), (SKIP, 0), (COMPILE_FAIL, 0), (INCONCLUSIVE, 0), (MISS, 0)]"

definition plic_counts0 :: counts where
  "plic_counts0 = [(PASS, 0), (FAIL, 0), (COMPILE_FAIL, 0), (INCONCLUSIVE, 0), (MISS, 0)]"

definition count :: "counts \<Rightarrow> status \<Rightarrow> nat" where
  "count cs s = (case map_of cs s of None \<Rightarrow> 0 | Some n \<Rightarrow> n)"

definition failed_runs :: "counts \<Rightarrow> nat" where
  "failed_runs cs = count cs FAIL + count cs COMPILE_FAIL + count cs INCONCLUSIVE + count cs MISS"

definition summary_row :: "run_row \<Rightarrow> str" where
  "summary_row r =
     (case r of (c, d, t, s) \<Rightarrow>
        ljust 14 c @ '' '' @ ljust 28 t @ '' '' @ ljust 32 (fmt_defines d) @ '' '' @ status_name s)"

definition dashes :: str where
  "dashes = replicate 90 (CHR ''-'')"

definition aclint_totals :: "run_row list \<Rightarrow> counts \<Rightarrow> str" where
  "aclint_totals rows cs =
     ''  total: '' @ nat_str (length rows) @ ''    '' @
     ''passed: '' @ nat_str (count cs PASS) @ ''    failed: '' @ nat_str (count cs FAIL) @ ''    '' @
     ''skipped: '' @ nat_str (count cs SKIP) @ ''    inconclusive: '' @ nat_str (count cs INCONCLUSIVE) @ ''    '' @
     ''compile-fail: '' @ nat_str (count cs COMPILE_FAIL) @ ''    missing: '' @ nat_str (count cs MISS)"

definition plic_totals :: "run_row list \<Rightarrow> counts \<Rightarrow> str" where
  "plic_totals rows cs =
     ''  total: '' @ nat_str (length rows) @ ''    '' @
     ''passed: '' @ nat_str (count cs PASS) @ ''    failed: '' @ nat_str (count cs FAIL) @ ''    '' @
     ''compile-fail: '' @ nat_str (count cs COMPILE_FAIL) @ ''    missing: '' @ nat_str (count cs MISS)"

definition summary_lines :: "str \<Rightarrow> run_row list \<Rightarrow> str list" where
  "summary_lines totals rows =
     [ljust 14 ''CONFIG'' @ '' '' @ ljust 28 ''TEST'' @ '' '' @ ljust 32 ''DEFINES'' @ '' STATUS'', dashes] @
     map summary_row rows @ [dashes, totals]"

text \<open>The summary is printed under a title and kept as \<open>summary.log\<close>.\<close>

definition publish_summary :: "str \<Rightarrow> str \<Rightarrow> run_row list \<Rightarrow> sweep_state \<Rightarrow> sweep_state" where
  "publish_summary ip totals rows st =
     (let t = join [nl] (summary_lines totals rows)
      in write_log ''summary.log'' (t @ [nl])
           (say ([nl] @ rule_of 90 @ [nl] @ ''  '' @ ip @ '' simulation sweep -- '' @ nat_str (length rows) @
              '' (config, test) runs'' @ [nl] @ rule_of 90 @ [nl] @ t @ [nl]) st))"

record sweep_result =
  exit_code :: nat
  rows_of :: "run_row list"
  missing_bins :: "str list"
  final :: sweep_state

definition aclint_main :: "testbench \<Rightarrow> paths \<Rightarrow> int \<Rightarrow> sim_config list \<Rightarrow> sweep_state \<Rightarrow> sweep_result res" where
  "aclint_main tb ps flatten_rc cs st =
     bind_res (run_configs (aclint_run_one tb ps) flatten_rc cs st) (\<lambda>(rows, st1).
       let n = tally aclint_counts0 rows;
           st2 = publish_summary ''ahb_aclint'' (aclint_totals rows n) rows st1;
           (missing, st3) = publish_report
             (report aclint_mandatory_cover_bins aclint_sweep_only_cover_bins (logs st2) False 90) st2
       in Inr \<lparr>exit_code = (if failed_runs n = 0 \<and> missing = [] then 0 else 1),
               rows_of = rows, missing_bins = missing, final = st3\<rparr>)"

definition plic_main :: "testbench \<Rightarrow> paths \<Rightarrow> int \<Rightarrow> sim_config list \<Rightarrow> sweep_state \<Rightarrow> sweep_result res" where
  "plic_main tb ps flatten_rc cs st =
     bind_res (run_configs (plic_run_one tb ps) flatten_rc cs st) (\<lambda>(rows, st1).
       let n = tally plic_counts0 rows;
           st2 = publish_summary ''ahb_plic'' (plic_totals rows n) rows st1;
           (missing, st3) = publish_report (plic_report plic_mandatory_cover_bins (logs st2)) st2
       in Inr \<lparr>exit_code = (if failed_runs n = 0 \<and> missing = [] then 0 else 1),
               rows_of = rows, missing_bins = missing, final = st3\<rparr>)"

subsection \<open>Coverage facts\<close>

lemma collect_iff:
  "b \<in> set (collect ls) \<longleftrightarrow>
     (\<exists>p t l. (p, t) \<in> set ls \<and> endswith p ''.log'' \<and> l \<in> set (splitlines t) \<and> b \<in> set (line_bins l))"
  by (force simp: collect_def)

lemma fst_report:
  "fst (report mand only ls single w) =
     filter (\<lambda>b. b \<notin> set (collect ls) \<and> \<not> (single \<and> b \<in> set only)) mand"
  by (simp add: report_def Let_def conj_commute)

lemma cov_report_script_0_iff:
  "fst (cov_report_script is_dir logs_in args) = 0 \<longleftrightarrow>
     (\<exists>d. args = [d] \<and> is_dir d \<and>
       set aclint_mandatory_cover_bins - set aclint_sweep_only_cover_bins \<subseteq> set (collect (logs_in d)))"
proof -
  have "fst (report mand only ls True 90) = [] \<longleftrightarrow> set mand - set only \<subseteq> set (collect ls)" for mand only ls
    by (auto simp: fst_report filter_empty_conv)
  then show ?thesis
    by (cases args; cases "tl args") (auto simp: cov_report_script_def split_beta split: if_splits)
qed

lemma fst_plic_report: "fst (plic_report mand ls) = filter (\<lambda>b. b \<notin> set (collect ls)) mand"
  by (simp add: plic_report_def Let_def)

subsection \<open>Counting\<close>

lemma count_tally:
  "count (tally init rows) s = count init s + length (filter (\<lambda>(c, d, t, r). r = s) rows)"
proof (induction rows arbitrary: init)
  case (Cons r rows)
  obtain c d t x where r: "r = (c, d, t, x)" by (metis prod_cases4)
  have "count (bump x init) s = count init s + (if x = s then 1 else 0)"
    by (auto simp: count_def map_of_bump split: option.splits)
  with Cons [of "bump x init"] show ?case by (simp add: tally_def r)
qed (simp add: tally_def)

lemma counts0 [simp]: "count aclint_counts0 s = 0" "count plic_counts0 s = 0"
  by (cases s; simp add: count_def aclint_counts0_def plic_counts0_def)+

lemma failed_runs_0_iff:
  assumes "\<And>s. count init s = 0"
  shows "failed_runs (tally init rows) = 0 \<longleftrightarrow> (\<forall>(c, d, t, s) \<in> set rows. s = PASS \<or> s = SKIP)"
proof -
  have "failed_runs (tally init rows) = 0 \<longleftrightarrow>
    (\<forall>(c, d, t, s) \<in> set rows. s \<noteq> FAIL \<and> s \<noteq> COMPILE_FAIL \<and> s \<noteq> INCONCLUSIVE \<and> s \<noteq> MISS)"
    by (auto simp: failed_runs_def count_tally assms filter_empty_conv)
  also have "\<dots> \<longleftrightarrow> (\<forall>(c, d, t, s) \<in> set rows. s = PASS \<or> s = SKIP)"
  proof -
    have "(s \<noteq> FAIL \<and> s \<noteq> COMPILE_FAIL \<and> s \<noteq> INCONCLUSIVE \<and> s \<noteq> MISS) \<longleftrightarrow> (s = PASS \<or> s = SKIP)" for s
      by (cases s) auto
    then show ?thesis by simp
  qed
  finally show ?thesis .
qed

subsection \<open>What the sweep relies on in a run\<close>

definition runs :: "sim_config list \<Rightarrow> (str \<times> params \<times> str) list" where
  "runs cs = concat (map (\<lambda>(label, defs, tests). map (\<lambda>t. (label, defs, t)) tests) cs)"

lemma runs_simps: "runs [] = []" "runs ((l, d, ts) # cs) = map (\<lambda>t. (l, d, t)) ts @ runs cs"
  by (simp_all add: runs_def)

definition run_key :: "run_row \<Rightarrow> str \<times> params \<times> str" where
  "run_key r = (case r of (l, d, t, s) \<Rightarrow> (l, d, t))"

definition run_log :: "str \<times> params \<times> str \<Rightarrow> str" where
  "run_log k = (case k of (l, d, t) \<Rightarrow> log_name l t)"

text \<open>
  The contract of \<open>run_one\<close>: it writes the log of its own run and no other, keeps the
  directories, and its status is judged by the log it leaves.
\<close>

locale sweep_runner =
  fixes run_one :: "str \<Rightarrow> params \<Rightarrow> str \<Rightarrow> sweep_state \<Rightarrow> status \<times> sweep_state"
    and judged :: "status \<Rightarrow> str \<Rightarrow> bool"
  assumes other_logs: "p \<noteq> log_name l t \<Longrightarrow> map_of (logs (snd (run_one l d t st))) p = map_of (logs st) p"
    and own_log: "\<exists>txt. map_of (logs (snd (run_one l d t st))) (log_name l t) = Some txt \<and>
      judged (fst (run_one l d t st)) txt"
    and keeps_dirs: "dirs (snd (run_one l d t st)) = dirs st"
begin

definition backed :: "run_row list \<Rightarrow> sweep_state \<Rightarrow> bool" where
  "backed rows st \<longleftrightarrow>
     (\<forall>(l, d, t, s) \<in> set rows. \<exists>txt. map_of (logs st) (log_name l t) = Some txt \<and> judged s txt)"

lemma logs_say [simp]: "logs (say u st) = logs st" "dirs (say u st) = dirs st"
  by (simp_all add: say_def)

lemma test_fold_backed:
  assumes "backed rows st" and "distinct (map run_log (map run_key rows @ map (\<lambda>t. (l, d, t)) ts))"
    and "fold (test_step run_one l d) ts (rows, st) = (rows', st')"
  shows "backed rows' st' \<and> map run_key rows' = map run_key rows @ map (\<lambda>t. (l, d, t)) ts \<and> dirs st' = dirs st"
  using assms
proof (induction ts arbitrary: rows st)
  case (Cons t ts)
  define st0 where "st0 = say (''  '' @ ljust 28 t @ '' '') st"
  obtain s st1 where run: "run_one l d t st0 = (s, st1)" by fastforce
  define st2 where "st2 = say (status_name s @ [nl]) st1"
  have step: "test_step run_one l d t (rows, st) = (rows @ [(l, d, t, s)], st2)"
    using run by (simp add: test_step_def st0_def st2_def Let_def)
  have new: "log_name l t \<notin> set (map run_log (map run_key rows))"
    using Cons.prems(2) by (auto simp: run_log_def)
  have old: "map_of (logs st2) (log_name l' t') = map_of (logs st) (log_name l' t')"
    if "(l', d', t', s') \<in> set rows" for l' d' t' s'
  proof -
    have "log_name l' t' \<noteq> log_name l t"
      using new that by (force simp: run_log_def run_key_def)
    then show ?thesis
      using other_logs [of "log_name l' t'" l t d st0] run by (simp add: st2_def st0_def)
  qed
  moreover have "\<exists>txt. map_of (logs st2) (log_name l t) = Some txt \<and> judged s txt"
    using own_log [of l d t st0] run by (simp add: st2_def)
  ultimately have "backed (rows @ [(l, d, t, s)]) st2"
    using Cons.prems(1) by (fastforce simp: backed_def)
  moreover have "dirs st2 = dirs st"
    using keeps_dirs [of l d t st0] run by (simp add: st2_def st0_def)
  ultimately show ?case
    using Cons.IH [of "rows @ [(l, d, t, s)]" st2] Cons.prems(2,3) step
    by (simp add: run_key_def)
qed simp

lemma configs_fold_backed:
  assumes "backed rows st" and "distinct (map run_log (map run_key rows @ runs cs))"
    and "fold_res (config_step run_one) cs (rows, st) = Inr (rows', st')"
  shows "backed rows' st' \<and> map run_key rows' = map run_key rows @ runs cs"
  using assms
proof (induction cs arbitrary: rows st)
  case (Cons c cs)
  obtain l d ts where c: "c = (l, d, ts)" by (metis prod_cases3)
  define st1 where "st1 = say ([nl] @ ''=== config: '' @ l @ ''  ('' @ fmt_defines d @ '')'' @ [nl])
                       (st\<lparr>dirs := dirs st @ [l]\<rparr>)"
  obtain rows2 st2 where f: "fold (test_step run_one l d) ts (rows, st1) = (rows2, st2)" by fastforce
  have step: "config_step run_one c (rows, st) = Inr (rows2, st2)"
    using Cons.prems(3) f by (auto simp: config_step_def c st1_def Let_def split: if_splits)
  have "backed rows st1"
    using Cons.prems(1) by (simp add: backed_def st1_def)
  moreover have "distinct (map run_log (map run_key rows @ map (\<lambda>t. (l, d, t)) ts))"
    using Cons.prems(2) unfolding c runs_simps append_assoc [symmetric]
    by (simp only: map_append [of run_log _ "runs cs"] distinct_append)
  ultimately have two: "backed rows2 st2" "map run_key rows2 = map run_key rows @ map (\<lambda>t. (l, d, t)) ts"
    using test_fold_backed [OF _ _ f] by blast+
  have rest: "fold_res (config_step run_one) cs (rows2, st2) = Inr (rows', st')"
    using Cons.prems(3) step by simp
  have "distinct (map run_log (map run_key rows2 @ runs cs))"
    using Cons.prems(2) unfolding c runs_simps two(2) by simp
  from Cons.IH [OF two(1) this rest] show ?case
    unfolding c runs_simps two(2) by simp
qed (simp add: runs_simps)

lemma sweep_backed:
  assumes "run_configs run_one rc cs st = Inr (rows, st')" and "distinct (map run_log (runs cs))"
  shows "map run_key rows = runs cs" and "backed rows st'"
proof -
  obtain st1 where "fold_res (config_step run_one) cs ([], st\<lparr>logs := [], dirs := []\<rparr>) = Inr (rows, st1)"
    and st': "st' = st1\<lparr>stimulus := None, binary := None\<rparr>"
    using assms(1) by (auto simp: run_configs_def bind_res_Inr_iff split: if_splits)
  from configs_fold_backed [OF _ _ this(1)] assms(2)
  have "backed rows st1 \<and> map run_key rows = runs cs" by (simp add: backed_def)
  then show "map run_key rows = runs cs" and "backed rows st'"
    by (simp_all add: backed_def st')
qed

text \<open>No log other than those of the runs.\<close>

lemma sweep_no_other:
  assumes "run_configs run_one rc cs st = Inr (rows, st')" and other: "\<And>l t. p \<noteq> log_name l t"
  shows "map_of (logs st') p = None"
proof -
  have one: "map_of (logs (snd (test_step run_one l d t acc))) p = map_of (logs (snd acc)) p" for l d t acc
    using other_logs [OF other] by (simp add: test_step_def Let_def split: prod.splits)
      (metis logs_say(1) snd_conv)
  have tests: "map_of (logs (snd (fold (test_step run_one l d) ts acc))) p = map_of (logs (snd acc)) p" for l d ts acc
    by (induction ts arbitrary: acc) (simp_all add: one)
  have "map_of (logs (snd acc')) p = None"
    if "fold_res (config_step run_one) cs acc = Inr acc'" "map_of (logs (snd acc)) p = None" for cs acc acc'
    using that
  proof (induction cs arbitrary: acc)
    case (Cons c cs)
    from Cons.prems(1) obtain acc1 where step: "config_step run_one c acc = Inr acc1"
      and rest: "fold_res (config_step run_one) cs acc1 = Inr acc'"
      by (auto simp: bind_res_Inr_iff)
    have "map_of (logs (snd acc1)) p = None"
      using step Cons.prems(2) by (auto simp: config_step_def Let_def tests split: prod.splits if_splits)
    with Cons.IH rest show ?case by blast
  qed simp
  with assms(1) show ?thesis
    by (fastforce simp: run_configs_def bind_res_Inr_iff split: if_splits)
qed

text \<open>Distinct labels are all the sweep needs to get through its table.\<close>

lemma sweep_returns:
  assumes "distinct (map fst cs)"
  shows "\<exists>rows st'. run_configs run_one 0 cs st = Inr (rows, st')"
proof -
  have tests: "dirs (snd (fold (test_step run_one l d) ts acc)) = dirs (snd acc)" for l d ts acc
  proof (induction ts arbitrary: acc)
    case (Cons t ts)
    have "dirs (snd (test_step run_one l d t acc)) = dirs (snd acc)"
      using keeps_dirs [of l d t] by (simp add: test_step_def Let_def split: prod.splits)
        (metis logs_say(2) snd_conv)
    with Cons show ?case by simp
  qed simp
  have "\<exists>acc'. fold_res (config_step run_one) cs acc = Inr acc'"
    if "distinct (map fst cs)" "set (dirs (snd acc)) \<inter> fst ` set cs = {}" for acc cs
    using that
  proof (induction cs arbitrary: acc)
    case (Cons c cs)
    obtain l d ts rows s where c: "c = (l, d, ts)" "acc = (rows, s)" by (metis surj_pair)
    obtain acc1 where step: "config_step run_one c acc = Inr acc1"
      and dirs: "dirs (snd acc1) = dirs s @ [l]"
      using Cons.prems(2) by (auto simp: c config_step_def Let_def tests)
    have "set (dirs (snd acc1)) \<inter> fst ` set cs = {}"
      using Cons.prems by (auto simp: c dirs)
    with Cons.IH [of acc1] Cons.prems step show ?case by simp
  qed simp
  from this [OF assms, of "([], st\<lparr>logs := [], dirs := []\<rparr>)"] show ?thesis
    by (fastforce simp: run_configs_def)
qed

end

subsection \<open>The two runners keep the contract\<close>

text \<open>
  A status against the log: a test without a source leaves the note saying so, every other log
  opens with the configuration, and the banners in it decide between the simulated outcomes.
\<close>

definition judged_by :: "(str \<Rightarrow> status) \<Rightarrow> status \<Rightarrow> str \<Rightarrow> bool" where
  "judged_by classify s txt \<longleftrightarrow>
     (if s = MISS then startswith txt ''SKIP: stimulus file not found''
      else startswith txt ''CONFIG: '' \<and> (s = COMPILE_FAIL \<or> classify txt = s))"

lemma sweep_runner_run_one_by:
  assumes "\<And>t. classify t \<noteq> MISS"
  shows "sweep_runner (run_one_by classify tb ps) (judged_by classify)"
proof
  fix p l t d st
  assume "p \<noteq> log_name l t"
  then show "map_of (logs (snd (run_one_by classify tb ps l d t st))) p = map_of (logs st) p"
    by (auto simp: run_one_by_def simulate_def setup_stimulus_def write_log_def Let_def update_conv'
        split: prod.splits)
next
  fix l d t st
  show "\<exists>txt. map_of (logs (snd (run_one_by classify tb ps l d t st))) (log_name l t) = Some txt \<and>
      judged_by classify (fst (run_one_by classify tb ps l d t st)) txt"
    using assms
    by (auto simp: run_one_by_def simulate_def setup_stimulus_def write_log_def Let_def update_conv'
        judged_by_def log_header_def split: prod.splits)
  show "dirs (snd (run_one_by classify tb ps l d t st)) = dirs st"
    by (auto simp: run_one_by_def simulate_def setup_stimulus_def write_log_def Let_def
        split: prod.splits)
qed

interpretation aclint: sweep_runner "aclint_run_one tb ps" "judged_by aclint_classify" for tb ps
  unfolding aclint_run_one_def by (rule sweep_runner_run_one_by) (simp add: aclint_classify_def)

interpretation plic: sweep_runner "plic_run_one tb ps" "judged_by plic_classify" for tb ps
  unfolding plic_run_one_def by (rule sweep_runner_run_one_by) (simp add: plic_classify_def)

lemma final_logs:
  assumes "aclint_main tb ps rc cs st = Inr r"
  obtains st1 where "run_configs (aclint_run_one tb ps) rc cs st = Inr (rows_of r, st1)"
    and "\<And>p. p \<noteq> ''summary.log'' \<Longrightarrow> p \<noteq> ''coverage.log'' \<Longrightarrow> map_of (logs (final r)) p = map_of (logs st1) p"
  using assms
  by (auto simp: aclint_main_def bind_res_Inr_iff Let_def publish_report_def publish_summary_def
      write_log_def update_conv' say_def)

lemma final_logs_plic:
  assumes "plic_main tb ps rc cs st = Inr r"
  obtains st1 where "run_configs (plic_run_one tb ps) rc cs st = Inr (rows_of r, st1)"
    and "\<And>p. p \<noteq> ''summary.log'' \<Longrightarrow> p \<noteq> ''coverage.log'' \<Longrightarrow> map_of (logs (final r)) p = map_of (logs st1) p"
  using assms
  by (auto simp: plic_main_def bind_res_Inr_iff Let_def publish_report_def publish_summary_def
      write_log_def update_conv' say_def)

lemma log_name_slash: "log_name l t \<noteq> ''summary.log''" "log_name l t \<noteq> ''coverage.log''"
proof -
  have "CHR ''/'' \<in> set (log_name l t)" by (simp add: log_name_def)
  then show "log_name l t \<noteq> ''summary.log''" "log_name l t \<noteq> ''coverage.log''" by auto
qed

lemma aclint_rows_backed:
  assumes "aclint_main tb ps rc cs st = Inr r" and "distinct (map run_log (runs cs))"
  shows "map run_key (rows_of r) = runs cs"
    and "(l, d, t, s) \<in> set (rows_of r) \<Longrightarrow>
      \<exists>txt. map_of (logs (final r)) (log_name l t) = Some txt \<and> judged_by aclint_classify s txt"
proof -
  obtain st1 where run: "run_configs (aclint_run_one tb ps) rc cs st = Inr (rows_of r, st1)"
    and same: "\<And>p. p \<noteq> ''summary.log'' \<Longrightarrow> p \<noteq> ''coverage.log'' \<Longrightarrow> map_of (logs (final r)) p = map_of (logs st1) p"
    using final_logs [OF assms(1)] by blast
  show "map run_key (rows_of r) = runs cs"
    by (rule aclint.sweep_backed(1) [OF run assms(2)])
  show "(l, d, t, s) \<in> set (rows_of r) \<Longrightarrow>
      \<exists>txt. map_of (logs (final r)) (log_name l t) = Some txt \<and> judged_by aclint_classify s txt"
    using aclint.sweep_backed(2) [OF run assms(2)] same [OF log_name_slash] by (fastforce simp: aclint.backed_def)
qed

lemma plic_rows_backed:
  assumes "plic_main tb ps rc cs st = Inr r" and "distinct (map run_log (runs cs))"
  shows "map run_key (rows_of r) = runs cs"
    and "(l, d, t, s) \<in> set (rows_of r) \<Longrightarrow>
      \<exists>txt. map_of (logs (final r)) (log_name l t) = Some txt \<and> judged_by plic_classify s txt"
proof -
  obtain st1 where run: "run_configs (plic_run_one tb ps) rc cs st = Inr (rows_of r, st1)"
    and same: "\<And>p. p \<noteq> ''summary.log'' \<Longrightarrow> p \<noteq> ''coverage.log'' \<Longrightarrow> map_of (logs (final r)) p = map_of (logs st1) p"
    using final_logs_plic [OF assms(1)] by blast
  show "map run_key (rows_of r) = runs cs"
    by (rule plic.sweep_backed(1) [OF run assms(2)])
  show "(l, d, t, s) \<in> set (rows_of r) \<Longrightarrow>
      \<exists>txt. map_of (logs (final r)) (log_name l t) = Some txt \<and> judged_by plic_classify s txt"
    using plic.sweep_backed(2) [OF run assms(2)] same [OF log_name_slash] by (fastforce simp: plic.backed_def)
qed

subsection \<open>The verdict of a sweep\<close>

text \<open>A bin is hit when a line of some log other than the coverage report itself names it.\<close>

definition bin_hit :: "(str \<times> str) list \<Rightarrow> str \<Rightarrow> bool" where
  "bin_hit ls b \<longleftrightarrow>
     (\<exists>p t l. (p, t) \<in> set ls \<and> p \<noteq> ''coverage.log'' \<and> endswith p ''.log'' \<and>
        l \<in> set (splitlines t) \<and> b \<in> set (line_bins l))"

lemma update_mem: "p \<noteq> k \<Longrightarrow> (p, t) \<in> set (AList.update k v al) \<longleftrightarrow> (p, t) \<in> set al"
  by (induction al) auto

lemma bin_hit_publish:
  assumes "''coverage.log'' \<notin> fst ` set (logs st)"
  shows "bin_hit (logs (snd (publish_report r st))) b \<longleftrightarrow> b \<in> set (collect (logs st))"
proof -
  have "(p, t) \<in> set (logs (snd (publish_report r st))) \<and> p \<noteq> ''coverage.log'' \<longleftrightarrow> (p, t) \<in> set (logs st)" for p t
  proof (cases "p = ''coverage.log''")
    case True
    then show ?thesis using assms by (metis fst_conv image_eqI)
  next
    case False
    then show ?thesis by (simp add: publish_report_def write_log_def say_def update_mem)
  qed
  then show ?thesis
    unfolding bin_hit_def collect_iff conj_assoc [symmetric] by (simp only:)
qed

lemma coverage_log_absent:
  assumes "map_of (logs st) ''coverage.log'' = None"
  shows "''coverage.log'' \<notin> fst ` set (logs (publish_summary ip u rows st))"
proof -
  have "map_of (logs (publish_summary ip u rows st)) ''coverage.log'' = None"
    using assms by (simp add: publish_summary_def write_log_def say_def Let_def update_conv')
  then show ?thesis by (simp add: map_of_eq_None_iff)
qed

text \<open>
  C15. \<open>run_sweep.py\<close> of \<open>ahb_aclint\<close> exits with 0 exactly when every run of the sweep passed or
  skipped itself and every mandatory coverage bin is named by a line of some log.
\<close>

theorem aclint_exit_0_iff:
  assumes "aclint_main tb ps rc cs st = Inr r"
  shows "exit_code r = 0 \<longleftrightarrow>
    (\<forall>(l, d, t, s) \<in> set (rows_of r). s = PASS \<or> s = SKIP) \<and>
    (\<forall>b \<in> set aclint_mandatory_cover_bins. bin_hit (logs (final r)) b)"
proof -
  obtain rows st1 where run: "run_configs (aclint_run_one tb ps) rc cs st = Inr (rows, st1)"
    using assms by (auto simp: aclint_main_def bind_res_Inr_iff)
  define n where "n = tally aclint_counts0 rows"
  define st2 where "st2 = publish_summary ''ahb_aclint'' (aclint_totals rows n) rows st1"
  define rep where "rep = report aclint_mandatory_cover_bins aclint_sweep_only_cover_bins (logs st2) False 90"
  have r: "r = \<lparr>exit_code = (if failed_runs n = 0 \<and> fst rep = [] then 0 else 1), rows_of = rows,
      missing_bins = fst rep, final = snd (publish_report rep st2)\<rparr>"
    using assms run by (simp add: aclint_main_def Let_def n_def st2_def rep_def publish_report_def)
  have none: "map_of (logs st1) ''coverage.log'' = None"
    by (rule aclint.sweep_no_other [OF run]) (simp add: log_name_slash [symmetric] not_sym)
  have "bin_hit (logs (final r)) b \<longleftrightarrow> b \<in> set (collect (logs st2))" for b
    using bin_hit_publish [OF coverage_log_absent [OF none]] by (simp add: r st2_def)
  moreover have "fst rep = [] \<longleftrightarrow> (\<forall>b \<in> set aclint_mandatory_cover_bins. b \<in> set (collect (logs st2)))"
    by (simp add: rep_def fst_report filter_empty_conv)
  ultimately show ?thesis
    by (simp add: r n_def failed_runs_0_iff [OF counts0(1)])
qed

text \<open>
  C17. \<open>run_sweep.py\<close> of \<open>ahb_plic\<close>, which has no skipped status, exits with 0 exactly when every
  run passed and every mandatory coverage bin is named by a line of some log.
\<close>

theorem plic_exit_0_iff:
  assumes "plic_main tb ps rc cs st = Inr r" and "distinct (map run_log (runs cs))"
  shows "exit_code r = 0 \<longleftrightarrow>
    (\<forall>(l, d, t, s) \<in> set (rows_of r). s = PASS) \<and>
    (\<forall>b \<in> set plic_mandatory_cover_bins. bin_hit (logs (final r)) b)"
proof -
  obtain rows st1 where run: "run_configs (plic_run_one tb ps) rc cs st = Inr (rows, st1)"
    using assms by (auto simp: plic_main_def bind_res_Inr_iff)
  define n where "n = tally plic_counts0 rows"
  define st2 where "st2 = publish_summary ''ahb_plic'' (plic_totals rows n) rows st1"
  define rep where "rep = plic_report plic_mandatory_cover_bins (logs st2)"
  have r: "r = \<lparr>exit_code = (if failed_runs n = 0 \<and> fst rep = [] then 0 else 1), rows_of = rows,
      missing_bins = fst rep, final = snd (publish_report rep st2)\<rparr>"
    using assms run by (simp add: plic_main_def Let_def n_def st2_def rep_def publish_report_def)
  have none: "map_of (logs st1) ''coverage.log'' = None"
    by (rule plic.sweep_no_other [OF run]) (simp add: log_name_slash [symmetric] not_sym)
  have bins: "bin_hit (logs (final r)) b \<longleftrightarrow> b \<in> set (collect (logs st2))" for b
    using bin_hit_publish [OF coverage_log_absent [OF none]] by (simp add: r st2_def)
  have rep: "fst rep = [] \<longleftrightarrow> (\<forall>b \<in> set plic_mandatory_cover_bins. b \<in> set (collect (logs st2)))"
    by (simp add: rep_def fst_plic_report filter_empty_conv)
  have "s \<noteq> SKIP" if "(l, d, t, s) \<in> set (rows_of r)" for l d t s
    using plic_rows_backed(2) [OF assms that] by (auto simp: judged_by_def plic_classify_def split: if_splits)
  then have "(case q of (l, d, t, s) \<Rightarrow> s = PASS \<or> s = SKIP) \<longleftrightarrow> (case q of (l, d, t, s) \<Rightarrow> s = PASS)"
    if "q \<in> set rows" for q
    using that by (auto simp: r split: prod.splits)
  then have "(\<forall>(l, d, t, s) \<in> set rows. s = PASS \<or> s = SKIP) \<longleftrightarrow> (\<forall>(l, d, t, s) \<in> set rows. s = PASS)"
    by (intro ball_cong refl)
  with bins rep show ?thesis
    by (simp add: r n_def failed_runs_0_iff [OF counts0(2)])
qed

text \<open>A bench on which every test passes, for the witnesses.\<close>

definition good_bench :: testbench where
  "good_bench = \<lparr>has_source = (\<lambda>t. True), random_draw = (\<lambda>n. n), compiler = (\<lambda>link cmd. (0, [])),
     simulator = (\<lambda>link cmd. (0, ''SIMULATION PASSED'' @ [nl]))\<rparr>"

definition paths0 :: paths where
  "paths0 = \<lparr>submit_f = ''submit_sim.f'', src_dir = ''../src''\<rparr>"

definition sweep0 :: sweep_state where
  "sweep0 = \<lparr>logs = [], dirs = [], stimulus = None, binary = None, draws = 0, stdout = []\<rparr>"

lemma aclint_returns: "distinct (map fst cs) \<Longrightarrow> \<exists>r. aclint_main tb ps 0 cs st = Inr r"
  using aclint.sweep_returns [of cs tb ps st] by (auto simp: aclint_main_def Let_def publish_report_def)

lemma plic_returns: "distinct (map fst cs) \<Longrightarrow> \<exists>r. plic_main tb ps 0 cs st = Inr r"
  using plic.sweep_returns [of cs tb ps st] by (auto simp: plic_main_def Let_def publish_report_def)

lemma exit_code_cases:
  "aclint_main tb ps rc cs st = Inr r \<Longrightarrow> exit_code r = 0 \<or> exit_code r = 1"
  "plic_main tb ps rc cs st = Inr r \<Longrightarrow> exit_code r = 0 \<or> exit_code r = 1"
  by (auto simp: aclint_main_def plic_main_def Let_def publish_report_def bind_res_Inr_iff split: if_splits)

lemma one_config_distinct: "distinct (map fst [(''d'', [] :: params, [''t''])])"
  by simp

lemma one_config_logs: "distinct (map run_log (runs [(''d'', [] :: params, [''t''])]))"
  by (simp add: runs_def)

theorem aclint_exit_0_iff_witness:
  "\<exists>r. aclint_main good_bench paths0 0 [(''d'', [], [''t''])] sweep0 = Inr r \<and>
     (exit_code r = 1 \<or> bin_hit (logs (final r)) ''mtip_top_hart'')"
proof -
  obtain r where r: "aclint_main good_bench paths0 0 [(''d'', [], [''t''])] sweep0 = Inr r"
    using aclint_returns [OF one_config_distinct] by blast
  have "''mtip_top_hart'' \<in> set aclint_mandatory_cover_bins"
    by (simp add: aclint_mandatory_cover_bins_def)
  then have "bin_hit (logs (final r)) ''mtip_top_hart''" if "exit_code r = 0"
    by (rule bspec [OF conjunct2 [OF iffD1 [OF aclint_exit_0_iff [OF r] that]]])
  then have "exit_code r = 1 \<or> bin_hit (logs (final r)) ''mtip_top_hart''"
    using exit_code_cases(1) [OF r] by argo
  with r show ?thesis by (intro exI conjI)
qed

theorem plic_exit_0_iff_witness:
  "\<exists>r. plic_main good_bench paths0 0 [(''d'', [], [''t''])] sweep0 = Inr r \<and>
     (exit_code r = 1 \<or> bin_hit (logs (final r)) ''multiword'')"
proof -
  obtain r where r: "plic_main good_bench paths0 0 [(''d'', [], [''t''])] sweep0 = Inr r"
    using plic_returns [OF one_config_distinct] by blast
  have "''multiword'' \<in> set plic_mandatory_cover_bins"
    by (simp add: plic_mandatory_cover_bins_def)
  then have "bin_hit (logs (final r)) ''multiword''" if "exit_code r = 0"
    by (rule bspec [OF conjunct2 [OF iffD1 [OF plic_exit_0_iff [OF r one_config_logs] that]]])
  then have "exit_code r = 1 \<or> bin_hit (logs (final r)) ''multiword''"
    using exit_code_cases(2) [OF r] by argo
  with r show ?thesis by (intro exI conjI)
qed

subsection \<open>The sweeps of the repository\<close>

text \<open>Labels without a slash and no test twice in a configuration keep all log names apart.\<close>

definition sim_table_ok :: "sim_config list \<Rightarrow> bool" where
  "sim_table_ok cs \<longleftrightarrow> distinct (map fst cs) \<and>
     list_all (\<lambda>(l, d, ts). CHR ''/'' \<notin> set l \<and> distinct ts) cs"

lemma log_name_inj:
  assumes "CHR ''/'' \<notin> set l" and "CHR ''/'' \<notin> set l'" and "log_name l t = log_name l' t'"
  shows "l = l' \<and> t = t'"
proof -
  have "split_char (CHR ''/'') (log_name l t) = l # split_char (CHR ''/'') (t @ ''.log'')"
    "split_char (CHR ''/'') (log_name l' t') = l' # split_char (CHR ''/'') (t' @ ''.log'')"
    using assms(1,2) by (simp_all add: log_name_def split_char_append)
  with assms(3) have "l = l'" by simp
  with assms(3) show ?thesis by (simp add: log_name_def)
qed

lemma sim_table_logs: "sim_table_ok cs \<Longrightarrow> distinct (map run_log (runs cs))"
proof (induction cs)
  case (Cons c cs)
  obtain l d ts where c: "c = (l, d, ts)" by (metis prod_cases3)
  have ok: "sim_table_ok cs" "CHR ''/'' \<notin> set l" "distinct ts" "l \<notin> fst ` set cs"
    using Cons.prems by (auto simp: sim_table_ok_def c)
  have "distinct (map (run_log \<circ> (\<lambda>t. (l, d, t))) ts)"
    using ok(2,3) log_name_inj [OF ok(2) ok(2)]
    by (auto simp: distinct_map run_log_def intro!: inj_onI)
  moreover have "log_name l t \<noteq> log_name l' t'" if "(l', d', t') \<in> set (runs cs)" for t l' d' t'
  proof -
    have "l' \<in> fst ` set cs" using that by (force simp: runs_def)
    moreover have "CHR ''/'' \<notin> set l'"
      using that ok(1) by (fastforce simp: runs_def sim_table_ok_def list_all_iff)
    ultimately show ?thesis using log_name_inj [OF ok(2)] ok(4) by blast
  qed
  then have "set (map run_log (map (\<lambda>t. (l, d, t)) ts)) \<inter> set (map run_log (runs cs)) = {}"
    by (auto simp: run_log_def split: prod.splits)
  ultimately show ?case
    using Cons.IH ok(1) by (simp add: c runs_simps del: set_map)
qed (simp add: runs_def)

lemma sim_tables_ok: "sim_table_ok aclint_sim_configs" "sim_table_ok plic_sim_configs"
  by code_simp+

lemmas sim_tables_distinct = sim_tables_ok [THEN sim_table_logs]

lemma sim_labels_distinct: "distinct (map fst aclint_sim_configs)" "distinct (map fst plic_sim_configs)"
  using sim_tables_ok by (simp_all add: sim_table_ok_def)

text \<open>
  C33. On the table of \<open>ahb_aclint\<close> the sweep always returns, whatever results compiler and simulator return:
  one row per configuration and listed test, in table order, and after the sweep the log of every
  run is still on disk and carries the banners its status was read from.
\<close>

theorem aclint_sweep_runs_table:
  "\<exists>r. aclint_main tb ps 0 aclint_sim_configs st = Inr r \<and>
     map run_key (rows_of r) = runs aclint_sim_configs \<and>
     (\<forall>(l, d, t, s) \<in> set (rows_of r). \<exists>txt. map_of (logs (final r)) (log_name l t) = Some txt \<and>
        judged_by aclint_classify s txt)"
proof -
  obtain r where r: "aclint_main tb ps 0 aclint_sim_configs st = Inr r"
    using aclint_returns [OF sim_labels_distinct(1)] by blast
  then show ?thesis
    using aclint_rows_backed [OF r sim_tables_distinct(1)] by blast
qed

theorem aclint_sweep_runs_table_witness:
  "\<exists>r. aclint_main good_bench paths0 0 aclint_sim_configs sweep0 = Inr r \<and>
     map run_key (rows_of r) = runs aclint_sim_configs"
  using aclint_sweep_runs_table [of good_bench paths0 sweep0] by blast

text \<open>
  On the table of \<open>ahb_plic\<close> the sweep always returns, with one row per configuration and
  listed test, in table order, each backed by its own log.
\<close>

theorem plic_sweep_runs_table:
  "\<exists>r. plic_main tb ps 0 plic_sim_configs st = Inr r \<and>
     map run_key (rows_of r) = runs plic_sim_configs \<and>
     (\<forall>(l, d, t, s) \<in> set (rows_of r). \<exists>txt. map_of (logs (final r)) (log_name l t) = Some txt \<and>
        judged_by plic_classify s txt)"
proof -
  obtain r where r: "plic_main tb ps 0 plic_sim_configs st = Inr r"
    using plic_returns [OF sim_labels_distinct(2)] by blast
  then show ?thesis
    using plic_rows_backed [OF r sim_tables_distinct(2)] by blast
qed

theorem plic_sweep_runs_table_witness:
  "\<exists>r. plic_main good_bench paths0 0 plic_sim_configs sweep0 = Inr r \<and>
     map run_key (rows_of r) = runs plic_sim_configs"
  using plic_sweep_runs_table [of good_bench paths0 sweep0] by blast

text \<open>
  The coverage gate fails exactly the mandatory bins no log names, in table order; for a
  single configuration the bins only the full sweep can reach never fail it.
\<close>

lemma coverage_gate_exact:
  "fst (report mandatory sweep_only ls single w) =
     filter (\<lambda>b. (\<nexists>p t l. (p, t) \<in> set ls \<and> endswith p ''.log'' \<and> l \<in> set (splitlines t) \<and>
        b \<in> set (line_bins l)) \<and> \<not> (single \<and> b \<in> set sweep_only)) mandatory"
  unfolding fst_report collect_iff ..

text \<open>
  A simulation log with both banners counts as passed, and a test of \<open>ahb_plic\<close> that skips itself
  is inconclusive and fails the sweep.
\<close>

lemma banner_precedence:
  "aclint_classify ''SIMULATION FAILED ... SIMULATION PASSED'' = PASS"
  "plic_classify ''SIMULATION SKIPPED'' = INCONCLUSIVE"
  by code_simp+

end
