(* ===== verification/LintSweep.thy ===== *)
theory LintSweep
  imports RtlConfigs
begin

text \<open>
  \<open>run_lint_sweep.py\<close> of \<open>ahb_aclint\<close>, \<open>ahb_plic\<close> (the same but for a title) and \<open>arv_dtm\<close> (one
  top per configuration): Verilator over every entry of the parameter table. The linter is an
  argument, a function from the command line to its exit code and output. The last section relates
  what the lint sweep builds to what the synthesis flow elaborates.
\<close>

subsection \<open>One configuration\<close>

record lint_setup =
  linter :: "str list \<Rightarrow> int \<times> str"
  waivers_file :: str
  submit_file :: str

record lint_state =
  lint_logs :: "(str \<times> str) list"
  lint_out :: str

definition build_g_flags :: "params \<Rightarrow> str list" where
  "build_g_flags ov = map (\<lambda>kv. ''-G'' @ assign_text kv) (sorted_items ov)"

definition lint_cmd :: "lint_setup \<Rightarrow> str \<Rightarrow> params \<Rightarrow> str list" where
  "lint_cmd w tm ov =
     [''verilator'', ''--lint-only'', ''-Wall'', ''-Wpedantic'', ''--top-module'', tm] @
     build_g_flags ov @ [waivers_file w, ''-f'', submit_file w]"

definition put_log :: "str \<Rightarrow> str \<Rightarrow> lint_state \<Rightarrow> lint_state" where
  "put_log p t st = st\<lparr>lint_logs := AList.update p t (lint_logs st)\<rparr>"

definition lint_print :: "str \<Rightarrow> lint_state \<Rightarrow> lint_state" where
  "lint_print t st = st\<lparr>lint_out := lint_out st @ t\<rparr>"

definition lint_rule :: str where
  "lint_rule = replicate 78 (CHR ''-'')"

definition lint_one :: "lint_setup \<Rightarrow> str \<Rightarrow> str \<Rightarrow> params \<Rightarrow> lint_state \<Rightarrow> int \<times> lint_state" where
  "lint_one w label tm ov st =
     (let cmd = lint_cmd w tm ov; (rc, out) = linter w cmd
      in (rc, put_log (label @ ''.log'') (''CMD: '' @ join '' '' cmd @ [nl] @ lint_rule @ [nl] @ out) st))"

definition fmt_overrides :: "params \<Rightarrow> str" where
  "fmt_overrides ov = (if ov = [] then ''(defaults)'' else join '' '' (map assign_text (sorted_items ov)))"

definition verdict :: "int \<Rightarrow> str" where
  "verdict rc = (if rc = 0 then ''PASS'' else ''FAIL'')"

subsection \<open>The sweep over one top (\<open>ahb_aclint\<close>, \<open>ahb_plic\<close>)\<close>

type_synonym lint_row = "str \<times> str \<times> params \<times> int"

definition lint_step ::
    "lint_setup \<Rightarrow> str \<Rightarrow> centry \<Rightarrow> lint_row list \<times> lint_state \<Rightarrow> (lint_row list \<times> lint_state) res" where
  "lint_step w tm e acc =
     (case (e, acc) of
        (Pair2 label ov, (rows, st)) \<Rightarrow>
          (let (rc, st1) = lint_one w label tm ov
                 (lint_print (''  lint '' @ ljust 20 label @ '' ('' @ fmt_overrides ov @ '') '') st)
           in Inr (rows @ [(label, tm, ov, rc)], lint_print (verdict rc @ [nl]) st1))
      | (_, _) \<Rightarrow> Inl (ValueError ''unpack''))"

definition lint_row_text :: "lint_row \<Rightarrow> str" where
  "lint_row_text r =
     (case r of (label, tm, ov, rc) \<Rightarrow>
        ljust 20 label @ '' '' @ ljust 46 (fmt_overrides ov) @ '' '' @ verdict rc)"

definition fail_count :: "lint_row list \<Rightarrow> nat" where
  "fail_count rows = length (filter (\<lambda>(label, tm, ov, rc). rc \<noteq> 0) rows)"

definition lint_totals :: "lint_row list \<Rightarrow> str" where
  "lint_totals rows =
     ''  total: '' @ nat_str (length rows) @ ''    passed: '' @ nat_str (length rows - fail_count rows) @
     ''    failed: '' @ nat_str (fail_count rows)"

definition lint_summary :: "lint_row list \<Rightarrow> str" where
  "lint_summary rows =
     join [nl] ([ljust 20 ''CONFIG'' @ '' '' @ ljust 46 ''PARAMS'' @ '' STATUS'', lint_rule] @
       map lint_row_text rows @ [lint_rule, lint_totals rows])"

definition title :: "str \<Rightarrow> lint_row list \<Rightarrow> str" where
  "title ip rows =
     (let bar = replicate 78 (CHR ''='')
      in [nl] @ bar @ [nl] @ ''  '' @ ip @ '' RTL parameterization lint sweep -- '' @
         nat_str (length rows) @ '' configs'' @ [nl] @ bar @ [nl])"

record lint_result =
  lint_exit :: nat
  lint_rows :: "lint_row list"
  lint_final :: lint_state

definition finish_lint :: "str \<Rightarrow> (lint_row list \<Rightarrow> str) \<Rightarrow> lint_row list \<times> lint_state \<Rightarrow> lint_result" where
  "finish_lint ip summary acc =
     (case acc of (rows, st) \<Rightarrow>
        \<lparr>lint_exit = (if fail_count rows = 0 then 0 else 1), lint_rows = rows,
         lint_final = put_log ''summary.log'' (summary rows @ [nl])
           (lint_print (title ip rows @ summary rows @ [nl]) st)\<rparr>)"

text \<open>A missing \<open>TOP_MODULE\<close> is the failed import of it.\<close>

definition lint_main :: "str \<Rightarrow> lint_setup \<Rightarrow> int \<Rightarrow> rtl_configs \<Rightarrow> lint_state \<Rightarrow> lint_result res" where
  "lint_main ip w flatten_rc tab st =
     (case top_module tab of
        None \<Rightarrow> Inl (RuntimeError ''ImportError'')
      | Some tm \<Rightarrow>
          if flatten_rc \<noteq> 0 then Inl CalledProcessError
          else bind_res (fold_res (lint_step w tm) (configs tab) ([], st\<lparr>lint_logs := []\<rparr>)) (\<lambda>acc.
            Inr (finish_lint ip lint_summary acc)))"

definition aclint_lint_main :: "lint_setup \<Rightarrow> int \<Rightarrow> lint_state \<Rightarrow> lint_result res" where
  "aclint_lint_main w flatten_rc st = lint_main ''ahb_aclint'' w flatten_rc ahb_aclint_configs st"

definition plic_lint_main :: "lint_setup \<Rightarrow> int \<Rightarrow> lint_state \<Rightarrow> lint_result res" where
  "plic_lint_main w flatten_rc st = lint_main ''ahb_plic'' w flatten_rc ahb_plic_configs st"

subsection \<open>The sweep over several tops (\<open>arv_dtm\<close>)\<close>

definition dtm_lint_step ::
    "lint_setup \<Rightarrow> centry \<Rightarrow> lint_row list \<times> lint_state \<Rightarrow> (lint_row list \<times> lint_state) res" where
  "dtm_lint_step w e acc =
     (case (e, acc) of
        (Triple label tm ov, (rows, st)) \<Rightarrow>
          (let (rc, st1) = lint_one w label tm ov
                 (lint_print (''  lint '' @ ljust 20 label @ '' '' @ ljust 16 tm @
                    '' ('' @ fmt_overrides ov @ '') '') st)
           in Inr (rows @ [(label, tm, ov, rc)], lint_print (verdict rc @ [nl]) st1))
      | (_, _) \<Rightarrow> Inl (ValueError ''unpack''))"

definition dtm_row_text :: "lint_row \<Rightarrow> str" where
  "dtm_row_text r =
     (case r of (label, tm, ov, rc) \<Rightarrow>
        ljust 20 label @ '' '' @ ljust 16 tm @ '' '' @ ljust 30 (fmt_overrides ov) @ '' '' @ verdict rc)"

definition dtm_lint_summary :: "lint_row list \<Rightarrow> str" where
  "dtm_lint_summary rows =
     join [nl] ([ljust 20 ''CONFIG'' @ '' '' @ ljust 16 ''TOP'' @ '' '' @ ljust 30 ''PARAMS'' @ '' STATUS'',
         lint_rule] @ map dtm_row_text rows @ [lint_rule, lint_totals rows])"

definition dtm_lint_main :: "lint_setup \<Rightarrow> int \<Rightarrow> rtl_configs \<Rightarrow> lint_state \<Rightarrow> lint_result res" where
  "dtm_lint_main w flatten_rc tab st =
     (if flatten_rc \<noteq> 0 then Inl CalledProcessError
      else bind_res (fold_res (dtm_lint_step w) (configs tab) ([], st\<lparr>lint_logs := []\<rparr>)) (\<lambda>acc.
        Inr (finish_lint ''arv_dtm'' dtm_lint_summary acc)))"

subsection \<open>The sweep as a function of the resolved entries\<close>

text \<open>What a step owes the sweep: the entry as resolved for the other flows, linted with its top.\<close>

definition entry_row :: "lint_setup \<Rightarrow> entry3 \<Rightarrow> lint_row" where
  "entry_row w e = (case e of (label, tm, ov) \<Rightarrow> (label, tm, ov, fst (linter w (lint_cmd w tm ov))))"

locale lint_loop =
  fixes step :: "'e \<Rightarrow> lint_row list \<times> lint_state \<Rightarrow> (lint_row list \<times> lint_state) res"
    and resolved :: "'e \<Rightarrow> entry3 option"
    and lw :: lint_setup
  assumes step_row: "resolved e = Some e3 \<Longrightarrow>
      \<exists>st'. step e (rows, st) = Inr (rows @ [entry_row lw e3], st')"
begin

lemma loop_rows:
  "map resolved es = map Some e3s \<Longrightarrow>
   \<exists>st'. fold_res step es (rows, st) = Inr (rows @ map (entry_row lw) e3s, st')"
proof (induction es arbitrary: e3s rows st)
  case (Cons e es)
  then obtain e3 rest where e3s: "e3s = e3 # rest" "resolved e = Some e3" "map resolved es = map Some rest"
    by (cases e3s) auto
  obtain st1 where "step e (rows, st) = Inr (rows @ [entry_row lw e3], st1)"
    using step_row [OF e3s(2)] by blast
  with Cons.IH [OF e3s(3), of "rows @ [entry_row lw e3]" st1] show ?case by (simp add: e3s(1))
qed simp

end

definition pair_entry :: "str \<Rightarrow> centry \<Rightarrow> entry3 option" where
  "pair_entry tm e = (case e of Pair2 label ov \<Rightarrow> Some (label, tm, ov) | _ \<Rightarrow> None)"

definition triple_entry :: "centry \<Rightarrow> entry3 option" where
  "triple_entry e = (case e of Triple label tm ov \<Rightarrow> Some (label, tm, ov) | _ \<Rightarrow> None)"

interpretation one_top: lint_loop "lint_step w tm" "pair_entry tm" w for w tm
  by unfold_locales
    (auto simp: pair_entry_def lint_step_def entry_row_def lint_one_def Let_def split: centry.splits prod.splits)

interpretation many_tops: lint_loop "dtm_lint_step w" triple_entry w for w
  by unfold_locales
    (auto simp: triple_entry_def dtm_lint_step_def entry_row_def lint_one_def Let_def split: centry.splits prod.splits)

lemma fail_count_0: "fail_count rows = 0 \<longleftrightarrow> (\<forall>(label, tm, ov, rc) \<in> set rows. rc = 0)"
  by (auto simp: fail_count_def filter_empty_conv)

lemma fail_count_entries:
  "fail_count (map (entry_row w) es) = 0 \<longleftrightarrow>
     list_all (\<lambda>(label, tm, ov). fst (linter w (lint_cmd w tm ov)) = 0) es"
  by (auto simp: fail_count_0 entry_row_def list_all_iff)

lemma lint_main_result:
  assumes "top_module tab = Some tm" and "list_all (\<lambda>e. pair_entry tm e \<noteq> None) (configs tab)"
  shows "\<exists>es r. entries tab = Inr es \<and> lint_main ip w 0 tab st = Inr r \<and> lint_rows r = map (entry_row w) es \<and>
    lint_exit r = (if fail_count (map (entry_row w) es) = 0 then 0 else 1)"
proof -
  define es where "es = map (the \<circ> pair_entry tm) (configs tab)"
  have "entries tab = Inr es"
    unfolding entries_def es_def using assms
    by (intro map_res_total) (auto simp: list_all_iff normalise_def pair_entry_def split: centry.splits)
  moreover have "map (pair_entry tm) (configs tab) = map Some es"
    using assms(2) by (auto simp: es_def list_all_iff)
  then obtain st' where "fold_res (lint_step w tm) (configs tab) ([], st\<lparr>lint_logs := []\<rparr>) = Inr (map (entry_row w) es, st')"
    using one_top.loop_rows [of tm "configs tab" es w "[]"] by fastforce
  ultimately show ?thesis
    using assms(1) by (simp add: lint_main_def finish_lint_def)
qed

lemma dtm_lint_main_result:
  assumes "list_all (\<lambda>e. triple_entry e \<noteq> None) (configs tab)"
  shows "\<exists>es r. entries tab = Inr es \<and> dtm_lint_main w 0 tab st = Inr r \<and> lint_rows r = map (entry_row w) es \<and>
    lint_exit r = (if fail_count (map (entry_row w) es) = 0 then 0 else 1)"
proof -
  define es where "es = map (the \<circ> triple_entry) (configs tab)"
  have "entries tab = Inr es"
    unfolding entries_def es_def using assms
    by (intro map_res_total) (auto simp: list_all_iff normalise_def triple_entry_def split: centry.splits)
  moreover have "map triple_entry (configs tab) = map Some es"
    using assms by (auto simp: es_def list_all_iff)
  then obtain st' where "fold_res (dtm_lint_step w) (configs tab) ([], st\<lparr>lint_logs := []\<rparr>) = Inr (map (entry_row w) es, st')"
    using many_tops.loop_rows [of "configs tab" es w "[]"] by fastforce
  ultimately show ?thesis
    by (simp add: dtm_lint_main_def finish_lint_def)
qed

text \<open>
  C34. The three lint sweeps run over exactly the entries the synthesis flow resolves
  (\<open>gen_rtl_params\<close>, label, top and parameters), and exit with 0 exactly when the linter returns 0
  on the command of every one of them.
\<close>

theorem lint_sweep_exact:
  "list_all (\<lambda>(tab, result). case entries tab of
       Inl _ \<Rightarrow> False
     | Inr es \<Rightarrow> (case result of
         Inl _ \<Rightarrow> False
       | Inr r \<Rightarrow> lint_rows r = map (entry_row w) es \<and>
           (lint_exit r = 0 \<longleftrightarrow> list_all (\<lambda>(label, tm, ov). fst (linter w (lint_cmd w tm ov)) = 0) es)))
     [(ahb_aclint_configs, aclint_lint_main w 0 st),
      (ahb_plic_configs, plic_lint_main w 0 st),
      (arv_dtm_configs, dtm_lint_main w 0 arv_dtm_configs st)]"
proof -
  have "top_module ahb_aclint_configs = Some ''ahb_aclint''"
      "list_all (\<lambda>e. pair_entry ''ahb_aclint'' e \<noteq> None) (configs ahb_aclint_configs)"
      "top_module ahb_plic_configs = Some ''ahb_plic''"
      "list_all (\<lambda>e. pair_entry ''ahb_plic'' e \<noteq> None) (configs ahb_plic_configs)"
      "list_all (\<lambda>e. triple_entry e \<noteq> None) (configs arv_dtm_configs)"
    by (simp_all add: ahb_aclint_configs_def ahb_plic_configs_def arv_dtm_configs_def pair_entry_def triple_entry_def)
  note tables = this
  show ?thesis
    using lint_main_result [OF tables(1,2), of "''ahb_aclint''" w st]
      lint_main_result [OF tables(3,4), of "''ahb_plic''" w st]
      dtm_lint_main_result [OF tables(5), of w st]
    unfolding aclint_lint_main_def plic_lint_main_def
    by (auto simp: fail_count_entries)
qed

subsection \<open>One configuration, two flows\<close>

lemma sorted_items_Nil: "sorted_items ps = [] \<longleftrightarrow> ps = []"
  by (metis set_empty sorted_items_set)

text \<open>
  C35. A configuration means the same to lint and to synthesis: the parameter list of the
  elaboration string, read at its commas, is the list of \<open>-G\<close> flags of the lint command.
\<close>

theorem lint_and_synthesis_agree:
  assumes "ps \<noteq> []" and "list_all (\<lambda>(k, v). CHR '','' \<notin> set k) ps"
  shows "\<exists>list. elaborate_params ps = quoted (''-parameters '' @ [bslash, dquote] @ list @ [bslash, dquote]) \<and>
    map (\<lambda>a. ''-G'' @ a) (split_char (CHR '','') list) = build_g_flags ps"
proof (intro exI conjI)
  have "split_char (CHR '','') (join '','' (map assign_text (sorted_items ps))) = map assign_text (sorted_items ps)"
  proof (rule split_char_join)
    show "map assign_text (sorted_items ps) \<noteq> []" using assms(1) by (simp add: sorted_items_Nil)
    show "CHR '','' \<notin> set u" if mem: "u \<in> set (map assign_text (sorted_items ps))" for u
    proof -
      obtain kv where "kv \<in> set ps" "u = assign_text kv"
        using mem unfolding set_map image_iff sorted_items_set by blast
      then show ?thesis
        using assms(2) int_str_chars [of "CHR '',''" "snd kv"]
        by (auto simp: assign_text_def list_all_iff is_digit_def case_prod_unfold)
    qed
  qed
  then show "map (\<lambda>a. ''-G'' @ a) (split_char (CHR '','') (join '','' (map assign_text (sorted_items ps)))) = build_g_flags ps"
    by (simp add: build_g_flags_def)
  show "elaborate_params ps = quoted (''-parameters '' @ [bslash, dquote] @
      join '','' (map assign_text (sorted_items ps)) @ [bslash, dquote])"
    using assms(1) by (simp add: elaborate_params_def)
qed

theorem lint_and_synthesis_agree_witness:
  "\<exists>list. elaborate_params [(''DTM_TYPE'', 1), (''UART_RX_FIFO_DEPTH'', 128)] =
      quoted (''-parameters '' @ [bslash, dquote] @ list @ [bslash, dquote]) \<and>
    map (\<lambda>a. ''-G'' @ a) (split_char (CHR '','') list) =
      build_g_flags [(''DTM_TYPE'', 1), (''UART_RX_FIFO_DEPTH'', 128)]"
  by (rule lint_and_synthesis_agree) simp_all

end
