(* ===== verification/PyFloat.thy ===== *)
theory PyFloat
  imports Complex_Main "HOL-Library.Log_Nat" PyText
begin

text \<open>
  Floating point as the scripts use it: a float is the rational number it denotes. An operation
  rounds its exact result to the nearest number with a 53-bit significand, ties to even; the
  exponent range is not bounded, since times and percentages stay far from its ends.
\<close>

definition round_even :: "rat \<Rightarrow> int" where
  "round_even q =
     (let f = \<lfloor>q\<rfloor>; r = q - of_int f
      in if r < 1 / 2 then f else if 1 / 2 < r then f + 1 else if even f then f else f + 1)"

definition pow2 :: "int \<Rightarrow> rat" where
  "pow2 e = (if 0 \<le> e then 2 ^ nat e else 1 / 2 ^ nat (- e))"

text \<open>The exponent of the last place: \<open>2 ^ 52 \<le> q / 2 ^ e < 2 ^ 53\<close>.\<close>

definition ulp_exp :: "rat \<Rightarrow> int" where
  "ulp_exp q =
     (let (a, b) = quotient_of q; e = bitlen a - bitlen b - 53
      in if 2 ^ 53 \<le> q / pow2 e then e + 1 else e)"

definition double :: "rat \<Rightarrow> rat" where
  "double q =
     (if q = 0 then 0
      else if 0 < q then of_int (round_even (q / pow2 (ulp_exp q))) * pow2 (ulp_exp q)
      else - (of_int (round_even (- q / pow2 (ulp_exp (- q)))) * pow2 (ulp_exp (- q))))"

text \<open>\<open>'%.1f' % x\<close>, for the float \<open>x\<close>\<close>

definition fixed1 :: "rat \<Rightarrow> str" where
  "fixed1 x =
     (let n = round_even (\<bar>x\<bar> * 10)
      in (if x < 0 then ''-'' else []) @ int_str (n div 10) @ ''.'' @ int_str (n mod 10))"

text \<open>\<open>float\<close> on digits and dots: at most one dot, at least one digit.\<close>

definition digits_val :: "str \<Rightarrow> nat" where
  "digits_val s = fold (\<lambda>c a. 10 * a + digit_val c) s 0"

definition py_float :: "str \<Rightarrow> rat option" where
  "py_float s =
     (let (u, dot, v) = partition_str ''.'' s
      in if u @ v = [] \<or> \<not> list_all is_digit (u @ v) then None
         else Some (double (of_nat (digits_val (u @ v)) / 10 ^ length v)))"

subsection \<open>Rounding\<close>

lemma round_even_of_int [simp]: "round_even (of_int n) = n"
  by (simp add: round_even_def)

lemma round_even_ge: "of_int n \<le> q \<Longrightarrow> n \<le> round_even q"
  by (auto simp: round_even_def Let_def le_floor_iff intro: order.trans [OF _ less_imp_le])

lemma round_even_le: "q \<le> of_int n \<Longrightarrow> round_even q \<le> n"
proof -
  assume q: "q \<le> of_int n"
  show "round_even q \<le> n"
  proof (cases "q = of_int n")
    case False
    with q have "\<lfloor>q\<rfloor> < n" by (simp add: floor_less_iff)
    then show ?thesis by (auto simp: round_even_def Let_def)
  qed simp
qed

lemma pow2_pos [simp]: "0 < pow2 e"
  by (simp add: pow2_def)

lemma pow2_Suc: "pow2 (e + 1) = 2 * pow2 e"
proof (cases "0 \<le> e")
  case True
  then show ?thesis by (simp add: pow2_def nat_add_distrib)
next
  case False
  then have "nat (- e) = Suc (nat (- (e + 1)))" by simp
  with False show ?thesis by (cases "e = - 1") (simp_all add: pow2_def)
qed

lemma ulp_exp_ge:
  assumes "0 < q" shows "2 ^ 52 \<le> q / pow2 (ulp_exp q)"
proof -
  obtain a b where ab: "quotient_of q = (a, b)" by fastforce
  have b: "0 < b" using quotient_of_denom_pos [OF ab] .
  have q: "q = of_int a / of_int b" using quotient_of_div [OF ab] .
  have a: "0 < a" using assms b by (simp add: q zero_less_divide_iff)
  define e where "e = bitlen a - bitlen b - 53"
  have la: "2 ^ nat (bitlen a - 1) \<le> a" and lb: "b < 2 ^ nat (bitlen b)"
    using bitlen_bounds [OF a] bitlen_bounds [OF b] by simp_all
  have pos: "1 \<le> bitlen a" "1 \<le> bitlen b"
    using bitlen_ge_iff_power [of 1 a] bitlen_ge_iff_power [of 1 b] a b by auto
  have "2 ^ 52 * pow2 e * of_int b \<le> (of_int a :: rat)"
  proof (cases "0 \<le> e")
    case True
    then have "nat (bitlen a - 1) = 52 + nat e + nat (bitlen b)"
      using pos by (simp add: e_def nat_add_distrib [symmetric] nat_diff_distrib [symmetric])
    then have "2 ^ 52 * 2 ^ nat e * 2 ^ nat (bitlen b) \<le> a"
      using la by (simp add: power_add)
    moreover have "2 ^ 52 * 2 ^ nat e * b \<le> 2 ^ 52 * 2 ^ nat e * 2 ^ nat (bitlen b)"
      using lb by simp
    ultimately have "2 ^ 52 * 2 ^ nat e * b \<le> a" by linarith
    then have "of_int (2 ^ 52 * 2 ^ nat e * b) \<le> (of_int a :: rat)" by (simp only: of_int_le_iff)
    with True show ?thesis by (simp add: pow2_def)
  next
    case False
    then have "52 + nat (bitlen b) = nat (bitlen a - 1) + nat (- e)"
      using pos by (simp add: e_def nat_add_distrib [symmetric])
    then have "2 ^ 52 * 2 ^ nat (bitlen b) = 2 ^ nat (bitlen a - 1) * (2 ^ nat (- e) :: int)"
      by (simp only: power_add [symmetric])
    moreover have "2 ^ nat (bitlen a - 1) * 2 ^ nat (- e) \<le> a * 2 ^ nat (- e)"
      using la by simp
    moreover have "2 ^ 52 * b \<le> 2 ^ 52 * 2 ^ nat (bitlen b)"
      using lb by simp
    ultimately have "2 ^ 52 * b \<le> a * 2 ^ nat (- e)"
      by (metis order.trans)
    then have "of_int (2 ^ 52 * b) \<le> (of_int (a * 2 ^ nat (- e)) :: rat)" by (simp only: of_int_le_iff)
    with False show ?thesis by (simp add: pow2_def field_simps)
  qed
  then have ge: "2 ^ 52 \<le> q / pow2 e"
    using b by (simp add: q field_simps)
  show ?thesis
  proof (cases "2 ^ 53 \<le> q / pow2 e")
    case True
    then have "2 ^ 52 \<le> q / pow2 (e + 1)" by (simp add: pow2_Suc)
    with True show ?thesis by (simp add: ulp_exp_def ab e_def [symmetric])
  next
    case False
    with ge show ?thesis by (simp add: ulp_exp_def ab e_def [symmetric])
  qed
qed

text \<open>Rounding does not cross an integer below \<open>2 ^ 53\<close>.\<close>

lemma double_ge_int:
  assumes "of_int n \<le> q" and "0 < q" and "n \<le> 2 ^ 53"
  shows "of_int n \<le> double q"
proof -
  define e where "e = ulp_exp q"
  define m where "m = round_even (q / pow2 e)"
  have d: "double q = of_int m * pow2 e" using assms(2) by (simp add: double_def m_def e_def)
  have "of_int (2 ^ 52) \<le> q / pow2 e" using ulp_exp_ge [OF assms(2)] by (simp add: e_def)
  then have m: "2 ^ 52 \<le> m" unfolding m_def by (rule round_even_ge)
  show ?thesis
  proof (cases "0 < e")
    case True
    then have "pow2 e = 2 * pow2 (e - 1)" using pow2_Suc [of "e - 1"] by simp
    moreover have "1 \<le> pow2 (e - 1)" using True by (simp add: pow2_def)
    ultimately have p: "2 \<le> pow2 e" by linarith
    have "(of_int (2 ^ 52) :: rat) \<le> of_int m" using m by (simp only: of_int_le_iff)
    then have "of_int (2 ^ 52) * 2 \<le> of_int m * pow2 e"
      using p by (rule mult_mono) (use m in simp_all)
    moreover have "(of_int n :: rat) \<le> of_int (2 ^ 53)" using assms(3) by (simp only: of_int_le_iff)
    ultimately show ?thesis unfolding d by simp
  next
    case False
    have "of_int (n * 2 ^ nat (- e)) \<le> q / pow2 e"
      using False assms(1) by (cases "e = 0") (simp_all add: pow2_def field_simps)
    then have "n * 2 ^ nat (- e) \<le> m" unfolding m_def by (rule round_even_ge)
    then have "of_int (n * 2 ^ nat (- e)) * pow2 e \<le> of_int m * pow2 e"
      by (intro mult_right_mono) (simp_all only: of_int_le_iff less_imp_le pow2_pos)
    then show ?thesis
      using False by (cases "e = 0") (simp_all add: d pow2_def)
  qed
qed

end
