(* ===== verification/VcdWindow.thy ===== *)
theory VcdWindow
  imports PyRegex PyFloat
begin

text \<open>
  \<open>vcd_window.py\<close>: the header of a waveform dump, the lookup of signals in it, the sampling of the
  signals at the clock edges inside a time window, and the table. A file is its text after
  decoding and newline translation; times in picoseconds are floats (\<open>PyFloat\<close>).
\<close>

subsection \<open>Times and values\<close>

definition unit_ps :: "(str \<times> nat) list" where
  "unit_ps = [(''ps'', 1), (''ns'', 1000), (''us'', 1000000), (''ms'', 1000000000), (''s'', 1000000000000)]"

definition unit_rx :: rx where
  "unit_rx = alts [lit ''ps'', lit ''ns'', lit ''us'', lit ''ms'', lit ''s'']"

text \<open>\<open>^([\d.]+)\s*(ps|ns|us|ms|s)?$\<close>\<close>

definition time_rx :: rx where
  "time_rx = seqs [Bol, Group 1 (plus (Chr (\<lambda>c. is_digit c \<or> c = CHR ''.''))), star space,
     opt (Group 2 unit_rx), Eol]"

definition unit_of :: "str \<Rightarrow> nat res" where
  "unit_of u = (case map_of unit_ps u of None \<Rightarrow> Inl (KeyError u) | Some n \<Rightarrow> Inr n)"

definition parse_time_arg :: "str \<Rightarrow> str \<Rightarrow> rat res" where
  "parse_time_arg s default_unit =
     (let s1 = lower (strip s)
      in case re_match time_rx s1 of
           None \<Rightarrow> Inl (ValueError (''bad time: '' @ s1))
         | Some m \<Rightarrow>
             (case py_float (group_text m 1) of
                None \<Rightarrow> Inl (ValueError (group_text m 1))
              | Some v \<Rightarrow>
                  bind_res (unit_of (case group m 2 of None \<Rightarrow> default_unit | Some u \<Rightarrow> u))
                    (\<lambda>n. Inr (double (v * of_nat n)))))"

text \<open>\<open>int(s, 2)\<close>: as \<open>int(s)\<close>, with an optional \<open>0b\<close> after the sign.\<close>

definition is_bin :: "char \<Rightarrow> bool" where
  "is_bin c \<longleftrightarrow> c = CHR ''0'' \<or> c = CHR ''1''"

fun bin_digits :: "nat \<Rightarrow> str \<Rightarrow> nat option" where
  "bin_digits acc [] = Some acc"
| "bin_digits acc (c # s) =
     (if is_bin c then bin_digits (2 * acc + digit_val c) s
      else if c = CHR ''_'' \<and> s \<noteq> [] \<and> is_bin (hd s) then bin_digits acc s
      else None)"

definition bin_nat :: "str \<Rightarrow> nat option" where
  "bin_nat s =
     (let t = (if startswith (lower s) ''0b''
               then (if startswith (drop 2 s) ''_'' then drop 3 s else drop 2 s) else s)
      in if t \<noteq> [] \<and> is_bin (hd t) then bin_digits 0 t else None)"

definition py_int2 :: "str \<Rightarrow> int option" where
  "py_int2 s =
     (case strip s of
        [] \<Rightarrow> None
      | c # r \<Rightarrow>
          if c = CHR ''-'' then map_option (\<lambda>n. - int n) (bin_nat r)
          else if c = CHR ''+'' then map_option int (bin_nat r)
          else map_option int (bin_nat (c # r)))"

definition hex_char :: "nat \<Rightarrow> char" where
  "hex_char n = (if n < 10 then char_of (48 + n) else char_of (87 + n))"

fun hex_str :: "nat \<Rightarrow> str" where
  "hex_str n = (if n < 16 then [hex_char n] else hex_str (n div 16) @ [hex_char (n mod 16)])"

declare hex_str.simps [simp del]

text \<open>\<open>f"{v:0{w}x}"\<close>; a negative width is a bad format.\<close>

definition format_hex :: "int \<Rightarrow> int \<Rightarrow> str res" where
  "format_hex w v =
     (if w < 0 then Inl (ValueError ''Invalid format specifier'')
      else if v < 0 then Inr (zfill (nat w) (CHR ''-'' # hex_str (nat (- v))))
      else Inr (zfill (nat w) (hex_str (nat v))))"

definition bin_to_hex :: "str \<Rightarrow> int \<Rightarrow> str res" where
  "bin_to_hex bits width =
     (if list_ex (\<lambda>c. c = CHR ''x'' \<or> c = CHR ''z'') (lower bits) then Inr bits
      else (case py_int2 (zfill (nat width) bits) of
              None \<Rightarrow> Inl (ValueError bits)
            | Some v \<Rightarrow> format_hex ((width + 3) div 4) v))"

subsection \<open>\<open>.gtkw\<close> files\<close>

text \<open>\<open>^([\w./:$]+?)(\[\d+:\d+\])?$\<close>\<close>

definition gtkw_rx :: rx where
  "gtkw_rx = seqs [Bol, Group 1 (lazy_plus (Chr (\<lambda>c. is_word c \<or> c \<in> set ''./:$''))),
     opt (Group 2 (seqs [lit ''['', plus digit, lit '':'', plus digit, lit '']''])), Eol]"

definition gtkw_name :: "str \<Rightarrow> str option" where
  "gtkw_name line =
     (let s = strip line
      in if s = [] \<or> hd s \<in> set ''@[*#'' \<or> s = ''-'' then None
         else (case re_match gtkw_rx s of
                 None \<Rightarrow> None
               | Some m \<Rightarrow> if contains (group_text m 1) ''.'' then Some (group_text m 1) else None))"

definition add_new :: "str \<Rightarrow> str list \<Rightarrow> str list" where
  "add_new x xs = (if x \<in> set xs then xs else xs @ [x])"

definition read_gtkw :: "str \<Rightarrow> str list" where
  "read_gtkw t = fold add_new (List.map_filter gtkw_name (splitlines t)) []"

subsection \<open>The header\<close>

record vcd =
  timescale_ps :: nat
  name_to_id :: "(str \<times> str) list"
  id_width :: "(str \<times> int) list"
  scope :: "str list"

definition vcd0 :: vcd where
  "vcd0 = \<lparr>timescale_ps = 1, name_to_id = [], id_width = [], scope = []\<rparr>"

text \<open>
  The lines up to the one with \<open>$enddefinitions\<close>, and the body. The inner loop, which looks for a
  \<open>$end\<close> on a later line, tests a line that contains \<open>$enddefinitions\<close>, so it never runs.
\<close>

fun split_header :: "str list \<Rightarrow> (str list \<times> str list) res" where
  "split_header [] = Inl (RuntimeError ''VCD ended in header'')"
| "split_header (l # ls) =
     (if contains l ''$enddefinitions'' then Inr ([l], ls)
      else bind_res (split_header ls) (\<lambda>(h, b). Inr (l # h, b)))"

text \<open>\<open>re.findall(r'\$\w+|\S+', text)\<close>\<close>

definition token_rx :: rx where
  "token_rx = Alt (Seq (lit ''$'') (plus word_char)) (plus non_space)"

definition tokens :: "str \<Rightarrow> str list" where
  "tokens t = map whole (re_finditer token_rx t)"

definition nth_tok :: "nat \<Rightarrow> str list \<Rightarrow> str res" where
  "nth_tok i ts = (if i < length ts then Inr (ts ! i) else Inl IndexError)"

fun after_end :: "str list \<Rightarrow> str list res" where
  "after_end [] = Inl IndexError"
| "after_end (t # ts) = (if t = ''$end'' then Inr ts else after_end ts)"

lemma after_end_shorter: "after_end ts = Inr us \<Longrightarrow> length us < length ts"
  by (induction ts) (auto split: if_splits)

text \<open>\<open>(\d+)(ps|ns|us|ms|s)\<close> at the start\<close>

definition timescale_rx :: rx where
  "timescale_rx = Seq (Group 1 (plus digit)) (Group 2 unit_rx)"

definition set_timescale :: "str list \<Rightarrow> vcd \<Rightarrow> vcd res" where
  "set_timescale buf v =
     (case re_match timescale_rx (concat buf) of
        None \<Rightarrow> Inl (RuntimeError (''bad $timescale: '' @ concat buf))
      | Some m \<Rightarrow> bind_res (unit_of (group_text m 2)) (\<lambda>n.
          Inr (v\<lparr>timescale_ps := digits_val (group_text m 1) * n\<rparr>)))"

definition setdefault :: "str \<Rightarrow> str \<Rightarrow> (str \<times> str) list \<Rightarrow> (str \<times> str) list" where
  "setdefault k v d = (if map_of d k = None then d @ [(k, v)] else d)"

text \<open>\<open>$var <type> <width> <id> <name> ... $end\<close>, from the token after \<open>$var\<close>.\<close>

definition add_var :: "str list \<Rightarrow> vcd \<Rightarrow> vcd res" where
  "add_var ts v =
     bind_res (nth_tok 1 ts) (\<lambda>wt.
       case py_int wt of
         None \<Rightarrow> Inl (ValueError wt)
       | Some w \<Rightarrow>
           bind_res (nth_tok 2 ts) (\<lambda>ident.
             bind_res (nth_tok 3 ts) (\<lambda>name.
               Inr (v\<lparr>name_to_id := setdefault (join ''.'' (scope v @ [name])) ident (name_to_id v),
                      id_width := AList.update ident w (id_width v)\<rparr>))))"

text \<open>The loop over the tokens; the tokens are those from index \<open>i\<close> on.\<close>

function (sequential) header :: "str list \<Rightarrow> vcd \<Rightarrow> vcd res" where
  "header [] v = Inr v"
| "header (t # ts) v =
     (if t = ''$timescale'' then
        (case after_end ts of
           Inl e \<Rightarrow> Inl e
         | Inr us \<Rightarrow> bind_res (set_timescale (takeWhile (\<lambda>u. u \<noteq> ''$end'') ts) v) (header us))
      else if t = ''$scope'' then
        bind_res (nth_tok 1 ts) (\<lambda>name.
          case after_end ts of
            Inl e \<Rightarrow> Inl e | Inr us \<Rightarrow> header us (v\<lparr>scope := scope v @ [name]\<rparr>))
      else if t = ''$upscope'' then
        (if scope v = [] then Inl IndexError
         else (case after_end ts of
                 Inl e \<Rightarrow> Inl e | Inr us \<Rightarrow> header us (v\<lparr>scope := butlast (scope v)\<rparr>)))
      else if t = ''$var'' then
        bind_res (add_var ts v) (\<lambda>v1.
          case after_end ts of Inl e \<Rightarrow> Inl e | Inr us \<Rightarrow> header us v1)
      else if t = ''$enddefinitions'' then
        (case after_end ts of Inl e \<Rightarrow> Inl e | Inr us \<Rightarrow> Inr v)
      else header ts v)"
  by pat_completeness auto
termination
  by (relation "measure (length \<circ> fst)") (auto dest: after_end_shorter)

definition parse_header :: "str \<Rightarrow> (vcd \<times> str list) res" where
  "parse_header t =
     bind_res (split_header (file_lines t)) (\<lambda>(h, body).
       bind_res (header (tokens (concat h)) vcd0) (\<lambda>v. Inr (v, body)))"

subsection \<open>Signals\<close>

definition shortest :: "str list \<Rightarrow> str option" where
  "shortest ns = (case sort_key length ns of [] \<Rightarrow> None | n # _ \<Rightarrow> Some n)"

definition resolve :: "vcd \<Rightarrow> str \<Rightarrow> str option" where
  "resolve v query =
     (let names = map fst (name_to_id v)
      in if query \<in> set names then Some query
         else
           (let by_suffix = filter (\<lambda>n. endswith n (''.'' @ query)) names
            in shortest (if by_suffix = [] then filter (\<lambda>n. contains n query) names else by_suffix)))"

definition list_matching :: "vcd \<Rightarrow> str \<Rightarrow> str list" where
  "list_matching v p = sort (filter (\<lambda>n. contains n p) (map fst (name_to_id v)))"

subsection \<open>Sampling\<close>

datatype change = Time int | Assign str str | Ignore

text \<open>One line of the body. A vector or real value is split from its identifier at the first blank.\<close>

definition read_change :: "str \<Rightarrow> change res" where
  "read_change line0 =
     (case rstrip_by (\<lambda>c. c = nl) line0 of
        [] \<Rightarrow> Inr Ignore
      | c # r \<Rightarrow>
          if c = CHR ''#'' then
            (case py_int r of None \<Rightarrow> Inl (ValueError r) | Some t \<Rightarrow> Inr (Time t))
          else if c \<in> set ''01xzXZ'' then Inr (Assign r [lower_char c])
          else if c \<in> set ''bBrR'' then
            (case cut '' '' r of None \<Rightarrow> Inr Ignore | Some (v, i) \<Rightarrow> Inr (Assign i v))
          else Inr Ignore)"

type_synonym vals = "(str \<times> str) list"
type_synonym sample_row = "int \<times> vals"

definition value_of :: "vals \<Rightarrow> str \<Rightarrow> str" where
  "value_of m i = (case map_of m i of None \<Rightarrow> ''x'' | Some v \<Rightarrow> v)"

text \<open>What a call of \<open>sample\<close> fixes: the signals with their identifiers, the clock, the window.\<close>

record sampling =
  sig_ids :: "(str \<times> str) list"
  clk_id :: str
  t_from_ps :: rat
  t_to_ps :: rat
  want :: "str \<times> str"
  ts_ps :: nat

record sampler =
  cur :: "vals"
  prev_clk :: str
  rows :: "sample_row list"
  cur_t :: int

definition in_window :: "sampling \<Rightarrow> int \<Rightarrow> bool" where
  "in_window c t = (t_from_ps c \<le> of_int (t * int (ts_ps c)) \<and> of_int (t * int (ts_ps c)) \<le> t_to_ps c)"

definition snap :: "sampling \<Rightarrow> vals \<Rightarrow> vals" where
  "snap c m = map (\<lambda>(s, i). (s, value_of m i)) (sig_ids c)"

definition flush :: "sampling \<Rightarrow> int \<Rightarrow> sampler \<Rightarrow> sampler" where
  "flush c t st =
     (let new_clk = value_of (cur st) (clk_id c)
      in st\<lparr>rows := rows st @
              (if prev_clk st = fst (want c) \<and> new_clk = snd (want c) \<and> in_window c t
               then [(t * int (ts_ps c), snap c (cur st))] else []),
            prev_clk := new_clk\<rparr>)"

definition t_to_units :: "sampling \<Rightarrow> rat" where
  "t_to_units c = (if ts_ps c \<noteq> 0 then double (t_to_ps c / of_nat (ts_ps c)) else t_to_ps c)"

text \<open>The loop over the body; the flush after it runs on every way out.\<close>

fun body_loop :: "sampling \<Rightarrow> str list \<Rightarrow> sampler \<Rightarrow> sampler res" where
  "body_loop c [] st = Inr (flush c (cur_t st) st)"
| "body_loop c (l # ls) st =
     bind_res (read_change l) (\<lambda>ch.
       case ch of
         Time t \<Rightarrow>
           (let st1 = (flush c (cur_t st) st)\<lparr>cur_t := t\<rparr>
            in if t_to_units c < of_int t then Inr (flush c t st1) else body_loop c ls st1)
       | Assign i v \<Rightarrow> body_loop c ls (st\<lparr>cur := AList.update i v (cur st)\<rparr>)
       | Ignore \<Rightarrow> body_loop c ls st)"

definition get_id :: "vcd \<Rightarrow> str \<Rightarrow> str res" where
  "get_id v n = (case map_of (name_to_id v) n of None \<Rightarrow> Inl (KeyError n) | Some i \<Rightarrow> Inr i)"

definition all_x :: "vcd \<Rightarrow> vals" where
  "all_x v = map (\<lambda>i. (i, ''x'')) (remdups (map fst (id_width v)))"

definition sample ::
    "vcd \<Rightarrow> str list \<Rightarrow> str list \<Rightarrow> str \<Rightarrow> rat \<Rightarrow> rat \<Rightarrow> bool \<Rightarrow> sample_row list res" where
  "sample v body signals clk_full t_from t_to posedge =
     bind_res (get_id v clk_full) (\<lambda>clk.
       bind_res (map_res (\<lambda>s. bind_res (get_id v s) (\<lambda>i. Inr (s, i))) signals) (\<lambda>sigs.
         let c = \<lparr>sig_ids = sigs, clk_id = clk, t_from_ps = t_from, t_to_ps = t_to,
                  want = (if posedge then (''0'', ''1'') else (''1'', ''0'')), ts_ps = timescale_ps v\<rparr>
         in bind_res (body_loop c body \<lparr>cur = all_x v, prev_clk = ''x'', rows = [], cur_t = 0\<rparr>)
              (\<lambda>st. Inr (rows st))))"

subsection \<open>The command\<close>

record vcd_args =
  vcd_file :: "str option"
  t_from_arg :: "str option"
  t_to_arg :: "str option"
  unit_arg :: str
  gtkw :: "str option"
  signals_arg :: "str option"
  clk_arg :: "str option"
  posedge_arg :: bool
  list_signals :: "str option"
  time_ns :: bool

record vcd_run =
  exit_status :: nat
  out_lines :: "str list"
  err_lines :: "str list"

definition quit :: "str list \<Rightarrow> str \<Rightarrow> vcd_run" where
  "quit errs e = \<lparr>exit_status = 1, out_lines = [], err_lines = errs @ [''error: '' @ e]\<rparr>"

definition queries :: "vcd_args \<Rightarrow> str list" where
  "queries a =
     (case gtkw a of None \<Rightarrow> [] | Some t \<Rightarrow> read_gtkw t) @
     (case signals_arg a of
        None \<Rightarrow> [] | Some s \<Rightarrow> filter (\<lambda>q. q \<noteq> []) (map strip (split_char (CHR '','') s)))"

text \<open>The signals found, without duplicates, and the warnings for the others.\<close>

definition gather_step :: "vcd \<Rightarrow> (str \<Rightarrow> str) \<Rightarrow> str \<Rightarrow> str list \<times> str list \<Rightarrow> str list \<times> str list" where
  "gather_step v repr q acc =
     (case acc of (sigs, warns) \<Rightarrow>
        case resolve v q of
          None \<Rightarrow> (sigs, warns @ [''warn: no match for signal '' @ repr q])
        | Some full \<Rightarrow> (add_new full sigs, warns))"

definition gather :: "vcd \<Rightarrow> (str \<Rightarrow> str) \<Rightarrow> str list \<Rightarrow> str list \<times> str list" where
  "gather v repr qs = fold (gather_step v repr) qs ([], [])"

definition short_name :: "str \<Rightarrow> str" where
  "short_name s = (case rcut ''.'' s of None \<Rightarrow> s | Some (u, w) \<Rightarrow> w)"

definition column_labels :: "str list \<Rightarrow> str list" where
  "column_labels signals =
     (let short = map short_name signals
      in map (\<lambda>s. if 1 < length (filter (\<lambda>t. t = short_name s) short) then s else short_name s) signals)"

definition time_cell :: "bool \<Rightarrow> int \<Rightarrow> str" where
  "time_cell ns t = (if ns then fixed1 (double (of_int t / 1000)) else int_str t)"

definition value_cells :: "vcd \<Rightarrow> str list \<Rightarrow> vals \<Rightarrow> str list res" where
  "value_cells v signals m =
     map_res (\<lambda>s.
       bind_res (get_id v s) (\<lambda>i.
         case map_of (id_width v) i of
           None \<Rightarrow> Inl (KeyError i)
         | Some w \<Rightarrow> if w = 1 then Inr (value_of m s) else bin_to_hex (value_of m s) w)) signals"

definition table_cells :: "vcd \<Rightarrow> str list \<Rightarrow> bool \<Rightarrow> sample_row list \<Rightarrow> str list list res" where
  "table_cells v signals ns rs =
     map_res (\<lambda>(t, m). bind_res (value_cells v signals m) (\<lambda>cs. Inr (time_cell ns t # cs))) rs"

definition col_widths :: "str list \<Rightarrow> str list list \<Rightarrow> nat list" where
  "col_widths cols cells =
     fold (\<lambda>row ws. map2 (\<lambda>w c. max w (length c)) ws row) cells (map length cols)"

definition fmt_row :: "nat list \<Rightarrow> str list \<Rightarrow> str" where
  "fmt_row ws cells = join ''  '' (map2 ljust ws cells)"

definition table_text :: "str list \<Rightarrow> str list list \<Rightarrow> str list" where
  "table_text cols cells =
     (let ws = col_widths cols cells
      in [fmt_row ws cols, join ''  '' (map (\<lambda>w. replicate w (CHR ''-'')) ws)] @ map (fmt_row ws) cells)"

definition footer :: "nat \<Rightarrow> str \<Rightarrow> rat \<Rightarrow> rat \<Rightarrow> nat \<Rightarrow> str" where
  "footer n clk t_from t_to ts =
     nat_str n @ '' rows  |  clk='' @ clk @ ''  |  window=['' @ fixed1 (double (t_from / 1000)) @ ''ns, '' @
     fixed1 (double (t_to / 1000)) @ ''ns]  |  timescale='' @ nat_str ts @ ''ps''"

definition clock_of :: "vcd \<Rightarrow> (str \<Rightarrow> str) \<Rightarrow> vcd_args \<Rightarrow> str + str" where
  "clock_of v repr a =
     (let given = (case clk_arg a of None \<Rightarrow> [] | Some q \<Rightarrow> q)
      in if given \<noteq> []
         then (case resolve v given of None \<Rightarrow> Inl (''clock '' @ repr given @ '' not found'') | Some n \<Rightarrow> Inr n)
         else (case resolve v ''free_clk'' of
                 None \<Rightarrow> Inl ''no free_clk found; pass --clk explicitly'' | Some n \<Rightarrow> Inr n))"

text \<open>\<open>repr\<close> stands for \<open>{q!r}\<close> in the messages.\<close>

definition vcd_main :: "(str \<Rightarrow> str) \<Rightarrow> vcd_args \<Rightarrow> vcd_run res" where
  "vcd_main repr a =
     (case vcd_file a of
        None \<Rightarrow> Inr (quit [] ''VCD not found'')
      | Some t \<Rightarrow>
          bind_res (parse_header t) (\<lambda>(v, body).
            case list_signals a of
              Some p \<Rightarrow> Inr \<lparr>exit_status = 0, out_lines = list_matching v p, err_lines = []\<rparr>
            | None \<Rightarrow>
                if queries a = []
                then Inr (quit [] ''provide --gtkw and/or --signals (or use --list-signals)'')
                else
                  (let (signals, warns) = gather v repr (queries a)
                   in if signals = [] then Inr (quit warns ''none of the requested signals matched'')
                      else (case clock_of v repr a of
                              Inl e \<Rightarrow> Inr (quit warns e)
                            | Inr clk \<Rightarrow>
                                (case (t_from_arg a, t_to_arg a) of
                                   (Some f, Some u) \<Rightarrow>
                                     bind_res (parse_time_arg f (unit_arg a)) (\<lambda>t_from.
                                     bind_res (parse_time_arg u (unit_arg a)) (\<lambda>t_to.
                                     bind_res (sample v body signals clk t_from t_to (posedge_arg a)) (\<lambda>rs.
                                     bind_res (table_cells v signals (time_ns a) rs) (\<lambda>cells.
                                       Inr \<lparr>exit_status = 0,
                                            out_lines = table_text
                                              ((if time_ns a then ''time(ns)'' else ''time(ps)'') #
                                               column_labels signals) cells,
                                            err_lines = warns @ [[], footer (length rs) clk t_from t_to (timescale_ps v)]\<rparr>))))
                                 | _ \<Rightarrow> Inr (quit warns ''--from and --to are required''))))))"

subsection \<open>What a dump says, section by section\<close>

text \<open>
  The reference reading of a body: the values after all changes of each time stamp, in order; a
  row for every section in which the clock makes the wanted change inside the window.
\<close>

fun sections :: "vals \<Rightarrow> int \<Rightarrow> change list \<Rightarrow> (int \<times> vals) list" where
  "sections m t [] = [(t, m)]"
| "sections m t (Time u # cs) = (t, m) # sections m u cs"
| "sections m t (Assign i v # cs) = sections (AList.update i v m) t cs"
| "sections m t (Ignore # cs) = sections m t cs"

fun edge_rows :: "sampling \<Rightarrow> str \<Rightarrow> (int \<times> vals) list \<Rightarrow> sample_row list" where
  "edge_rows c prev [] = []"
| "edge_rows c prev ((t, m) # ss) =
     (if prev = fst (want c) \<and> value_of m (clk_id c) = snd (want c) \<and> in_window c t
      then [(t * int (ts_ps c), snap c m)] else []) @ edge_rows c (value_of m (clk_id c)) ss"

fun times :: "change list \<Rightarrow> int list" where
  "times [] = []"
| "times (Time t # cs) = t # times cs"
| "times (_ # cs) = times cs"

lemma edge_rows_past:
  assumes "sorted (t # times cs)" and "\<And>u. t \<le> u \<Longrightarrow> \<not> in_window c u"
  shows "edge_rows c prev (sections m t cs) = []"
  using assms
proof (induction m t cs arbitrary: prev rule: sections.induct)
  case (2 m t u cs)
  then have "t \<le> u" "sorted (u # times cs)" by auto
  with 2 show ?case by (simp add: order.trans)
qed auto

lemma past_window:
  assumes "t_to_units c < of_int t" and "0 < ts_ps c" and "0 < t" and "t \<le> 2 ^ 53" and "t \<le> u"
  shows "\<not> in_window c u"
proof
  assume "in_window c u"
  then have "of_int (u * int (ts_ps c)) \<le> t_to_ps c" by (simp add: in_window_def)
  then have "of_int u \<le> t_to_ps c / of_nat (ts_ps c)"
    using assms(2) by (simp add: field_simps)
  moreover have "(of_int t :: rat) \<le> of_int u" using assms(5) by simp
  ultimately have le: "of_int t \<le> t_to_ps c / of_nat (ts_ps c)" by linarith
  moreover have "(0 :: rat) < of_int t" using assms(3) by simp
  ultimately have "0 < t_to_ps c / of_nat (ts_ps c)" by linarith
  from double_ge_int [OF le this assms(4)] assms(1,2) show False
    by (simp add: t_to_units_def)
qed

lemma map_res_Cons_Inr:
  "map_res f (x # xs) = Inr ys \<longleftrightarrow> (\<exists>z zs. f x = Inr z \<and> map_res f xs = Inr zs \<and> ys = z # zs)"
  by (auto simp: bind_res_Inr_iff)

lemma body_loop_rows:
  assumes "map_res read_change body = Inr cs" and "sorted (cur_t st # times cs)"
    and "0 \<le> cur_t st" and "\<forall>t \<in> set (times cs). t \<le> 2 ^ 53" and "0 < ts_ps c" and "0 \<le> t_to_units c"
  shows "\<exists>st'. body_loop c body st = Inr st' \<and>
    rows st' = rows st @ edge_rows c (prev_clk st) (sections (cur st) (cur_t st) cs)"
  using assms
proof (induction body arbitrary: cs st)
  case Nil
  then show ?case by (simp add: flush_def Let_def)
next
  case (Cons l ls)
  from Cons.prems(1) obtain ch cs1 where ch: "read_change l = Inr ch" "map_res read_change ls = Inr cs1" "cs = ch # cs1"
    unfolding map_res_Cons_Inr by blast
  show ?case
  proof (cases ch)
    case (Time t)
    define st1 where "st1 = (flush c (cur_t st) st)\<lparr>cur_t := t\<rparr>"
    have t: "cur_t st \<le> t" "sorted (t # times cs1)" "t \<le> 2 ^ 53" "0 \<le> t"
      using Cons.prems(2-4) by (auto simp: ch(3) Time)
    have one: "rows st1 = rows st @ edge_rows c (prev_clk st) [(cur_t st, cur st)]"
        "prev_clk st1 = value_of (cur st) (clk_id c)" "cur st1 = cur st" "cur_t st1 = t"
      by (simp_all add: st1_def flush_def Let_def)
    show ?thesis
    proof (cases "t_to_units c < of_int t")
      case True
      have "0 < t"
        using True Cons.prems(6) by (metis less_le_trans not_le of_int_0 of_int_less_iff order.strict_trans1)
      from past_window [OF True Cons.prems(5) this t(3)]
      have gone: "\<not> in_window c u" if "t \<le> u" for u using that by blast
      have "rows (flush c t st1) = rows st1"
        using gone [of t] by (simp add: flush_def Let_def)
      moreover have "edge_rows c prev (sections (cur st) t cs1) = []" for prev
        by (rule edge_rows_past [OF t(2) gone])
      ultimately show ?thesis
        using True by (simp add: ch Time st1_def [symmetric] one)
    next
      case False
      have "\<exists>st'. body_loop c ls st1 = Inr st' \<and>
          rows st' = rows st1 @ edge_rows c (prev_clk st1) (sections (cur st1) (cur_t st1) cs1)"
        using Cons.prems t by (intro Cons.IH [OF ch(2)]) (simp_all add: one ch(3) Time)
      with False show ?thesis
        by (simp add: ch Time st1_def [symmetric] one)
    qed
  next
    case (Assign i v)
    with Cons.IH [OF ch(2), of "st\<lparr>cur := AList.update i v (cur st)\<rparr>"] Cons.prems show ?thesis
      by (simp add: ch)
  next
    case Ignore
    with Cons.IH [OF ch(2), of st] Cons.prems show ?thesis
      by (simp add: ch)
  qed
qed

lemma t_to_units_nonneg: "0 \<le> t_to_ps c \<Longrightarrow> 0 \<le> t_to_units c"
  using double_ge_int [of 0 "t_to_ps c / of_nat (ts_ps c)"]
  by (cases "t_to_ps c = 0") (auto simp: t_to_units_def double_def)

lemma map_res_get_ids:
  "list_all (\<lambda>s. map_of (name_to_id v) s \<noteq> None) ss \<Longrightarrow>
   map_res (\<lambda>s. bind_res (get_id v s) (\<lambda>i. Inr (s, i))) ss = Inr (map (\<lambda>s. (s, the (map_of (name_to_id v) s))) ss)"
  by (intro map_res_total) (auto simp: get_id_def list_all_iff)

definition sampling_of :: "vcd \<Rightarrow> str list \<Rightarrow> str \<Rightarrow> rat \<Rightarrow> rat \<Rightarrow> bool \<Rightarrow> sampling" where
  "sampling_of v signals clk t_from t_to posedge =
     \<lparr>sig_ids = map (\<lambda>s. (s, the (map_of (name_to_id v) s))) signals,
      clk_id = the (map_of (name_to_id v) clk), t_from_ps = t_from, t_to_ps = t_to,
      want = (if posedge then (''0'', ''1'') else (''1'', ''0'')), ts_ps = timescale_ps v\<rparr>"

text \<open>
  C16. Sampling is exact: on a dump whose time stamps do not decrease, the rows are those of the
  reference reading, one for every time stamp inside the window after whose changes the clock has
  made the wanted edge, with the values of all signals at that time. Stopping at the first time
  stamp after the window, which is compared in floating point, loses no row.
\<close>

theorem sample_exact:
  assumes "map_res read_change body = Inr cs"
    and "list_all (\<lambda>s. map_of (name_to_id v) s \<noteq> None) (clk # signals)"
    and "sorted (0 # times cs)" and "\<forall>t \<in> set (times cs). t \<le> 2 ^ 53"
    and "0 < timescale_ps v" and "0 \<le> t_to"
  shows "sample v body signals clk t_from t_to posedge =
    Inr (edge_rows (sampling_of v signals clk t_from t_to posedge) ''x'' (sections (all_x v) 0 cs))"
proof -
  obtain i where i: "map_of (name_to_id v) clk = Some i" using assms(2) by auto
  define c where "c = sampling_of v signals clk t_from t_to posedge"
  define st where "st = \<lparr>cur = all_x v, prev_clk = ''x'', rows = [], cur_t = 0\<rparr>"
  have "0 \<le> t_to_units c" using assms(6) by (intro t_to_units_nonneg) (simp add: c_def sampling_of_def)
  then obtain st' where "body_loop c body st = Inr st'" "rows st' = edge_rows c ''x'' (sections (all_x v) 0 cs)"
    using body_loop_rows [OF assms(1), of st c] assms(3-5) by (auto simp: st_def c_def sampling_of_def)
  moreover have "get_id v clk = Inr i" using i by (simp add: get_id_def)
  ultimately show ?thesis
    using assms(2) i by (simp add: sample_def map_res_get_ids Let_def c_def st_def sampling_of_def
        cong: if_cong)
qed

definition clock_vcd :: vcd where
  "clock_vcd = \<lparr>timescale_ps = 10, name_to_id = [(''tb.clk'', ''!''), (''tb.q'', ''%'')],
     id_width = [(''!'', 1), (''%'', 4)], scope = []\<rparr>"

definition clock_body :: "str list" where
  "clock_body = map (\<lambda>l. l @ [nl]) [''#0'', ''0!'', ''b0000 %'', ''#5'', ''1!'', ''b0001 %'', ''#10'', ''0!'', ''#15'', ''1!'', ''#99'', ''0!'']"

theorem sample_exact_witness:
  "sample clock_vcd clock_body [''tb.q''] ''tb.clk'' 0 150 True =
     Inr [(50, [(''tb.q'', ''0001'')]), (150, [(''tb.q'', ''0001'')])]"
proof -
  define cs where "cs = [Time 0, Assign ''!'' ''0'', Assign ''%'' ''0000'', Time 5, Assign ''!'' ''1'',
    Assign ''%'' ''0001'', Time 10, Assign ''!'' ''0'', Time 15, Assign ''!'' ''1'', Time 99, Assign ''!'' ''0'']"
  have "map_res read_change clock_body = Inr cs" unfolding cs_def by code_simp
  from sample_exact [OF this, of clock_vcd "''tb.clk''" "[''tb.q'']" 150 0 True]
  have "sample clock_vcd clock_body [''tb.q''] ''tb.clk'' 0 150 True =
    Inr (edge_rows (sampling_of clock_vcd [''tb.q''] ''tb.clk'' 0 150 True) ''x'' (sections (all_x clock_vcd) 0 cs))"
    by (simp add: clock_vcd_def cs_def)
  then show ?thesis
    by (simp add: cs_def clock_vcd_def sampling_of_def all_x_def in_window_def snap_def value_of_def)
qed

subsection \<open>Looking signals up\<close>

lemma shortest_Some:
  assumes "shortest ns = Some n" shows "n \<in> set ns \<and> (\<forall>k \<in> set ns. length n \<le> length k)"
proof -
  obtain ms where ms: "sort_key length ns = n # ms"
    using assms by (auto simp: shortest_def split: list.splits)
  have "set (sort_key length ns) = set ns" "sorted (map length (sort_key length ns))" by simp_all
  with ms show ?thesis by (metis list.set_intros(1) list.simps(9) set_ConsD sorted_simps(2) in_set_conv_nth
      length_map nth_map nth_mem order_refl)
qed

lemma shortest_None [simp]: "shortest ns = None \<longleftrightarrow> ns = []"
  by (auto simp: shortest_def split: list.splits) (metis length_0_conv length_sort list.size(3))

lemma endswith_contains: "endswith n (CHR ''.'' # q) \<Longrightarrow> contains n q"
  unfolding endswith_iff contains_iff by (metis append_Cons append_Nil append_Nil2 append.assoc)

text \<open>
  A query is resolved to a signal of the dump that contains it: itself when it is a full name,
  otherwise, when some signal ends in a dot and the query, a shortest one that does; no answer
  means that no signal contains the query.
\<close>

lemma resolve_exact:
  "case resolve v q of
     Some n \<Rightarrow> n \<in> set (map fst (name_to_id v)) \<and> contains n q \<and>
       (q \<in> set (map fst (name_to_id v)) \<longrightarrow> n = q) \<and>
       (\<forall>k \<in> set (map fst (name_to_id v)). endswith k (''.'' @ q) \<longrightarrow>
          n = q \<or> endswith n (''.'' @ q) \<and> length n \<le> length k)
   | None \<Rightarrow> (\<forall>k \<in> set (map fst (name_to_id v)). \<not> contains k q)"
proof -
  define names where "names = map fst (name_to_id v)"
  define suf where "suf = filter (\<lambda>n. endswith n (''.'' @ q)) names"
  consider (full) "q \<in> set names" | (sub) "q \<notin> set names" "suf = []" | (suf) "q \<notin> set names" "suf \<noteq> []"
    by blast
  then show ?thesis
  proof cases
    case full
    then have "resolve v q = Some q" by (simp add: resolve_def names_def [symmetric])
    with full show ?thesis by (simp add: names_def [symmetric])
  next
    case sub
    have r: "resolve v q = shortest (filter (\<lambda>n. contains n q) names)"
      using sub unfolding resolve_def names_def [symmetric] Let_def suf_def [symmetric] by simp
    have none: "\<not> endswith k (''.'' @ q)" if "k \<in> set names" for k
      using sub(2) that by (simp add: suf_def filter_empty_conv)
    show ?thesis
    proof (cases "resolve v q")
      case None
      then have "filter (\<lambda>n. contains n q) names = []" using r by simp
      with None show ?thesis by (simp add: names_def [symmetric] filter_empty_conv)
    next
      case (Some n)
      then have "n \<in> set (filter (\<lambda>n. contains n q) names)" using r shortest_Some by metis
      with Some none sub(1) show ?thesis by (simp add: names_def [symmetric])
    qed
  next
    case suf
    have r: "resolve v q = shortest suf"
      using suf unfolding resolve_def names_def [symmetric] Let_def suf_def [symmetric] by simp
    then obtain n where n: "resolve v q = Some n" using suf(2) by (cases "shortest suf") auto
    then have "n \<in> set suf" and min: "\<forall>k \<in> set suf. length n \<le> length k"
      using shortest_Some r by simp_all
    then have mem: "n \<in> set names" "endswith n (''.'' @ q)" by (simp_all add: suf_def)
    then have "contains n q" using endswith_contains by simp
    moreover have "\<forall>k \<in> set names. endswith k (''.'' @ q) \<longrightarrow> length n \<le> length k"
      using min by (simp add: suf_def)
    ultimately show ?thesis using n mem suf(1) by (simp add: names_def [symmetric])
  qed
qed

subsection \<open>The words of a header\<close>

text \<open>A word the pattern does not cut: it does not go on after a dollar sign and word characters.\<close>

definition clean_word :: "str \<Rightarrow> bool" where
  "clean_word w \<longleftrightarrow> \<not> startswith w ''$'' \<or> takeWhile is_word (tl w) \<in> {[], tl w}"

lemma token_none: "rest s = [] \<or> is_space (hd (rest s)) \<Longrightarrow> run token_rx Some s = None"
  by (cases "rest s") (auto simp: token_rx_def plus_def non_space_def run_lit is_space_def)

lemma token_run:
  assumes "rest s = w @ v" "w \<noteq> []" "\<forall>c \<in> set w. \<not> is_space c" "v = [] \<or> is_space (hd v)" "clean_word w"
  shows "run token_rx Some s = Some (s\<lparr>past := rev w @ past s, rest := v\<rparr>)"
proof -
  have all: "run (plus non_space) Some s = Some (s\<lparr>past := rev w @ past s, rest := v\<rparr>)"
    unfolding non_space_def using assms by (intro run_plus_all [where u = w and v = v]) (auto simp: list_all_iff)
  show ?thesis
  proof (cases "startswith w ''$''")
    case False
    then have "\<not> startswith (rest s) ''$''" using assms(1,2) by (cases w) auto
    with all show ?thesis by (simp add: token_rx_def run_lit del: lit.simps)
  next
    case True
    then obtain u where w: "w = CHR ''$'' # u" by (auto simp: startswith_iff)
    define t where "t = s\<lparr>past := CHR ''$'' # past s, rest := u @ v\<rparr>"
    have v: "v = [] \<or> \<not> is_word (hd v)" using assms(4) space_not_word by auto
    have lit: "run (lit ''$'') k s = k t" for k
      using assms(1) by (simp add: run_lit w t_def del: lit.simps)
    show ?thesis
    proof (cases "u \<noteq> [] \<and> takeWhile is_word u = u")
      case True
      then have "list_all is_word u" by (metis list_all_iff set_takeWhileD)
      then have "run (plus word_char) Some t = Some (s\<lparr>past := rev w @ past s, rest := v\<rparr>)"
        unfolding word_char_def using True v
        by (intro run_plus_all [where u = u and v = v]) (simp_all add: t_def w)
      with lit show ?thesis by (simp add: token_rx_def del: lit.simps)
    next
      case False
      then have "takeWhile is_word u = []" using assms(5) by (auto simp: clean_word_def w)
      then have "run (plus word_char) Some t = None"
        using v by (cases u; cases v) (auto simp: plus_def word_char_def t_def split: if_splits)
      with lit all show ?thesis by (simp add: token_rx_def del: lit.simps)
    qed
  qed
qed

lemma search_blank: "list_all is_space (rest s) \<Longrightarrow> search_from token_rx s = None"
proof (induction "rest s" arbitrary: s)
  case Nil
  then show ?case by (simp add: search_from.simps token_none)
next
  case (Cons c t)
  have rest: "rest s = c # t" using Cons.hyps(2) by simp
  then have "run token_rx Some s = None" using Cons.prems by (intro token_none) simp
  moreover have "search_from token_rx (step_char s) = None"
    using rest Cons.prems by (intro Cons.hyps(1)) (simp_all add: step_char_def)
  ultimately show ?case by (simp add: search_from.simps [of _ s])
qed

lemma search_word:
  assumes "rest s = g @ w @ v" "list_all is_space g" "w \<noteq> []" "\<forall>c \<in> set w. \<not> is_space c" "v = [] \<or> is_space (hd v)" "clean_word w"
  shows "search_from token_rx s =
    Some (s\<lparr>past := rev g @ past s, rest := w @ v\<rparr>, s\<lparr>past := rev w @ rev g @ past s, rest := v\<rparr>)"
  using assms(1,2)
proof (induction g arbitrary: s)
  case Nil
  then have "s\<lparr>rest := w @ v\<rparr> = s" by (cases s) simp
  with token_run [OF _ assms(3-6), of s] Nil show ?case by (simp add: search_from.simps [of _ s])
next
  case (Cons c g)
  then have "run token_rx Some s = None" by (simp add: token_none)
  with Cons.prems Cons.IH [of "step_char s"] show ?case by (simp add: search_from.simps [of _ s] step_char_def)
qed

lemma matches_words:
  "length (rest s) < n \<Longrightarrow> groups s = [] \<Longrightarrow> list_all clean_word (split_ws (rest s)) \<Longrightarrow>
   map whole (matches_from n token_rx s) = split_ws (rest s)"
proof (induction n arbitrary: s)
  case (Suc n)
  define g t where "g = takeWhile is_space (rest s)" and "t = dropWhile is_space (rest s)"
  define w v where "w = takeWhile (\<lambda>c. \<not> is_space c) t" and "v = dropWhile (\<lambda>c. \<not> is_space c) t"
  have rest: "rest s = g @ w @ v" by (simp add: g_def t_def w_def v_def)
  have g: "list_all is_space g" by (auto simp: g_def list_all_iff dest: set_takeWhileD)
  show ?case
  proof (cases "t = []")
    case True
    then have "rest s = g" by (simp add: rest w_def v_def)
    then show ?thesis using search_blank [of s] split_ws_blanks [OF g, of "[]"] g by simp
  next
    case False
    then have "\<not> is_space (hd t)" unfolding t_def by (rule hd_dropWhile)
    with False have w: "w \<noteq> []" "\<forall>c \<in> set w. \<not> is_space c" by (cases t; auto simp: w_def dest: set_takeWhileD)+
    have v: "v = [] \<or> is_space (hd v)" unfolding v_def using hd_dropWhile by blast
    have words: "split_ws (rest s) = w # split_ws v" using g w v by (simp add: rest split_ws_blanks split_ws_word)
    then have clean: "clean_word w" "list_all clean_word (split_ws v)" using Suc.prems(3) by simp_all
    let ?b = "s\<lparr>past := rev w @ rev g @ past s, rest := v\<rparr>"
    have "?b\<lparr>groups := []\<rparr> = ?b" using Suc.prems(2) by simp
    moreover have "map whole (matches_from n token_rx ?b) = split_ws v"
      using Suc.prems w(1) clean(2) Suc.IH [of ?b] by (cases w) (simp_all add: rest)
    moreover have "0 < length w" using w(1) by simp
    ultimately show ?thesis
      using search_word [OF rest g w v clean(1)] by (simp add: words pos_def text_between_def)
  qed
qed simp

lemma tokens_words: "list_all clean_word (split_ws t) \<Longrightarrow> tokens t = split_ws t"
  using matches_words [of "at_start t" "Suc (length t)"] by (simp add: tokens_def re_finditer_def at_start_def)

text \<open>A word that is not clean is cut in two: an identifier code may be such a word.\<close>

lemma dollar_code_cut:
  "(case parse_header (''$var wire 1 $a# clk $end'' @ [nl] @ ''$enddefinitions $end'' @ [nl]) of
      Inr (v, body) \<Rightarrow> name_to_id v = [(''#'', ''$a'')] | Inl e \<Rightarrow> False)"
  by code_simp

subsection \<open>What a header declares\<close>

text \<open>A well-formed header as a tree of scopes and variables, its tokens and its declarations.\<close>

datatype item = Var str int str str "str list" | Scope str str "item list"

fun item_toks :: "item \<Rightarrow> str list" and items_toks :: "item list \<Rightarrow> str list" where
  "item_toks (Var ty w ident name extra) = [''$var'', ty, int_str w, ident, name] @ extra @ [''$end'']"
| "item_toks (Scope ty name its) =
     [''$scope'', ty, name, ''$end''] @ items_toks its @ [''$upscope'', ''$end'']"
| "items_toks [] = []"
| "items_toks (i # is) = item_toks i @ items_toks is"

fun item_ok :: "item \<Rightarrow> bool" and items_ok :: "item list \<Rightarrow> bool" where
  "item_ok (Var ty w ident name extra) \<longleftrightarrow> ''$end'' \<notin> set ([ty, ident, name] @ extra)"
| "item_ok (Scope ty name its) \<longleftrightarrow> ty \<noteq> ''$end'' \<and> name \<noteq> ''$end'' \<and> items_ok its"
| "items_ok [] \<longleftrightarrow> True"
| "items_ok (i # is) \<longleftrightarrow> item_ok i \<and> items_ok is"

fun item_vars :: "str list \<Rightarrow> item \<Rightarrow> (str \<times> str \<times> int) list"
  and items_vars :: "str list \<Rightarrow> item list \<Rightarrow> (str \<times> str \<times> int) list" where
  "item_vars sc (Var ty w ident name extra) = [(join ''.'' (sc @ [name]), ident, w)]"
| "item_vars sc (Scope ty name its) = items_vars (sc @ [name]) its"
| "items_vars sc [] = []"
| "items_vars sc (i # is) = item_vars sc i @ items_vars sc is"

definition declare_var :: "str \<times> str \<times> int \<Rightarrow> vcd \<Rightarrow> vcd" where
  "declare_var d v =
     (case d of (name, ident, w) \<Rightarrow>
        v\<lparr>name_to_id := setdefault name ident (name_to_id v), id_width := AList.update ident w (id_width v)\<rparr>)"

lemma scope_fold_declare [simp]: "scope (fold declare_var ds v) = scope v"
  by (induction ds arbitrary: v) (auto simp: declare_var_def split: prod.splits)

lemma after_end_append: "''$end'' \<notin> set xs \<Longrightarrow> after_end (xs @ ''$end'' # ts) = Inr ts"
  by (induction xs) auto

lemma declare_scope_update: "declare_var d (v\<lparr>scope := sc\<rparr>) = (declare_var d v)\<lparr>scope := sc\<rparr>"
  by (simp add: declare_var_def split: prod.splits)

lemma fold_declare_scope_update:
  "fold declare_var ds (v\<lparr>scope := sc\<rparr>) = (fold declare_var ds v)\<lparr>scope := sc\<rparr>"
  by (induction ds arbitrary: v) (simp_all add: declare_scope_update)

lemma int_str_not_end [simp]: "int_str w \<noteq> ''$end''" "''$end'' \<noteq> int_str w"
proof -
  have "CHR ''$'' \<notin> set (int_str w)"
    using int_str_chars [of "CHR ''$''" w] by (auto simp: is_digit_def)
  then show "int_str w \<noteq> ''$end''" by (metis list.set_intros(1))
  then show "''$end'' \<noteq> int_str w" by (rule not_sym)
qed

lemma header_var:
  assumes "item_ok (Var ty w ident name extra)"
  shows "header (item_toks (Var ty w ident name extra) @ ts) v =
    header ts (declare_var (join ''.'' (scope v @ [name]), ident, w) v)"
proof -
  have "after_end ([ty, int_str w, ident, name] @ extra @ ''$end'' # ts) = Inr ts"
    using assms after_end_append [of "[ty, int_str w, ident, name] @ extra" ts] by simp
  moreover have "add_var ([ty, int_str w, ident, name] @ extra @ ''$end'' # ts) v =
      Inr (declare_var (join ''.'' (scope v @ [name]), ident, w) v)"
    by (simp add: add_var_def nth_tok_def declare_var_def)
  ultimately show ?thesis by simp
qed

lemma header_items:
  "item_ok it \<Longrightarrow> header (item_toks it @ ts) v = header ts (fold declare_var (item_vars (scope v) it) v)"
  "items_ok its \<Longrightarrow> header (items_toks its @ ts) v = header ts (fold declare_var (items_vars (scope v) its) v)"
proof (induction it and its arbitrary: ts v and ts v rule: item_toks_items_toks.induct)
  case (1 ty w ident name extra)
  then show ?case using header_var by simp
next
  case (2 ty name its)
  have "header (item_toks (Scope ty name its) @ ts) v =
      header (items_toks its @ [''$upscope'', ''$end''] @ ts) (v\<lparr>scope := scope v @ [name]\<rparr>)"
    using 2 by (simp add: nth_tok_def)
  also have "\<dots> = header ([''$upscope'', ''$end''] @ ts)
      (fold declare_var (items_vars (scope v @ [name]) its) (v\<lparr>scope := scope v @ [name]\<rparr>))"
    using 2 by simp
  also have "\<dots> = header ts (fold declare_var (items_vars (scope v @ [name]) its) v)"
    by (simp add: fold_declare_scope_update)
      (simp add: fold_declare_scope_update [symmetric])
  finally show ?case by simp
next
  case (4 i "is")
  then show ?case by simp
qed simp

lemma declared_ids:
  "map_of (name_to_id (fold declare_var ds v)) n =
     (case map_of (name_to_id v) n of
        Some i \<Rightarrow> Some i
      | None \<Rightarrow> map_of (map (\<lambda>(name, ident, w). (name, ident)) ds) n)"
proof (induction ds arbitrary: v)
  case (Cons d ds)
  obtain name ident w where d: "d = (name, ident, w)" by (metis prod_cases3)
  have "map_of (name_to_id (declare_var d v)) n =
      (case map_of (name_to_id v) n of
         Some i \<Rightarrow> Some i | None \<Rightarrow> if n = name then Some ident else None)"
    by (auto simp: d declare_var_def setdefault_def map_add_def split: option.splits)
  then show ?case by (auto simp: Cons.IH d split: option.splits)
qed (simp split: option.splits)

text \<open>The words around the tree: sections that are passed over, and the time scale.\<close>

definition section_words :: "str set" where
  "section_words = {''$timescale'', ''$scope'', ''$upscope'', ''$var'', ''$enddefinitions''}"

lemma header_skips: "set ws \<inter> section_words = {} \<Longrightarrow> header (ws @ ts) v = header ts v"
  by (induction ws) (auto simp: section_words_def)

text \<open>A time scale as a number, a unit, and the words it is written in.\<close>

type_synonym scale = "nat \<times> str \<times> str list"

definition scale_ok :: "scale \<Rightarrow> bool" where
  "scale_ok sc = (case sc of (n, u, ws) \<Rightarrow> u \<in> fst ` set unit_ps \<and> concat ws = nat_str n @ u \<and> ''$end'' \<notin> set ws)"

fun scale_words :: "scale option \<Rightarrow> str list" where
  "scale_words None = []"
| "scale_words (Some (n, u, ws)) = ''$timescale'' # ws @ [''$end'']"

fun scale_ps :: "scale option \<Rightarrow> nat" where
  "scale_ps None = 1"
| "scale_ps (Some (n, u, ws)) = n * the (map_of unit_ps u)"

lemma set_timescale_scale:
  assumes "scale_ok (n, u, ws)"
  shows "set_timescale ws v = Inr (v\<lparr>timescale_ps := scale_ps (Some (n, u, ws))\<rparr>)"
proof -
  have u: "u \<in> {''ps'', ''ns'', ''us'', ''ms'', ''s''}" using assms by (auto simp: scale_ok_def unit_ps_def)
  define e where "e = \<lparr>past = rev (nat_str n @ u), rest = [], groups = [(1, nat_str n), (2, u)]\<rparr>"
  have "run (Group 2 unit_rx) Some (\<lparr>past = rev (nat_str n), rest = u, groups = [(1, nat_str n)]\<rparr>) = Some e"
    using u by (auto simp: unit_rx_def e_def set_group_def text_between_def step_char_def)
  then have "run (plus digit) (\<lambda>t. run (Group 2 unit_rx) Some (set_group 1 (at_start (nat_str n @ u)) t)) (at_start (nat_str n @ u)) = Some e"
    unfolding digit_def using nat_str_digits nat_str_ne u
    by (intro run_plus_all [where u = "nat_str n" and v = u])
      (auto simp: at_start_def set_group_def text_between_def list_all_iff is_digit_def simp del: nat_str.simps run.simps)
  then have "re_match timescale_rx (nat_str n @ u) = Some e"
    by (simp add: re_match_def timescale_rx_def)
  moreover have "unit_of u = Inr (the (map_of unit_ps u))" using u by (auto simp: unit_of_def unit_ps_def)
  moreover have "concat ws = nat_str n @ u" using assms by (simp add: scale_ok_def)
  ultimately show ?thesis
    by (simp add: set_timescale_def e_def group_text_def group_def digits_val_def nat_str_fold del: nat_str.simps)
qed

lemma header_scale:
  assumes "pred_option scale_ok sc"
  shows "header (scale_words sc @ ts) v = header ts (if sc = None then v else v\<lparr>timescale_ps := scale_ps sc\<rparr>)"
proof (cases sc)
  case (Some nu)
  then obtain n u ws where sc: "sc = Some (n, u, ws)" by (cases nu) auto
  then have ok: "scale_ok (n, u, ws)" "''$end'' \<notin> set ws" using assms by (simp_all add: scale_ok_def)
  moreover have "takeWhile (\<lambda>u. u \<noteq> ''$end'') (ws @ ''$end'' # ts) = ws" using ok(2) by (induction ws) auto
  ultimately show ?thesis using set_timescale_scale [OF ok(1)] by (simp add: sc after_end_append)
qed simp

lemma split_header_lines:
  "\<forall>l \<in> set ls. \<not> contains l ''$enddefinitions'' \<Longrightarrow> contains l ''$enddefinitions'' \<Longrightarrow> split_header (ls @ l # ms) = Inr (ls @ [l], ms)"
  by (induction ls) auto

text \<open>
  C36. The header of a dump, as text: words between blanks, among them sections that are passed over, at most
  one time scale and then a tree of scopes of any nesting, up to a line \<open>$enddefinitions $end\<close>. As long as no
  word goes on after a dollar sign and word characters (an identifier code may, see \<open>dollar_code_cut\<close>), the
  header declares exactly the variables of the tree, each under the names of its scopes and its own joined by
  dots, with the identifier of its first declaration; the scopes are closed again, the time scale is the one
  given, and the lines that follow are the body.
\<close>

theorem header_declares:
  assumes "split_ws h = pre @ scale_words sc @ post @ items_toks its" and "list_all clean_word (split_ws h)"
    and "set (pre @ post) \<inter> section_words = {}" and "pred_option scale_ok sc" and "items_ok its"
    and "\<not> contains h ''$enddefinitions''"
  shows "\<exists>v. parse_header (h @ nl # ''$enddefinitions $end'' @ nl # body) = Inr (v, file_lines body) \<and>
    scope v = [] \<and> timescale_ps v = scale_ps sc \<and>
    map_of (name_to_id v) = map_of (map (\<lambda>(name, ident, w). (name, ident)) (items_vars [] its))"
proof -
  let ?last = "''$enddefinitions $end'' @ [nl]"
  have none: "\<not> contains l ''$enddefinitions''" if "l \<in> set (file_lines (h @ [nl]))" for l
  proof
    assume "contains l ''$enddefinitions''"
    moreover have "contains (h @ [nl]) l" using that by (rule file_lines_infix)
    ultimately obtain a b c d where "l = a @ ''$enddefinitions'' @ b" "h @ [nl] = c @ l @ d" unfolding contains_iff by blast
    then have eq: "h @ [nl] = (c @ a) @ ''$enddefinitions'' @ b @ d" by simp
    have "b @ d \<noteq> []" using arg_cong [OF eq, of last] by auto
    then have "h = (c @ a) @ ''$enddefinitions'' @ butlast (b @ d)"
      using arg_cong [OF eq, of butlast] by (simp add: butlast_append split: if_splits)
    then have "contains h ''$enddefinitions''" unfolding contains_iff by blast
    with assms(6) show False by simp
  qed
  have "file_lines (''$enddefinitions $end'' @ nl # body) = ?last # file_lines body" by simp
  then have lines: "file_lines (h @ nl # ''$enddefinitions $end'' @ nl # body) = file_lines (h @ [nl]) @ ?last # file_lines body"
    by (simp only: file_lines_at [of h "''$enddefinitions $end'' @ nl # body"])
  have "contains ?last ''$enddefinitions''" by code_simp
  then have split: "split_header (file_lines (h @ nl # ''$enddefinitions $end'' @ nl # body)) =
      Inr (file_lines (h @ [nl]) @ [?last], file_lines body)"
    unfolding lines using none by (intro split_header_lines) blast+
  have "split_ws ?last = [''$enddefinitions'', ''$end'']" by code_simp
  then have "split_ws (h @ nl # ?last) = split_ws h @ [''$enddefinitions'', ''$end'']"
    using split_ws_at [of nl h ?last] by (simp add: is_space_def)
  moreover have "list_all clean_word [''$enddefinitions'', ''$end'']" by code_simp
  ultimately have toks: "tokens (h @ nl # ?last) = split_ws h @ [''$enddefinitions'', ''$end'']"
    using tokens_words [of "h @ nl # ?last"] assms(2) by simp
  let ?v = "if sc = None then vcd0 else vcd0\<lparr>timescale_ps := scale_ps sc\<rparr>"
  have "header (split_ws h @ [''$enddefinitions'', ''$end'']) vcd0 = header (items_toks its @ [''$enddefinitions'', ''$end'']) ?v"
    unfolding assms(1) append.assoc using assms(3) by (simp add: header_skips header_scale [OF assms(4)] Int_Un_distrib2)
  also have "\<dots> = Inr (fold declare_var (items_vars [] its) ?v)"
    using header_items(2) [OF assms(5), of "[''$enddefinitions'', ''$end'']" ?v] by (simp add: vcd0_def)
  finally have head: "header (split_ws h @ [''$enddefinitions'', ''$end'']) vcd0 = Inr (fold declare_var (items_vars [] its) ?v)" .
  have whole_text: "concat (file_lines (h @ [nl]) @ [?last]) = h @ nl # ?last" by simp
  have "parse_header (h @ nl # ''$enddefinitions $end'' @ nl # body) = Inr (fold declare_var (items_vars [] its) ?v, file_lines body)"
    unfolding parse_header_def split by (simp only: bind_res_simps prod.case whole_text toks head)
  moreover have "timescale_ps (fold declare_var ds v) = timescale_ps v" for ds v
    by (induction ds arbitrary: v) (auto simp: declare_var_def split: prod.splits)
  ultimately show ?thesis by (auto simp: declared_ids vcd0_def)
qed

definition sample_header :: str where
  "sample_header = join [nl] [''$version Icarus Verilog $end'', ''$timescale'', ''  1ns'', ''$end'',
     ''$scope module tb $end'', ''$var wire 1 ! clk $end'', ''$scope module dut $end'', ''$var wire 8 # q [7:0] $end'',
     ''$upscope $end'', ''$upscope $end'']"

definition sample_tree :: "item list" where
  "sample_tree = [Scope ''module'' ''tb'' [Var ''wire'' 1 ''!'' ''clk'' [],
     Scope ''module'' ''dut'' [Var ''wire'' 8 ''#'' ''q'' [''[7:0]'']]]]"

theorem header_declares_witness:
  "\<exists>v. parse_header (sample_header @ nl # ''$enddefinitions $end'' @ nl # ''#0'') = Inr (v, [''#0'']) \<and>
     map_of (name_to_id v) ''tb.dut.q'' = Some ''#'' \<and> timescale_ps v = 1000"
proof -
  have "split_ws sample_header = [''$version'', ''Icarus'', ''Verilog'', ''$end''] @ scale_words (Some (1, ''ns'', [''1ns''])) @ [] @ items_toks sample_tree"
    "list_all clean_word (split_ws sample_header)" "items_ok sample_tree" "\<not> contains sample_header ''$enddefinitions''" by code_simp+
  note words = this
  have "nat_str 1 = ''1''" by code_simp
  then have "scale_ok (1, ''ns'', [''1ns''])" by (simp add: scale_ok_def unit_ps_def)
  then have "pred_option scale_ok (Some (1, ''ns'', [''1ns'']))" by simp
  note words = words this
  have "set ([''$version'', ''Icarus'', ''Verilog'', ''$end''] @ []) \<inter> section_words = {}" by (simp add: section_words_def)
  from header_declares [OF words(1,2) this words(5,3,4), of "''#0''"] obtain v where
    "parse_header (sample_header @ nl # ''$enddefinitions $end'' @ nl # ''#0'') = Inr (v, file_lines ''#0'')"
    "timescale_ps v = scale_ps (Some (1, ''ns'', [''1ns'']))"
    "map_of (name_to_id v) = map_of (map (\<lambda>(name, ident, w). (name, ident)) (items_vars [] sample_tree))"
    by metis
  moreover have "map_of (map (\<lambda>(name, ident, w). (name, ident)) (items_vars [] sample_tree)) ''tb.dut.q'' = Some ''#''"
    by code_simp
  moreover have "file_lines ''#0'' = [''#0'']" by code_simp
  moreover have "scale_ps (Some (1, ''ns'', [''1ns''])) = 1000" by (simp add: unit_ps_def)
  ultimately show ?thesis by (intro exI [of _ v]) (simp del: file_lines.simps)
qed

subsection \<open>Hexadecimal values\<close>

definition hex_val :: "char \<Rightarrow> nat" where
  "hex_val c = (if is_digit c then digit_val c else code c - 87)"

definition hex_value :: "str \<Rightarrow> nat" where
  "hex_value s = fold (\<lambda>c a. 16 * a + hex_val c) s 0"

definition bits_value :: "str \<Rightarrow> nat" where
  "bits_value s = fold (\<lambda>c a. 2 * a + digit_val c) s 0"

lemma hex_val_char: "n < 16 \<Longrightarrow> hex_val (hex_char n) = n"
  by (auto simp: hex_val_def hex_char_def is_digit_def digit_val_def)

lemma hex_value_hex_str: "hex_value (hex_str n) = n"
proof (induction n rule: hex_str.induct)
  case (1 n)
  show ?case
  proof (cases "n < 16")
    case True
    then show ?thesis by (simp add: hex_value_def hex_str.simps [of n] hex_val_char)
  next
    case False
    with 1 show ?thesis
      by (subst hex_str.simps) (simp add: hex_value_def hex_val_char del: hex_str.simps)
  qed
qed

lemma length_hex_str: "n < 16 ^ k \<Longrightarrow> 0 < k \<Longrightarrow> length (hex_str n) \<le> k"
proof (induction k arbitrary: n)
  case (Suc k)
  show ?case
  proof (cases "n < 16")
    case False
    then have "0 < k" using Suc.prems(1) by (cases k) auto
    moreover have "n div 16 < 16 ^ k" using Suc.prems(1) by (simp add: less_mult_imp_div_less mult.commute)
    ultimately have "length (hex_str (n div 16)) \<le> k" using Suc.IH by simp
    with False show ?thesis by (subst hex_str.simps) simp
  qed (simp add: hex_str.simps)
qed simp

lemma hex_str_hd: "\<exists>c r. hex_str n = c # r \<and> c \<noteq> CHR ''+'' \<and> c \<noteq> CHR ''-''"
proof (induction n rule: hex_str.induct)
  case (1 n)
  have "hex_char m \<noteq> CHR ''+'' \<and> hex_char m \<noteq> CHR ''-''" if "m < 16" for m
  proof -
    have "code (hex_char m) \<ge> 48" using that by (simp add: hex_char_def)
    then show ?thesis by auto
  qed
  with 1 show ?case
    by (subst hex_str.simps) (auto simp: hex_str.simps [of n])
qed

lemma bin_digits_all:
  "list_all is_bin s \<Longrightarrow> bin_digits acc s = Some (fold (\<lambda>c a. 2 * a + digit_val c) s acc)"
  by (induction s arbitrary: acc) auto

lemma bits_value_less: "list_all is_bin s \<Longrightarrow> bits_value s < 2 ^ length s"
proof (induction s rule: rev_induct)
  case (snoc c s)
  then have "bits_value s < 2 ^ length s" "digit_val c \<le> 1"
    by (auto simp: is_bin_def digit_val_def)
  then show ?case by (simp add: bits_value_def)
qed (simp add: bits_value_def)

lemma strip_no_space:
  assumes "\<forall>c \<in> set s. \<not> is_space c" shows "strip s = s"
proof -
  have "dropWhile is_space u = u" if "\<forall>c \<in> set u. \<not> is_space c" for u
    using that by (cases u) simp_all
  from this [of s] this [of "rev s"] assms show ?thesis
    by (simp add: strip_def lstrip_def rstrip_def lstrip_by_def rstrip_by_def)
qed

lemma bits_value_zeros: "bits_value (replicate k (CHR ''0'') @ s) = bits_value s"
  by (induction k) (simp_all add: bits_value_def digit_val_def)

lemma hex_value_zeros: "hex_value (replicate k (CHR ''0'') @ s) = hex_value s"
  by (induction k) (simp_all add: hex_value_def hex_val_def is_digit_def digit_val_def)

lemma is_bin_plain: "is_bin c \<Longrightarrow> \<not> is_space c \<and> c \<noteq> CHR ''-'' \<and> c \<noteq> CHR ''+'' \<and> lower_char c = c \<and>
    c \<noteq> CHR ''b'' \<and> c \<noteq> CHR ''x'' \<and> c \<noteq> CHR ''z''"
  by (auto simp: is_bin_def is_space_def lower_char_def)

lemma py_int2_bits:
  assumes "list_all is_bin s" and "s \<noteq> []"
  shows "py_int2 s = Some (int (bits_value s))"
proof -
  obtain c r where s: "s = c # r" using assms(2) by (cases s) auto
  have all: "\<forall>c \<in> set s. is_bin c" using assms(1) by (simp add: list_all_iff)
  have "strip s = s" using all is_bin_plain by (intro strip_no_space) blast
  moreover have "\<not> startswith (lower s) ''0b''"
    using all is_bin_plain by (cases r) (auto simp: s lower_def)
  then have "bin_nat s = Some (bits_value s)"
    using all by (simp add: bin_nat_def s bits_value_def bin_digits_all list_all_iff is_bin_plain)
  ultimately show ?thesis
    using all is_bin_plain [of c] by (simp add: py_int2_def s)
qed

text \<open>
  C37. A vector of known bits is shown as the hexadecimal number with its value, in exactly the
  number of digits its declared width needs, whether or not the dump drops leading zeros.
\<close>

theorem bin_to_hex_exact:
  assumes "list_all is_bin bits" and "1 \<le> width" and "int (length bits) \<le> width"
  shows "\<exists>h. bin_to_hex bits width = Inr h \<and> int (length h) = (width + 3) div 4 \<and>
    hex_value h = bits_value bits"
proof -
  define z where "z = zfill (nat width) bits"
  define k where "k = nat ((width + 3) div 4)"
  have z: "z = replicate (nat width - length bits) (CHR ''0'') @ bits"
    using assms(1) by (cases bits) (simp_all add: z_def zfill_def is_bin_plain)
  have "is_bin (CHR ''0'')" by (simp add: is_bin_def)
  then have zb: "list_all is_bin z" using assms(1) by (auto simp: z list_all_iff)
  have zl: "length z = nat width" using assms(3) by (simp add: z)
  then have zn: "z \<noteq> []" using assms(2) by auto
  define n where "n = bits_value bits"
  have n: "py_int2 z = Some (int n)"
    using py_int2_bits [OF zb zn] by (simp add: z bits_value_zeros n_def)
  have "0 < k" "nat width \<le> 4 * k" using assms(2) by (simp_all add: k_def)
  then have "(2 :: nat) ^ nat width \<le> 2 ^ (4 * k)" by simp
  also have "\<dots> = 16 ^ k" by (simp add: power_mult)
  finally have "n < 16 ^ k"
    using bits_value_less [OF zb] zl by (simp add: z bits_value_zeros n_def)
  then have len: "length (hex_str n) \<le> k" using length_hex_str \<open>0 < k\<close> by blast
  define h where "h = replicate (k - length (hex_str n)) (CHR ''0'') @ hex_str n"
  have "zfill k (hex_str n) = h"
    using hex_str_hd [of n] by (auto simp: h_def zfill_def)
  moreover have "\<not> list_ex (\<lambda>c. c = CHR ''x'' \<or> c = CHR ''z'') (lower bits)"
  proof -
    have "lower bits = bits"
      unfolding lower_def using assms(1) by (intro map_idI) (simp add: list_all_iff is_bin_plain)
    then show ?thesis using assms(1) is_bin_plain by (force simp: list_ex_iff list_all_iff)
  qed
  ultimately have "bin_to_hex bits width = Inr h"
    using n assms(2) by (simp add: bin_to_hex_def z_def [symmetric] format_hex_def k_def)
  moreover have "int (length h) = (width + 3) div 4"
    using len assms(2) by (simp add: h_def k_def)
  moreover have "hex_value h = n"
    by (simp add: h_def hex_value_zeros hex_value_hex_str)
  ultimately show ?thesis by (auto simp: n_def)
qed

theorem bin_to_hex_exact_witness:
  "\<exists>h. bin_to_hex ''10110'' 12 = Inr h \<and> length h = 3 \<and> hex_value h = 22"
  using bin_to_hex_exact [of "''10110''" 12]
  by (auto simp: is_bin_def bits_value_def digit_val_def)

text \<open>
  A header whose \<open>$end\<close> stands on the line after \<open>$enddefinitions\<close> is not read: the loop that
  should consume that line never runs, and the token loop then falls off the end.
\<close>

lemma split_header_one_line:
  "split_header [''$enddefinitions '' @ [nl], ''$end'' @ [nl], ''#0'' @ [nl]] =
     Inr ([''$enddefinitions '' @ [nl]], [''$end'' @ [nl], ''#0'' @ [nl]])"
  "header [''$enddefinitions''] v = Inl IndexError"
  by (simp_all)

end
