(* ===== verification/CoverageTools.thy ===== *)
theory CoverageTools
  imports Flatten PyRegex
begin

text \<open>
  The small tools around a coverage build: \<open>cov_scope.py\<close> (what Verilator shall not cover),
  \<open>_read\<close> of \<open>cov_const_cfg.py\<close> (the sources Yosys reads), \<open>cov_vlfix.py\<close> (a corrected copy of a
  Verilator header) and \<open>check_core_manifest.py\<close>. The file system is the one of \<open>Flatten\<close>; the
  recursion limit is the fuel of the two readers.
\<close>

subsection \<open>\<open>cov_scope.py\<close>\<close>

definition read_file :: "fsys \<Rightarrow> str \<Rightarrow> str res" where
  "read_file fs p =
     (case map_of fs p of
        None \<Rightarrow> Inl (RuntimeError ''FileNotFoundError'')
      | Some Dir \<Rightarrow> Inl (RuntimeError ''IsADirectoryError'')
      | Some (File t) \<Rightarrow> Inr t)"

definition at_base :: "str \<Rightarrow> str \<Rightarrow> str" where
  "at_base base p = normpath (path_join base p)"

text \<open>The two sets the walk fills, as lists.\<close>

type_synonym scope_sets = "str list \<times> str list"

definition walk_line ::
    "(str \<Rightarrow> scope_sets \<Rightarrow> scope_sets res) \<Rightarrow> str \<Rightarrow> str \<Rightarrow> scope_sets \<Rightarrow> scope_sets res" where
  "walk_line rec base raw acc =
     (let l = strip raw
      in case acc of (files, dirs) \<Rightarrow>
        if l = [] \<or> startswith l ''//'' then Inr (files, dirs)
        else if startswith l ''-f'' then rec (at_base base (strip (drop 2 l))) (files, dirs)
        else if startswith l ''+incdir+'' then
          Inr (files, fold List.insert (map (at_base base)
            (filter (\<lambda>d. d \<noteq> []) (split_char (CHR ''+'') (drop 8 l)))) dirs)
        else if \<not> (startswith l ''-'' \<or> startswith l ''+'') then
          Inr (List.insert (at_base base l) files, dirs)
        else Inr (files, dirs))"

primrec walk :: "nat \<Rightarrow> fsys \<Rightarrow> str \<Rightarrow> str \<Rightarrow> scope_sets \<Rightarrow> scope_sets res" where
  "walk 0 fs cwd flist acc = Inl RecursionError"
| "walk (Suc n) fs cwd flist acc =
     bind_res (read_file fs (abspath cwd flist)) (\<lambda>t.
       fold_res (walk_line (walk n fs cwd) (dirname (abspath cwd flist))) (file_lines t) acc)"

definition inside :: "str list \<Rightarrow> str \<Rightarrow> bool" where
  "inside duts p = (\<exists>d \<in> set duts. p = d \<or> startswith p (d @ ''/''))"

definition off_dir :: "str \<Rightarrow> str" where
  "off_dir d = ''coverage_off -file '' @ [dquote] @ d @ ''/*'' @ [dquote]"

definition off_file :: "str \<Rightarrow> str" where
  "off_file f = ''coverage_off -file '' @ [dquote] @ f @ [dquote]"

definition scope_lines :: "str list \<Rightarrow> scope_sets \<Rightarrow> str list" where
  "scope_lines duts acc =
     (case acc of (files, dirs) \<Rightarrow>
        let dirs1 = remdups (dirs @ map dirname files)
        in [''`verilator_config''] @
           map off_dir (filter (\<lambda>d. \<not> inside duts d) (sort dirs1)) @
           map off_file (filter (\<lambda>f. \<not> inside duts f) (sort files)))"

text \<open>The text written to \<open><out.vlt>\<close>.\<close>

definition scope_main :: "nat \<Rightarrow> fsys \<Rightarrow> str \<Rightarrow> str list \<Rightarrow> (str \<times> str) res" where
  "scope_main limit fs cwd argv =
     (case argv of
        out # flist # ds \<Rightarrow>
          bind_res (walk limit fs cwd flist ([], [])) (\<lambda>acc.
            Inr (out, join [nl] (scope_lines (map (\<lambda>d. normpath (abspath cwd d)) ds) acc) @ [nl]))
      | _ \<Rightarrow> Inl IndexError)"

subsection \<open>\<open>cov_const_cfg._read\<close>\<close>

definition read_line ::
    "(str \<Rightarrow> str list res) \<Rightarrow> str \<Rightarrow> str \<Rightarrow> str list \<Rightarrow> str list res" where
  "read_line rec base raw out =
     (let l = strip raw
      in if l = [] \<or> startswith l ''//'' \<or> startswith l ''+'' then Inr out
         else if startswith l ''-f'' then
           bind_res (rec (at_base base (strip (drop 2 l)))) (\<lambda>more_files. Inr (out @ more_files))
         else if \<not> startswith l ''-'' then Inr (out @ [at_base base l])
         else Inr out)"

primrec read_sources :: "nat \<Rightarrow> fsys \<Rightarrow> str \<Rightarrow> str list res" where
  "read_sources 0 fs flist = Inl RecursionError"
| "read_sources (Suc n) fs flist =
     bind_res (read_file fs flist) (\<lambda>t.
       fold_res (read_line (read_sources n fs) (dirname flist)) (file_lines t) [])"

definition rtl_files :: "nat \<Rightarrow> fsys \<Rightarrow> str \<Rightarrow> str list res" where
  "rtl_files limit fs rtl_dir = read_sources limit fs (path_join rtl_dir ''filelist.f'')"

subsection \<open>\<open>cov_vlfix.py\<close>\<close>

definition bad_bound :: str where
  "bad_bound = ''for (int j = 0; j < width - i * VL_EDATASIZE; ++j) {''"

definition good_bound :: str where
  "good_bound = ''for (int j = 0; j < ((width - i * VL_EDATASIZE) < VL_EDATASIZE'' @
     '' ? (width - i * VL_EDATASIZE) : VL_EDATASIZE); ++j) {''"

text \<open>
  The output of \<open>verilator --getenv VERILATOR_ROOT\<close> is an argument; the result is the file written
  into the build directory, if any.
\<close>

definition vlfix_main :: "str \<Rightarrow> (str \<Rightarrow> str option) \<Rightarrow> str \<Rightarrow> (str \<times> str) option" where
  "vlfix_main root_out fs mdir =
     (let src = path_join (path_join (strip root_out) ''include'') ''verilated_cov.h''
      in case fs src of
           None \<Rightarrow> None
         | Some t \<Rightarrow>
             if \<not> contains t bad_bound then None
             else Some (path_join mdir ''verilated_cov.h'', replace_all bad_bound good_bound t))"

subsection \<open>\<open>check_core_manifest.py\<close>\<close>

definition filelist_entry :: "str \<Rightarrow> str option" where
  "filelist_entry line =
     (let l = strip (before ''//'' line)
      in if l = [] \<or> startswith l ''-f'' \<or> startswith l ''+'' then None else Some (basename l))"

definition filelist_rtl :: "str \<Rightarrow> str list" where
  "filelist_rtl t = List.map_filter filelist_entry (file_lines t)"

text \<open>The loop over the core file: the files so far, inside the fileset, inside its file list.\<close>

record core_state =
  core_files :: "str list"
  in_rtl :: bool
  in_files :: bool

definition item_rx :: rx where
  "item_rx = seqs [lit ''-'', plus space, Group 1 (plus non_space)]"

definition core_line :: "str \<Rightarrow> core_state \<Rightarrow> core_state" where
  "core_line raw st =
     (let line = rstrip (before ''#'' raw); indent = length line - length (lstrip line); s = strip line
      in if s = [] then st
         else if s = ''rtl:'' \<and> indent = 2 then st\<lparr>in_rtl := True, in_files := False\<rparr>
         else
           (let st1 = (if in_rtl st \<and> indent \<le> 2 then st\<lparr>in_rtl := False\<rparr> else st)
            in if in_rtl st1 \<and> s = ''files:'' then st1\<lparr>in_files := True\<rparr>
               else if in_rtl st1 \<and> in_files st1 then
                 (case re_match item_rx s of
                    Some m \<Rightarrow> st1\<lparr>core_files := core_files st1 @ [basename (group_text m 1)]\<rparr>
                  | None \<Rightarrow> st1\<lparr>in_files := False\<rparr>)
               else st1))"

definition core_rtl :: "str \<Rightarrow> str list" where
  "core_rtl t =
     core_files (fold core_line (file_lines t) \<lparr>core_files = [], in_rtl = False, in_files = False\<rparr>)"

definition manifest_note :: "str \<Rightarrow> str" where
  "manifest_note t = ''check_core_manifest: '' @ t"

definition compare_manifest :: "str \<Rightarrow> str list \<Rightarrow> str list \<Rightarrow> nat \<times> str list" where
  "compare_manifest ip wanted have1 =
     (let missing = filter (\<lambda>f. f \<notin> set have1) wanted; extra = filter (\<lambda>f. f \<notin> set wanted) have1
      in if missing = [] \<and> extra = [] then
           (0, [manifest_note (ip @ ''.core matches rtl/verilog/filelist.f ('' @ nat_str (length wanted) @ '' files)'')])
         else
           (1, map (\<lambda>f. manifest_note (ip @ ''.core lists '' @ f @ '', which is not in filelist.f'')) extra @
               map (\<lambda>f. manifest_note (ip @ ''.core is missing '' @ f)) missing))"

text \<open>\<open>ip_dir\<close> is the absolute directory; the exit status and what is printed.\<close>

definition manifest_main :: "(str \<Rightarrow> str option) \<Rightarrow> str \<Rightarrow> nat \<times> str list" where
  "manifest_main fs ip_dir =
     (let ip = basename ip_dir; core = path_join ip_dir (ip @ ''.core'');
          flist = path_join (path_join (path_join ip_dir ''rtl'') ''verilog'') ''filelist.f''
      in case (fs core, fs flist) of
           (None, _) \<Rightarrow> (1, [manifest_note (core @ '' not found'')])
         | (Some c, None) \<Rightarrow> (1, [manifest_note (flist @ '' not found'')])
         | (Some c, Some f) \<Rightarrow> compare_manifest ip (filelist_rtl f) (core_rtl c))"

subsection \<open>The two readers agree\<close>

text \<open>The paths the readers follow: absolute, and their own normal form.\<close>

definition settled :: "str \<Rightarrow> bool" where
  "settled p \<longleftrightarrow> startswith p ''/'' \<and> normpath p = p"

lemma normpath_fixed:
  assumes "comps_ok cs" and "sl = ''/'' \<or> sl = ''//''"
  shows "normpath (sl @ join ''/'' cs) = sl @ join ''/'' cs"
proof -
  have fixed: "fold (norm_step True) (split_char CHR ''/'' (join ''/'' cs)) [] = cs"
  proof (cases "cs = []")
    case True
    then show ?thesis by (simp add: norm_step_def)
  next
    case False
    have "split_char CHR ''/'' (join ''/'' cs) = cs"
      using False assms(1) by (intro split_char_join) (auto simp: comps_ok_def)
    then show ?thesis using fold_norm_fixed [OF assms(1), of "[]"] by simp
  qed
  have hd: "join ''/'' cs = [] \<or> hd (join ''/'' cs) \<noteq> CHR ''/''"
    using assms(1) by (rule join_comps_hd)
  have start: "\<not> startswith (join ''/'' cs) ''/''"
    using hd by (cases "join ''/'' cs") auto
  have "fold (norm_step True) (split_char CHR ''/'' (sl @ join ''/'' cs)) [] = cs"
    using assms(2) fixed by (auto simp: norm_step_def)
  with assms(2) start show ?thesis
    by (auto simp: normpath_def Let_def)
qed

lemma settled_normpath: "startswith p ''/'' \<Longrightarrow> settled (normpath p)"
proof -
  assume abs: "startswith p ''/''"
  define sl where "sl = (if startswith p ''//'' \<and> \<not> startswith p ''///'' then ''//'' else ''/'')"
  define cs where "cs = fold (norm_step True) (split_char CHR ''/'' p) []"
  have "comps_ok cs"
    unfolding cs_def by (rule fold_norm_ok) (auto simp: comps_ok_def dest: split_char_parts)
  moreover have "normpath p = sl @ join ''/'' cs"
    using abs by (cases p) (auto simp: normpath_def Let_def cs_def sl_def)
  moreover have "sl = ''/'' \<or> sl = ''//''" by (auto simp: sl_def)
  ultimately show ?thesis
    using normpath_fixed by (auto simp: settled_def)
qed

lemma settled_at_base: "settled p \<Longrightarrow> settled (at_base (dirname p) t)"
proof -
  assume "settled p"
  then have "startswith (dirname p) ''/''" by (simp add: settled_def dirname_absolute)
  then have "startswith (path_join (dirname p) t) ''/''"
    by (auto simp: path_join_def startswith_iff)
  then show ?thesis unfolding at_base_def by (rule settled_normpath)
qed

lemma abspath_settled: "settled p \<Longrightarrow> abspath cwd p = p"
  by (simp add: settled_def abspath_def)

text \<open>What relates a result of \<open>walk\<close> to one of \<open>_read\<close>, from the files \<open>walk\<close> had before.\<close>

definition same_files :: "str set \<Rightarrow> scope_sets res \<Rightarrow> str list res \<Rightarrow> bool" where
  "same_files F w r \<longleftrightarrow>
     (case r of
        Inl e \<Rightarrow> w = Inl e
      | Inr out \<Rightarrow> (\<exists>files dirs. w = Inr (files, dirs) \<and> set files = F \<union> set out))"

lemma read_loop_from:
  "fold_res (read_line rec base) ls out =
     bind_res (fold_res (read_line rec base) ls []) (\<lambda>r. Inr (out @ r))"
proof (induction ls arbitrary: out)
  case (Cons l ls)
  have one: "read_line rec base l out = bind_res (read_line rec base l []) (\<lambda>r. Inr (out @ r))" for out
    by (auto simp: read_line_def Let_def bind_res_def split: sum.splits)
  show ?case
  proof (cases "read_line rec base l []")
    case (Inl e)
    with one [of out] show ?thesis by simp
  next
    case (Inr r)
    with one [of out] have "read_line rec base l out = Inr (out @ r)" by simp
    with Inr show ?thesis
      using Cons [of "out @ r"] Cons [of r] by (cases "fold_res (read_line rec base) ls []") simp_all
  qed
qed simp

lemma same_files_line:
  assumes "\<And>p acc. settled p \<Longrightarrow> same_files (set (fst acc)) (recw p acc) (recr p)" and "settled q"
  shows "same_files (set (fst acc)) (walk_line recw (dirname q) l acc) (read_line recr (dirname q) l [])"
proof -
  define l1 where "l1 = strip l"
  obtain files dirs where acc: "acc = (files, dirs)" by fastforce
  consider "l1 = [] \<or> startswith l1 ''//''" | "l1 \<noteq> []" "startswith l1 ''-f''"
    | "\<not> (l1 = [] \<or> startswith l1 ''//'')" "\<not> startswith l1 ''-f''"
    by (cases l1) auto
  then show ?thesis
  proof cases
    case 2
    have "settled (at_base (dirname q) (strip (drop 2 l1)))" using assms(2) by (rule settled_at_base)
    from assms(1) [OF this, of acc] have
      "same_files (set files) (recw (at_base (dirname q) (strip (drop 2 l1))) (files, dirs))
         (recr (at_base (dirname q) (strip (drop 2 l1))))" by (simp add: acc)
    moreover have "\<not> startswith l1 ''//''" "\<not> startswith l1 ''+''" using 2 by (auto simp: startswith_iff)
    ultimately show ?thesis
      using 2 by (auto simp: walk_line_def read_line_def l1_def [symmetric] Let_def acc same_files_def
        bind_res_def split: sum.splits)
  qed (auto simp: walk_line_def read_line_def l1_def [symmetric] Let_def acc same_files_def startswith_iff)
qed

lemma same_files_loop:
  assumes "\<And>p acc. settled p \<Longrightarrow> same_files (set (fst acc)) (recw p acc) (recr p)" and "settled q"
  shows "same_files (set (fst acc)) (fold_res (walk_line recw (dirname q)) ls acc)
    (fold_res (read_line recr (dirname q)) ls [])"
proof (induction ls arbitrary: acc)
  case (Cons l ls)
  have line: "same_files (set (fst acc)) (walk_line recw (dirname q) l acc) (read_line recr (dirname q) l [])"
    using assms by (rule same_files_line)
  show ?case
  proof (cases "read_line recr (dirname q) l []")
    case (Inl e)
    with line show ?thesis by (simp add: same_files_def)
  next
    case (Inr out)
    with line obtain acc1 where acc1: "walk_line recw (dirname q) l acc = Inr acc1" "set (fst acc1) = set (fst acc) \<union> set out"
      by (auto simp: same_files_def)
    have "same_files (set (fst acc1)) (fold_res (walk_line recw (dirname q)) ls acc1)
        (fold_res (read_line recr (dirname q)) ls [])" by (rule Cons)
    with Inr acc1 show ?thesis
      by (auto simp: same_files_def read_loop_from [of recr "dirname q" ls out] bind_res_def Un_assoc split: sum.splits)
  qed
next
  case Nil
  show ?case by (cases acc) (simp add: same_files_def)
qed

lemma walk_reads_same: "settled p \<Longrightarrow> same_files (set (fst acc)) (walk n fs cwd p acc) (read_sources n fs p)"
proof (induction n arbitrary: p acc)
  case (Suc n)
  show ?case
  proof (cases "read_file fs p")
    case (Inr t)
    have "same_files (set (fst acc)) (fold_res (walk_line (walk n fs cwd) (dirname p)) (file_lines t) acc)
        (fold_res (read_line (read_sources n fs) (dirname p)) (file_lines t) [])"
      using Suc.IH Suc.prems by (rule same_files_loop)
    with Inr show ?thesis by (simp add: abspath_settled [OF Suc.prems])
  qed (simp add: abspath_settled [OF Suc.prems] same_files_def)
qed (simp add: same_files_def)

text \<open>
  C40. The coverage scope and the constant search see the same design: from an absolute filelist,
  \<open>cov_scope.walk\<close> collects exactly the files \<open>cov_const_cfg._read\<close> lists, nested lists followed,
  and the two fail alike.
\<close>

theorem scope_and_constants_same_files:
  assumes "normal_path flist"
  shows "(case read_sources limit fs flist of
      Inl e \<Rightarrow> walk limit fs cwd flist ([], []) = Inl e
    | Inr out \<Rightarrow> \<exists>files dirs. walk limit fs cwd flist ([], []) = Inr (files, dirs) \<and> set files = set out)"
proof -
  have "settled flist"
    using normal_path_start [OF assms] normpath_of_normal [OF assms] by (simp add: settled_def)
  from walk_reads_same [OF this, of "([], [])" limit fs cwd] show ?thesis
    by (simp add: same_files_def split: sum.splits)
qed

definition sample_fs :: fsys where
  "sample_fs = [(''/p/a.f'', File (''-f b.f'' @ [nl] @ ''+incdir+./inc'' @ [nl] @ ''x.v'' @ [nl])),
     (''/p/b.f'', File (''y.v'' @ [nl]))]"

theorem scope_and_constants_same_files_witness:
  "\<exists>files dirs. walk 9 sample_fs ''/q'' ''/p/a.f'' ([], []) = Inr (files, dirs) \<and>
     set files = set [''/p/y.v'', ''/p/x.v'']"
proof -
  have "normal_path ''/p/a.f''"
    unfolding normal_path_def by (rule exI [of _ "[''p'', ''a.f'']"]) (simp add: comps_ok_def)
  moreover have "read_sources 9 sample_fs ''/p/a.f'' = Inr [''/p/y.v'', ''/p/x.v'']"
    by code_simp
  ultimately show ?thesis
    using scope_and_constants_same_files [of "''/p/a.f''" 9 sample_fs "''/q''"] by simp
qed

subsection \<open>The corrected header\<close>

lemma startswith_append_left: "startswith u d \<Longrightarrow> startswith (u @ v) d"
  by (auto simp: startswith_iff)

lemma replace_all_cut:
  "cut old s = Some (u, v) \<Longrightarrow> old \<noteq> [] \<Longrightarrow> replace_all old new s = u @ new @ replace_all old new v"
proof (induction old s arbitrary: u rule: cut.induct)
  case (2 old c s)
  show ?case
  proof (cases "startswith (c # s) old")
    case True
    moreover from this 2 have "u = []" "v = drop (length old) (c # s)" by auto
    moreover have "drop (length old) (c # s) = drop (length old - 1) s"
      using 2 by (cases old) auto
    ultimately show ?thesis using 2 by simp
  next
    case False
    with 2 show ?thesis by (auto split: option.splits)
  qed
qed simp

text \<open>
  A needle whose first character occurs in it only once cannot straddle a text that starts with
  that character.
\<close>

lemma contains_split:
  assumes "contains (u @ g # w) (f # p)" and "f \<notin> set p" and "g = f"
  shows "contains u (f # p) \<or> contains (g # w) (f # p)"
proof -
  obtain a b where ab: "u @ g # w = a @ (f # p) @ b" using assms(1) by (auto simp: contains_iff)
  show ?thesis
  proof (cases "length u \<le> length a")
    case True
    then obtain c where "a = u @ c" using ab by (metis append_eq_append_conv_if append_take_drop_id)
    with ab have "g # w = c @ (f # p) @ b" by simp
    then show ?thesis by (auto simp: contains_iff)
  next
    case False
    show ?thesis
    proof (cases "length (a @ f # p) \<le> length u")
      case True
      then obtain c where "u = (a @ f # p) @ c"
        using ab by (metis append.assoc append_eq_append_conv_if append_take_drop_id)
      then show ?thesis by (auto simp: contains_iff)
    next
      case inside: False
      have "(u @ g # w) ! length u = g" by simp
      moreover have "(a @ (f # p) @ b) ! length u = p ! (length u - length a - 1)"
        using False inside by (auto simp: nth_append nth_Cons')
      ultimately have "p ! (length u - length a - 1) = f" using ab assms(3) by metis
      moreover have "length u - length a - 1 < length p" using False inside by simp
      ultimately show ?thesis using assms(2) by (metis nth_mem)
    qed
  qed
qed

lemma contains_block:
  assumes "contains (g # gs @ w) (f # p)" and "f \<notin> set gs"
  shows "startswith (g # gs @ w) (f # p) \<or> contains w (f # p)"
proof -
  have "contains (hs @ w) (f # p) \<Longrightarrow> contains w (f # p)" if "f \<notin> set hs" for hs
    using that by (induction hs) auto
  with assms show ?thesis by auto
qed

lemma replace_removes:
  assumes "old = f # p" and "f \<notin> set p" and "new = f # q" and "f \<notin> set q"
    and "\<And>w. \<not> startswith (new @ w) old"
  shows "\<not> contains (replace_all old new s) old"
proof (induction "length s" arbitrary: s rule: less_induct)
  case less
  show ?case
  proof (cases "cut old s")
    case None
    then show ?thesis by (simp add: replace_all_absent cut_None_iff)
  next
    case (Some uv)
    obtain u v where uv: "uv = (u, v)" by fastforce
    have s: "s = u @ old @ v" and u: "\<not> contains u old"
      using Some uv cut_Some cut_first assms(1) by blast+
    have "replace_all old new s = u @ new @ replace_all old new v"
      using Some uv assms(1) by (intro replace_all_cut) simp_all
    moreover have "\<not> contains (replace_all old new v) old"
      using less s assms(1) by simp
    ultimately show ?thesis
      using contains_split [of u f "q @ replace_all old new v" f p]
        contains_block [of f q "replace_all old new v" f p] u assms by auto
  qed
qed

lemma bound_text: "bad_bound = CHR ''f'' # tl bad_bound" "CHR ''f'' \<notin> set (tl bad_bound)"
  "good_bound = CHR ''f'' # tl good_bound" "CHR ''f'' \<notin> set (tl good_bound)"
  "\<not> startswith (good_bound @ w) bad_bound"
  by (simp_all add: bad_bound_def good_bound_def)

text \<open>
  The header \<open>cov_vlfix.py\<close> writes no longer has the faulty loop bound, nowhere and not across
  a replacement either, and it is written exactly when the installed header has it.
\<close>

theorem vlfix_removes_bound:
  "case vlfix_main root fs mdir of
     Some (p, t) \<Rightarrow> \<not> contains t bad_bound \<and>
       (\<exists>t0. fs (path_join (path_join (strip root) ''include'') ''verilated_cov.h'') = Some t0 \<and> contains t0 bad_bound)
   | None \<Rightarrow> (\<forall>t0. fs (path_join (path_join (strip root) ''include'') ''verilated_cov.h'') = Some t0 \<longrightarrow>
       \<not> contains t0 bad_bound)"
  using replace_removes [OF bound_text]
  by (auto simp: vlfix_main_def Let_def split: option.splits)

theorem vlfix_removes_bound_witness:
  "\<exists>p t. vlfix_main ''/v'' (\<lambda>p. Some bad_bound) ''obj'' = Some (p, t) \<and> \<not> contains t bad_bound"
proof -
  have "vlfix_main ''/v'' (\<lambda>p. Some bad_bound) ''obj'' \<noteq> None" by (simp add: vlfix_main_def)
  then show ?thesis
    using vlfix_removes_bound [where root = "''/v''" and fs = "\<lambda>p. Some bad_bound" and mdir = "''obj''"] by auto
qed

subsection \<open>The manifest check\<close>

lemma compare_manifest_iff: "fst (compare_manifest ip wanted have1) = 0 \<longleftrightarrow> set wanted = set have1"
  by (auto simp: compare_manifest_def Let_def filter_empty_conv)

text \<open>The two lists are of base names, so a file in the wrong directory is not noticed.\<close>

lemma manifest_ignores_directories:
  "fst (compare_manifest ''ip'' (filelist_rtl ''./a.v'') (core_rtl (concat (map (\<lambda>l. l @ [nl])
     [''  rtl:'', ''    files:'', ''      - other/dir/a.v''])))) = 0"
  by code_simp

end
