(* ===== verification/RunConfigs.thy ===== *)
theory RunConfigs
  imports PyRegex Sweep
begin

text \<open>
  What a coverage run builds: the job lists of \<open>cov_jobs.py\<close> (five IP blocks, read from the text of
  their \<open>run/run_all\<close>) and the parameterisations of \<open>cov_const_cfg.coverage_configs\<close> (eight).
\<close>

subsection \<open>Reading \<open>run_all\<close>\<close>

definition no_match :: exc where
  "no_match = RuntimeError ''AttributeError''"

text \<open>\<open>re.search(...).group(1)\<close> and \<open>re.findall\<close> of a pattern with one group.\<close>

definition search1 :: "rx \<Rightarrow> str \<Rightarrow> str res" where
  "search1 r t = (case re_search r t of None \<Rightarrow> Inl no_match | Some (s, m) \<Rightarrow> Inr (group_text m 1))"

definition findall1 :: "rx \<Rightarrow> str \<Rightarrow> str list" where
  "findall1 r t = map (\<lambda>(s, m). group_text m 1) (re_finditer r t)"

text \<open>\<open>"([^"]*)"\<close>\<close>

definition quoted_rx :: rx where
  "quoted_rx = seqs [lit [dquote], Group 1 (star (none_of [dquote])), lit [dquote]]"

definition words_of :: "str \<Rightarrow> str list" where
  "words_of t = split_ws (replace_all [bslash] '' '' t)"

text \<open>\<open>\bNAME="([^"]*)"\<close>; \<open>ahb_periph_example\<close> searches without the \<open>\b\<close>.\<close>

definition lst :: "str \<Rightarrow> str \<Rightarrow> str list res" where
  "lst src name = bind_res (search1 (seqs [WordB, lit (name @ ''=''), quoted_rx]) src) (\<lambda>t. Inr (words_of t))"

definition any_lst :: "str \<Rightarrow> str \<Rightarrow> str list res" where
  "any_lst src name = bind_res (search1 (seqs [lit (name @ ''=''), quoted_rx]) src) (\<lambda>t. Inr (words_of t))"

text \<open>\<open>for build in (.*?); do\<close>, the quoted builds in it, and each split at its first colon.\<close>

definition builds_rx :: rx where
  "builds_rx = seqs [lit ''for build in '', Group 1 (lazy dot), lit ''; do'']"

definition split_colon :: "str \<Rightarrow> (str \<times> str) res" where
  "split_colon b = (case cut '':'' b of None \<Rightarrow> Inl (ValueError b) | Some p \<Rightarrow> Inr p)"

definition builds :: "str \<Rightarrow> str list res" where
  "builds src = bind_res (search1 builds_rx src) (\<lambda>t. Inr (findall1 quoted_rx t))"

text \<open>\<open>-D\s*(\S+)\<close>\<close>

definition d_rx :: rx where
  "d_rx = seqs [lit ''-D'', star space, Group 1 (plus non_space)]"

definition defs :: "str \<Rightarrow> str" where
  "defs t = join '' '' (map (\<lambda>x. ''+define+'' @ x) (findall1 d_rx t))"

definition job_line :: "str \<Rightarrow> str \<Rightarrow> str \<Rightarrow> str \<Rightarrow> str \<Rightarrow> str" where
  "job_line tag tb sub stim d = join ''|'' [tag, tb, sub, stim, d]"

text \<open>The tag of a test in a build: the suffix with \<open>-\<close> doubled to underscores.\<close>

definition build_tag :: "str \<Rightarrow> str \<Rightarrow> str" where
  "build_tag t suffix = t @ replace_all ''-'' ''__'' suffix"

definition build_jobs :: "str \<Rightarrow> (str \<Rightarrow> str list) \<Rightarrow> str list \<Rightarrow> str list res" where
  "build_jobs tb tests_for bs =
     bind_res (map_res (\<lambda>b. bind_res (split_colon b) (\<lambda>(suffix, d).
       Inr (map (\<lambda>t. job_line (build_tag t suffix) tb ''submit.f'' t (defs d)) (tests_for suffix)))) bs)
       (\<lambda>ls. Inr (concat ls))"

subsection \<open>The job lists\<close>

definition periph_jobs :: "str \<Rightarrow> str list res" where
  "periph_jobs src =
     bind_res (any_lst src ''TESTS'') (\<lambda>tests.
       bind_res (builds src) (\<lambda>bs. build_jobs ''tb_ahb_periph_example'' (\<lambda>suffix. tests) bs))"

definition rom_jobs :: "str \<Rightarrow> str list res" where
  "rom_jobs src =
     bind_res (lst src ''TESTS'') (\<lambda>tests.
       bind_res (lst src ''SMALL_TESTS'') (\<lambda>small.
         bind_res (builds src) (\<lambda>bs.
           build_jobs ''tb_ahb_rom_controller'' (\<lambda>suffix. if suffix = ''-mem8'' then small else tests) bs)))"

definition sram_jobs :: "str \<Rightarrow> str list res" where
  "sram_jobs src =
     bind_res (lst src ''TESTS'') (\<lambda>tests.
       bind_res (lst src ''SMALL_TESTS'') (\<lambda>small.
         bind_res (builds src) (\<lambda>bs.
           build_jobs ''tb_ahb_sram_controller'' (\<lambda>suffix. if suffix = ''-mem8'' then small else tests) bs)))"

text \<open>\<open>out\<close> is what \<open>rtl_configs_defines.py\<close> prints; its failure raises.\<close>

definition csr_jobs :: "str \<Rightarrow> str res \<Rightarrow> str list res" where
  "csr_jobs src out =
     bind_res (lst src ''FIXED_TESTS'') (\<lambda>fixed.
       bind_res (lst src ''SWEEP_TESTS'') (\<lambda>sweep.
         bind_res (builds src) (\<lambda>bs.
           bind_res (build_jobs ''tb_arv_custom_csr'' (\<lambda>suffix. fixed) bs) (\<lambda>fixed_jobs.
             case out of
               Inl e \<Rightarrow> Inl CalledProcessError
             | Inr t \<Rightarrow>
                 bind_res (map_res split_colon (splitlines t)) (\<lambda>rows.
                   Inr (fixed_jobs @ concat (map (\<lambda>(label, d).
                     map (\<lambda>s. job_line (s @ ''__'' @ label) ''tb_arv_custom_csr'' ''submit.f'' s (defs d)) sweep)
                     rows)))))))"

text \<open>\<open>ahb_interconnect\<close>: one job per line of the script that runs something.\<close>

type_synonym job = "str \<times> str \<times> str \<times> str \<times> str list"

definition runsim_rx :: rx where
  "runsim_rx = seqs [lit ''../bin/runsim'', plus space, Group 1 (plus word_char),
     Group 2 (star (seqs [plus space, lit ''-'', plus word_char]))]"

definition unit_run_rx :: rx where
  "unit_run_rx = seqs [lit ''./run_'',
     Group 1 (alts [lit ''default_subordinate'', lit ''fused_rom'', lit ''fused_sram'']),
     star space, Group 2 (star word_char)]"

definition sim_defines :: "str list \<Rightarrow> bool \<Rightarrow> str list" where
  "sim_defines opts sync =
     [if ''-hiperf'' \<in> set opts then ''HIPERF'' else if ''-fused'' \<in> set opts then ''FUSED'' else ''GENERIC'',
      if ''-random_ws'' \<in> set opts then ''RANDOM_WS'' else ''ZERO_WS''] @
     (if ''-fixed_b_prio'' \<in> set opts then [''FUSED_FIXED_B_PRIO''] else []) @
     (if ''-arb_parked'' \<in> set opts then [''ARB_PARKED_GRANT''] else []) @
     (if sync then [''ASYNC_RST_EN=0''] else [])"

definition sim_job :: "str \<Rightarrow> str list \<Rightarrow> job" where
  "sim_job test d =
     (join ''__'' (test # map (\<lambda>x. lower (before ''='' x)) d), ''tb_ahb_interconnect'', ''submit.f'', test, d)"

definition unit_top :: "str \<Rightarrow> str" where
  "unit_top u = (if u = ''default_subordinate'' then ''tb_ahb_default_subordinate''
     else if u = ''fused_rom'' then ''tb_ahb_fused_rom_ctrl'' else ''tb_ahb_fused_sram_ctrl'')"

definition unit_job :: "str \<Rightarrow> str \<Rightarrow> job" where
  "unit_job u sel0 =
     (let sel = (if sel0 = [] then ''rr'' else sel0)
      in (''unit_'' @ u @ ''_'' @ sel, unit_top u, ''submit_'' @ u @ ''.f'', ''-'',
          if sel = ''fixb'' then [''FUSED_FIXED_B_PRIO''] else []))"

definition sync_on :: str where
  "sync_on = ''export SIM_EXTRA_DEFINES='' @ [dquote] @ ''-D ASYNC_RST_EN=0'' @ [dquote]"

definition script_line :: "str \<Rightarrow> job list \<times> bool \<Rightarrow> job list \<times> bool" where
  "script_line line acc =
     (let s = strip line
      in case acc of (jobs, sync0) \<Rightarrow>
        if startswith s ''#'' then (jobs, sync0)
        else
          (let sync = (if contains s sync_on then True
                       else if startswith s ''unset SIM_EXTRA_DEFINES'' then False else sync0)
           in case re_match runsim_rx s of
                Some m \<Rightarrow>
                  (jobs @ [sim_job (group_text m 1) (sim_defines (split_ws (group_text m 2)) sync)], sync)
              | None \<Rightarrow>
                  (case re_match unit_run_rx s of
                     Some m \<Rightarrow> (jobs @ [unit_job (group_text m 1) (group_text m 2)], sync)
                   | None \<Rightarrow> (jobs, sync))))"

definition define_args :: "str list \<Rightarrow> str" where
  "define_args d = join '' '' (map (\<lambda>x. ''+define+'' @ x) d)"

fun print_jobs :: "str list \<Rightarrow> job list \<Rightarrow> str list" where
  "print_jobs seen [] = []"
| "print_jobs seen ((tag, tb, sub, stim, d) # js) =
     (if tag \<in> set seen then print_jobs seen js
      else job_line tag tb sub stim (define_args d) # print_jobs (tag # seen) js)"

definition interconnect_jobs :: "str \<Rightarrow> str list" where
  "interconnect_jobs script = print_jobs [] (fst (fold script_line (file_lines script) ([], False)))"

subsection \<open>The parameterisations\<close>

datatype pvalue = IntV int | StrV str

type_synonym vparams = "(str \<times> pvalue) list"

definition put_all :: "vparams \<Rightarrow> vparams \<Rightarrow> vparams" where
  "put_all d kvs = fold (\<lambda>(k, v) e. AList.update k v e) kvs d"

definition ints :: "params \<Rightarrow> vparams" where
  "ints ps = map (\<lambda>(k, v). (k, IntV v)) ps"

text \<open>The bench defines of a simulation configuration mapped onto the parameters of the DUT.\<close>

definition dut_params :: "str \<Rightarrow> params \<Rightarrow> params \<Rightarrow> params" where
  "dut_params prefix bench defines =
     fold (\<lambda>(k, v) p.
       if startswith k prefix \<and> map_of p (drop (length prefix) k) \<noteq> None
       then AList.update (drop (length prefix) k) v p else p) defines bench"

fun first_of_each :: "params list \<Rightarrow> (str \<times> params) list \<Rightarrow> (str \<times> params) list" where
  "first_of_each seen [] = []"
| "first_of_each seen ((label, p) # ps) =
     (let key = sort p
      in if key \<in> set seen then first_of_each seen ps
         else (label, p) # first_of_each (key # seen) ps)"

definition swept_configs :: "str \<Rightarrow> params \<Rightarrow> sim_config list \<Rightarrow> (str \<times> params) list" where
  "swept_configs prefix bench cs =
     first_of_each [] (map (\<lambda>(label, defines, tests). (label, dut_params prefix bench defines)) cs)"

definition aclint_bench :: params where
  "aclint_bench = [(''NUM_HARTS'', 1), (''SU_MODE_EN'', 1), (''PRIV_CHECK_EN'', 1), (''LF_SYNC_EN'', 0),
     (''ASYNC_RST_EN'', 1)]"

definition aclint_coverage_configs :: "(str \<times> params) list" where
  "aclint_coverage_configs = swept_configs ''ACLINT_'' aclint_bench aclint_sim_configs"

definition plic_bench :: params where
  "plic_bench = [(''NUM_SOURCES'', 31), (''NUM_HARTS'', 1), (''SU_MODE_EN'', 1), (''PRIO_BITS'', 3),
     (''PRIV_CHECK_EN'', 1), (''ASYNC_RST_EN'', 1)]"

definition plic_coverage_configs :: "(str \<times> params) list" where
  "plic_coverage_configs = swept_configs ''PLIC_'' plic_bench plic_sim_configs"

text \<open>The three blocks that mirror their parameter table.\<close>

definition table_configs :: "rtl_configs \<Rightarrow> (str \<times> params) list res" where
  "table_configs tab =
     map_res (\<lambda>e. case e of Pair2 label ps \<Rightarrow> Inr (label, ps) | _ \<Rightarrow> Inl (ValueError ''unpack'')) (configs tab)"

definition periph_coverage_configs :: "(str \<times> params) list res" where
  "periph_coverage_configs = table_configs ahb_periph_example_configs"

definition rom_coverage_configs :: "(str \<times> params) list res" where
  "rom_coverage_configs = table_configs ahb_rom_controller_configs"

definition sram_coverage_configs :: "(str \<times> params) list res" where
  "sram_coverage_configs = table_configs ahb_sram_controller_configs"

definition interconnect_coverage_configs :: "(str \<times> vparams \<times> str) list" where
  "interconnect_coverage_configs =
     (let gen = [(''NR_M'', IntV 3), (''NR_S'', IntV 4), (''HAUSER_W'', IntV 1),
            (''M_HMASTER_TAG'', StrV (''12'' @ [CHR 0x27] @ ''h080''))];
          hip = [(''NR_M'', IntV 2), (''NR_S_X'', IntV 2), (''NR_S_NX'', IntV 2), (''HAUSER_W'', IntV 1),
            (''M_NX_HMASTER_TAG'', StrV (''8'' @ [CHR 0x27] @ ''h08''))];
          fus = [(''NR_M'', IntV 2), (''NR_S_X_ROM'', IntV 1), (''NR_S_X_SRAM'', IntV 1), (''NR_S_NX'', IntV 2),
            (''HAUSER_W'', IntV 1), (''M_NX_HMASTER_TAG'', StrV (''8'' @ [CHR 0x27] @ ''h08''))]
      in concat (map (\<lambda>arst.
            [(''generic_arst'' @ int_str arst, put_all gen [(''ASYNC_RST_EN'', IntV arst)], ''ahb_interconnect_generic''),
             (''hiperf_arst'' @ int_str arst, put_all hip [(''ASYNC_RST_EN'', IntV arst)], ''ahb_interconnect_hiperf''),
             (''fused_arst'' @ int_str arst, put_all fus [(''ASYNC_RST_EN'', IntV arst), (''FIXED_B_PRIO'', IntV 0)],
              ''ahb_interconnect_fused'')]) [1, 0]) @
         [(''fused_fixb'', put_all fus [(''ASYNC_RST_EN'', IntV 1), (''FIXED_B_PRIO'', IntV 1)], ''ahb_interconnect_fused''),
          (''unit_dflt_sub'', [], ''ahb_default_subordinate'')] @
         concat (map (\<lambda>fb.
            [(''unit_rom_fb'' @ int_str fb, [(''FIXED_B_PRIO'', IntV fb)], ''ahb_fused_rom_ctrl''),
             (''unit_sram_fb'' @ int_str fb, [(''FIXED_B_PRIO'', IntV fb)], ''ahb_fused_sram_ctrl'')]) [0, 1]))"

definition verilog_lit :: "str \<Rightarrow> str \<Rightarrow> pvalue" where
  "verilog_lit width digits = StrV (width @ [CHR 0x27] @ digits)"

definition dtm_bench :: vparams where
  "dtm_bench = [(''IDCODE_BASE'', verilog_lit ''28'' ''h00001F7''), (''IDLE_HINT'', verilog_lit ''3'' ''d3''),
     (''I2C_ADDR'', verilog_lit ''7'' ''h30''), (''ARST_EN'', verilog_lit ''1'' ''b1''),
     (''AB_BREAK_CLKS'', verilog_lit ''32'' ''d700''), (''UART_RX_FIFO_DEPTH'', IntV 32)]"

definition dtm_coverage_configs :: "(str \<times> vparams) list" where
  "dtm_coverage_configs =
     [(''jtag'', put_all dtm_bench [(''DTM_TYPE'', IntV 0)]),
      (''jtag_idcode_alt'', put_all dtm_bench [(''DTM_TYPE'', IntV 0), (''IDCODE_BASE'', verilog_lit ''28'' ''hAAAAAAB'')]),
      (''uart'', put_all dtm_bench [(''DTM_TYPE'', IntV 1)]),
      (''uart_slow_baud'', put_all dtm_bench [(''DTM_TYPE'', IntV 1), (''AB_BREAK_CLKS'', verilog_lit ''32'' ''d65536'')]),
      (''i2c'', put_all dtm_bench [(''DTM_TYPE'', IntV 2)]),
      (''cjtag'', put_all dtm_bench [(''DTM_TYPE'', IntV 3)])]"

text \<open>\<open>arv_custom_csr\<close>: the register counts of the bench text, and the printed sweep lines.\<close>

definition bench_rx :: rx where
  "bench_rx = seqs [lit ''`define'', plus space, Group 1 (Seq (lit ''NR_'') (plus word_char)), plus space,
     Group 2 (plus digit)]"

definition d_value_rx :: rx where
  "d_value_rx = seqs [lit ''-D'', star space, Group 1 (plus word_char), lit ''='', Group 2 (plus digit)]"

definition found_params :: "rx \<Rightarrow> str \<Rightarrow> params res" where
  "found_params r t =
     fold_res (\<lambda>(s, m) d. case py_int (group_text m 2) of
         None \<Rightarrow> Inl (ValueError (group_text m 2))
       | Some v \<Rightarrow> Inr (AList.update (group_text m 1) v d)) (re_finditer r t) []"

definition csr_coverage_configs :: "str \<Rightarrow> str res \<Rightarrow> (str \<times> params) list res" where
  "csr_coverage_configs tb out =
     bind_res (found_params bench_rx tb) (\<lambda>bench.
       case out of
         Inl e \<Rightarrow> Inl CalledProcessError
       | Inr t \<Rightarrow>
           bind_res (map_res (\<lambda>line. bind_res (split_colon line) (\<lambda>(label, d).
               bind_res (found_params d_value_rx d) (\<lambda>p. Inr (label, p)))) (splitlines t)) (\<lambda>rows.
             Inr ([(''bench_default'', AList.update ''ASYNC_RST_EN'' 1 bench),
                   (''bench_sync'', AList.update ''ASYNC_RST_EN'' 0 bench)] @ rows)))"

subsection \<open>Nothing the sweep builds is left out\<close>

lemma first_of_each_covers:
  "q \<in> set ps \<Longrightarrow> sort (snd q) \<in> set seen \<or> (\<exists>r \<in> set (first_of_each seen ps). sort (snd r) = sort (snd q))"
proof (induction seen ps rule: first_of_each.induct)
  case (2 seen label p ps)
  then show ?case by (auto simp: Let_def)
qed simp

lemma first_of_each_fresh:
  "r \<in> set (first_of_each seen ps) \<Longrightarrow> sort (snd r) \<notin> set seen"
proof (induction seen ps rule: first_of_each.induct)
  case (2 seen label p ps)
  then show ?case by (cases "sort p \<in> set seen") auto
qed simp

lemma first_of_each_distinct:
  "distinct (map (sort \<circ> snd) (first_of_each seen ps))"
proof (induction seen ps rule: first_of_each.induct)
  case (2 seen label p ps)
  show ?case
  proof (cases "sort p \<in> set seen")
    case False
    then have distinct: "distinct (map (sort \<circ> snd) (first_of_each (sort p # seen) ps))"
      by (rule 2(2) [OF refl])
    have "sort p \<notin> set (map (sort \<circ> snd) (first_of_each (sort p # seen) ps))"
    proof
      assume "sort p \<in> set (map (sort \<circ> snd) (first_of_each (sort p # seen) ps))"
      then obtain r where r: "r \<in> set (first_of_each (sort p # seen) ps)" "sort p = sort (snd r)"
        by (auto simp only: set_map image_iff o_apply)
      from first_of_each_fresh [OF r(1)] r(2) show False by simp
    qed
    with distinct False show ?thesis by (simp add: comp_def)
  qed (use 2 in simp)
qed simp

lemma first_of_each_subset: "set (first_of_each seen ps) \<subseteq> set ps"
  by (induction seen ps rule: first_of_each.induct) (auto simp: Let_def)

text \<open>
  What a simulation builds, read off the test benches instead of the scripts: the macros
  \<open>tb_ahb_aclint.v\<close> and \<open>tb_ahb_plic.v\<close> define unless the command line does, and the macro each
  parameter of the device is set from.
\<close>

definition aclint_tb_macros :: params where
  "aclint_tb_macros = [(''ACLINT_NUM_HARTS'', 1), (''ACLINT_SU_MODE_EN'', 1), (''ACLINT_PRIV_CHECK_EN'', 1),
     (''ACLINT_LF_HALF_PERIOD'', 250), (''ACLINT_LF_SYNC_EN'', 0), (''ACLINT_ASYNC_RST_EN'', 1)]"

definition aclint_tb_params :: "(str \<times> str) list" where
  "aclint_tb_params = [(''NUM_HARTS'', ''ACLINT_NUM_HARTS''), (''SU_MODE_EN'', ''ACLINT_SU_MODE_EN''),
     (''PRIV_CHECK_EN'', ''ACLINT_PRIV_CHECK_EN''), (''LF_SYNC_EN'', ''ACLINT_LF_SYNC_EN''),
     (''ASYNC_RST_EN'', ''ACLINT_ASYNC_RST_EN'')]"

definition plic_tb_macros :: params where
  "plic_tb_macros = [(''PLIC_NUM_SOURCES'', 31), (''PLIC_NUM_HARTS'', 1), (''PLIC_SU_MODE_EN'', 1),
     (''PLIC_PRIO_BITS'', 3), (''PLIC_PRIV_CHECK_EN'', 1), (''PLIC_ASYNC_RST_EN'', 1)]"

definition plic_tb_params :: "(str \<times> str) list" where
  "plic_tb_params = [(''NUM_SOURCES'', ''PLIC_NUM_SOURCES''), (''NUM_HARTS'', ''PLIC_NUM_HARTS''),
     (''SU_MODE_EN'', ''PLIC_SU_MODE_EN''), (''PRIO_BITS'', ''PLIC_PRIO_BITS''),
     (''PRIV_CHECK_EN'', ''PLIC_PRIV_CHECK_EN''), (''ASYNC_RST_EN'', ''PLIC_ASYNC_RST_EN'')]"

definition built_value :: "params \<Rightarrow> (str \<times> str) list \<Rightarrow> params \<Rightarrow> str \<Rightarrow> int option" where
  "built_value macros pars defines n =
     (case map_of pars n of
        None \<Rightarrow> None
      | Some m \<Rightarrow> (case map_of defines m of Some v \<Rightarrow> Some v | None \<Rightarrow> map_of macros m))"

lemma dut_params_snoc:
  "dut_params prefix bench (ds @ [(k, v)]) =
     (let p = dut_params prefix bench ds
      in if startswith k prefix \<and> map_of p (drop (length prefix) k) \<noteq> None then AList.update (drop (length prefix) k) v p else p)"
  by (simp add: dut_params_def Let_def)

lemma dut_params_dom: "map_of (dut_params prefix bench ds) x = None \<longleftrightarrow> map_of bench x = None"
proof (induction ds rule: rev_induct)
  case (snoc kv ds)
  then show ?case by (cases kv) (auto simp: dut_params_snoc Let_def update_conv' simp del: not_None_eq)
qed (simp add: dut_params_def)

lemma map_of_dut_params:
  "map_of (dut_params prefix bench ds) n =
     (case map_of bench n of None \<Rightarrow> None | Some d \<Rightarrow> (case map_of (rev ds) (prefix @ n) of None \<Rightarrow> Some d | Some v \<Rightarrow> Some v))"
proof (induction ds rule: rev_induct)
  case (snoc kv es)
  then show ?case
    by (cases kv) (auto simp: dut_params_snoc Let_def update_conv' startswith_iff dut_params_dom split: option.splits simp del: not_None_eq)
qed (simp add: dut_params_def split: option.splits)

lemma dut_params_keys: "distinct (map fst bench) \<Longrightarrow> distinct (map fst (dut_params prefix bench ds))"
proof (induction ds rule: rev_induct)
  case (snoc kv ds)
  then show ?case by (cases kv) (auto simp: dut_params_snoc Let_def distinct_update)
qed (simp add: dut_params_def)

text \<open>The bench parameters of the script are those of the test bench.\<close>

definition mirrors :: "str \<Rightarrow> params \<Rightarrow> params \<Rightarrow> (str \<times> str) list \<Rightarrow> bool" where
  "mirrors prefix bench macros pars \<longleftrightarrow>
     distinct (map fst bench) \<and> pars = map (\<lambda>(n, d). (n, prefix @ n)) bench \<and>
     list_all (\<lambda>(n, d). map_of macros (prefix @ n) = Some d) bench"

lemma dut_params_built:
  assumes "mirrors prefix bench macros pars" and "distinct (map fst defines)"
  shows "map_of (dut_params prefix bench defines) = built_value macros pars defines"
proof
  fix n
  have "map_of pars n = map_option (\<lambda>d. prefix @ n) (map_of bench n)"
    using assms(1) by (induction bench arbitrary: pars) (auto simp: mirrors_def)
  moreover have "map_of macros (prefix @ n) = Some d" if "map_of bench n = Some d" for d
    using assms(1) map_of_SomeD [OF that] by (auto simp: mirrors_def list_all_iff)
  moreover have "map_of (rev defines) = map_of defines"
    using assms(2) by (simp add: map_of_inject_set rev_map [symmetric])
  ultimately show "map_of (dut_params prefix bench defines) n = built_value macros pars defines n"
    by (auto simp: map_of_dut_params built_value_def split: option.splits)
qed

lemma sort_eq_map_of:
  assumes "distinct (map fst p)" "distinct (map fst q)"
  shows "sort p = sort q \<longleftrightarrow> map_of p = map_of q"
proof
  assume "sort p = sort q"
  then have "set p = set q" by (metis set_sort)
  with assms show "map_of p = map_of q" by (simp add: map_of_inject_set)
next
  assume "map_of p = map_of q"
  with assms have "set p = set q" by (simp add: map_of_inject_set)
  with assms show "sort p = sort q"
    by (intro sorted_distinct_set_unique) (simp_all add: distinct_map)
qed

lemma first_of_each_maps:
  assumes "\<forall>c \<in> set ps. distinct (map fst (snd c))"
  defines "found \<equiv> first_of_each [] ps"
  shows "distinct (map (map_of \<circ> snd) found)" and "c \<in> set ps \<Longrightarrow> \<exists>d \<in> set found. map_of (snd d) = map_of (snd c)"
proof -
  have sub: "c \<in> set ps" if "c \<in> set found" for c using that first_of_each_subset unfolding found_def by blast
  have same: "sort (snd c) = sort (snd d) \<longleftrightarrow> map_of (snd c) = map_of (snd d)" if "c \<in> set ps" "d \<in> set ps" for c d
    using assms(1) that by (intro sort_eq_map_of) blast+
  have once: "distinct (map (sort \<circ> snd) found)" unfolding found_def by (rule first_of_each_distinct)
  then have inj: "inj_on (sort \<circ> snd) (set found)" unfolding distinct_map by blast
  have "inj_on (map_of \<circ> snd) (set found)"
  proof (rule inj_onI)
    fix c d assume cd: "c \<in> set found" "d \<in> set found" "(map_of \<circ> snd) c = (map_of \<circ> snd) d"
    then have "(sort \<circ> snd) c = (sort \<circ> snd) d" using same sub by simp
    with inj cd(1,2) show "c = d" by (blast dest: inj_onD)
  qed
  with once show "distinct (map (map_of \<circ> snd) found)" unfolding distinct_map by blast
  show "\<exists>d \<in> set found. map_of (snd d) = map_of (snd c)" if "c \<in> set ps"
    using first_of_each_covers [OF that, of "[]"] same [OF _ that] sub unfolding found_def by fastforce
qed

lemma swept_built:
  assumes "mirrors prefix bench macros pars" and "list_all (\<lambda>(label, defines, tests). distinct (map fst defines)) table"
  defines "found \<equiv> swept_configs prefix bench table"
  shows "\<forall>(label, defines, tests) \<in> set table. \<exists>(l, p) \<in> set found. map_of p = built_value macros pars defines"
    and "\<forall>(l, p) \<in> set found. \<exists>(label, defines, tests) \<in> set table. label = l \<and> map_of p = built_value macros pars defines"
    and "distinct (map (map_of \<circ> snd) found)"
proof -
  let ?ps = "map (\<lambda>(label, defines, tests). (label, dut_params prefix bench defines)) table"
  have keys: "\<forall>c \<in> set ?ps. distinct (map fst (snd c))"
    using assms(1) by (auto simp: mirrors_def dut_params_keys)
  have found: "found = first_of_each [] ?ps" by (simp add: found_def swept_configs_def)
  have as_built: "map_of (dut_params prefix bench ds) = built_value macros pars ds" if "(l, ds, ts) \<in> set table" for l ds ts
    using assms(2) that by (intro dut_params_built [OF assms(1)]) (auto simp: list_all_iff)
  show "distinct (map (map_of \<circ> snd) found)" unfolding found by (rule first_of_each_maps [OF keys])
  have "\<exists>(label, defines, tests) \<in> set table. label = l \<and> map_of p = built_value macros pars defines" if "(l, p) \<in> set found" for l p
  proof -
    have "(l, p) \<in> set ?ps" using that first_of_each_subset [of "[]" ?ps] unfolding found by blast
    then obtain ds ts where "(l, ds, ts) \<in> set table" "p = dut_params prefix bench ds" by auto
    with as_built show ?thesis by (intro bexI [of _ "(l, ds, ts)"]) auto
  qed
  then show "\<forall>(l, p) \<in> set found. \<exists>(label, defines, tests) \<in> set table. label = l \<and> map_of p = built_value macros pars defines"
    by blast
  have "\<exists>(l, p) \<in> set found. map_of p = built_value macros pars ds" if "(label, ds, ts) \<in> set table" for label ds ts
  proof -
    have "(label, dut_params prefix bench ds) \<in> set ?ps" using that by force
    from first_of_each_maps(2) [OF keys this] as_built [OF that] show ?thesis unfolding found by force
  qed
  then show "\<forall>(label, defines, tests) \<in> set table. \<exists>(l, p) \<in> set found. map_of p = built_value macros pars defines" by blast
qed

lemma benches_mirrored:
  "mirrors ''ACLINT_'' aclint_bench aclint_tb_macros aclint_tb_params"
  "mirrors ''PLIC_'' plic_bench plic_tb_macros plic_tb_params"
  "list_all (\<lambda>(label, defines, tests). distinct (map fst defines)) aclint_sim_configs"
  "list_all (\<lambda>(label, defines, tests). distinct (map fst defines)) plic_sim_configs"
  by code_simp+

text \<open>
  C21. The constant search of \<open>ahb_aclint\<close> and \<open>ahb_plic\<close> elaborates exactly the parameterisations
  the simulation sweep builds: for every entry of the simulation table there is one in which every
  parameter of the device has the value the test bench gives it in that build, each one stems from a
  build that carries its label, and no two of them agree in all parameters.
\<close>

theorem constants_see_every_build:
  "list_all (\<lambda>(macros, pars, table, found).
     list_all (\<lambda>(label, defines, tests). list_ex (\<lambda>(l, p). map_of p = built_value macros pars defines) found) table \<and>
     list_all (\<lambda>(l, p). list_ex (\<lambda>(label, defines, tests). label = l \<and> map_of p = built_value macros pars defines) table) found \<and>
     distinct (map (map_of \<circ> snd) found))
   [(aclint_tb_macros, aclint_tb_params, aclint_sim_configs, aclint_coverage_configs),
    (plic_tb_macros, plic_tb_params, plic_sim_configs, plic_coverage_configs)]"
proof -
  note aclint = swept_built [OF benches_mirrored(1,3), folded aclint_coverage_configs_def]
    and plic = swept_built [OF benches_mirrored(2,4), folded plic_coverage_configs_def]
  show ?thesis unfolding list.pred_inject(2) prod.case list_all_iff [of _ "_ :: sim_config list"]
    list_all_iff [of _ "_ :: (str \<times> params) list"] list_ex_iff by (intro conjI TrueI list.pred_inject(1) aclint plic)
qed

text \<open>No job is printed twice.\<close>

lemma print_jobs_mem:
  "l \<in> set (print_jobs seen js) \<Longrightarrow> \<exists>j \<in> set js. fst j \<notin> set seen \<and>
     (case j of (tag, tb, sub, stim, d) \<Rightarrow>
        l = job_line tag tb sub stim (define_args d))"
proof (induction seen js rule: print_jobs.induct)
  case (2 seen tag tb sub stim d js)
  show ?case
  proof (cases "tag \<in> set seen")
    case True
    with 2 show ?thesis by simp
  next
    case False
    with 2 show ?thesis by auto
  qed
qed simp

end
