(* ===== verification/ConstText.thy ===== *)
theory ConstText
  imports PyRegex
begin

text \<open>
  The text parser of \<open>cov_const.py\<close>, used when Yosys is not installed: the class \<open>Source\<close> (drivers,
  widths and parameter names of one RTL file) and the reader of sized concatenations, which flags
  every bit of an expression as constant or not. The reader calls itself through its elements;
  Python's recursion limit is the fuel of the two functions, and twice the length of the expression
  is always enough of it.
\<close>

subsection \<open>Sources\<close>

definition block_comment_rx :: rx where
  "block_comment_rx = seqs [lit ''/*'', lazy any_char, lit ''*/'']"

definition line_comment_rx :: rx where
  "line_comment_rx = seqs [lit ''//'', star (none_of [nl])]"

definition strip_comments :: "str \<Rightarrow> str" where
  "strip_comments t =
     re_sub line_comment_rx (\<lambda>m. [])
       (re_sub block_comment_rx (\<lambda>m. map (\<lambda>c. if c = nl then nl else CHR '' '') (whole m)) t)"

text \<open>The digits of a group, as a number.\<close>

definition group_nat :: "mst \<Rightarrow> nat \<Rightarrow> nat" where
  "group_nat m g = (case py_nat (group_text m g) of None \<Rightarrow> 0 | Some n \<Rightarrow> n)"

text \<open>\<open>\b(?:parameter|localparam)\b[^;=]*?\b(\w+)\s*=\<close>\<close>

definition param_rx :: rx where
  "param_rx = seqs [WordB, alts [lit ''parameter'', lit ''localparam''], WordB, lazy (none_of '';=''),
     WordB, Group 1 (plus word_char), star space, lit ''='']"

text \<open>The declarations, with an optional range of two numbers.\<close>

definition decl_rx :: rx where
  "decl_rx = seqs [WordB, alts [lit ''wire'', lit ''reg'', lit ''input'', lit ''output'', lit ''inout''], WordB,
     star (seqs [plus space, alts [lit ''wire'', lit ''reg'', lit ''signed'']]), star space,
     opt (seqs [lit ''['', star space, Group 1 (plus digit), star space, lit '':'', star space,
       Group 2 (plus digit), star space, lit '']'']),
     star space, Group 3 (plus word_char)]"

definition generate_rx :: rx where
  "generate_rx = seqs [WordB, lit ''generate'', WordB, lazy any_char, WordB, lit ''endgenerate'', WordB]"

text \<open>\<open>\bassign\s+(\w+)\s*=\s*([^;]*);\<close> and the net declaration assignment.\<close>

definition assign_rx :: rx where
  "assign_rx = seqs [WordB, lit ''assign'', plus space, Group 1 (plus word_char), star space, lit ''='',
     star space, Group 2 (star (none_of '';'')), lit '';'']"

definition wire_rx :: rx where
  "wire_rx = seqs [WordB, lit ''wire'', WordB, opt (Seq (plus space) (lit ''signed'')), star space,
     opt (seqs [lit ''['', star (none_of '']''), lit '']'']), star space, Group 1 (plus word_char), star space,
     lit ''='', star space, Group 2 (star (none_of '';'')), lit '';'']"

record source =
  s_text :: str
  s_lines :: "str list"
  s_params :: "str list"
  s_widths :: "(str \<times> int \<times> int) list"
  s_gen :: "(nat \<times> nat) list"
  s_drivers :: "(str \<times> (nat \<times> str) list) list"

definition line_no :: "str \<Rightarrow> nat \<Rightarrow> nat" where
  "line_no t p = length (filter (\<lambda>c. c = nl) (take p t)) + 1"

definition decl_width :: "mst \<times> mst \<Rightarrow> (str \<times> int \<times> int) list \<Rightarrow> (str \<times> int \<times> int) list" where
  "decl_width sm ws =
     (let m = snd sm; name = group_text m 3
      in if map_of ws name \<noteq> None then ws
         else ws @ [(name, if group m 1 = None then (0, 0) else (int (group_nat m 1), int (group_nat m 2)))])"

definition driver_of :: "str \<Rightarrow> mst \<times> mst \<Rightarrow> str \<times> nat \<times> str" where
  "driver_of t sm = (group_text (snd sm) 1, line_no t (pos (fst sm)), group_text (snd sm) 2)"

definition read_source :: "str \<Rightarrow> source" where
  "read_source raw =
     (let t = strip_comments raw
      in \<lparr>s_text = t, s_lines = split_nl raw,
          s_params = remdups (map (\<lambda>sm. group_text (snd sm) 1) (re_finditer param_rx t)),
          s_widths = fold decl_width (re_finditer decl_rx t) [],
          s_gen = map (\<lambda>sm. (line_no t (pos (fst sm)), line_no t (pos (snd sm)))) (re_finditer generate_rx t),
          s_drivers = group_by fst snd
            (map (driver_of t) (re_finditer assign_rx t) @ map (driver_of t) (re_finditer wire_rx t))\<rparr>)"

definition drivers_of :: "source \<Rightarrow> str \<Rightarrow> (nat \<times> str) list" where
  "drivers_of src name = (case map_of (s_drivers src) name of None \<Rightarrow> [] | Some ds \<Rightarrow> ds)"

definition width_of :: "source \<Rightarrow> str \<Rightarrow> int \<times> int" where
  "width_of src name = (case map_of (s_widths src) name of None \<Rightarrow> (0, 0) | Some w \<Rightarrow> w)"

definition in_generate :: "source \<Rightarrow> nat \<Rightarrow> bool" where
  "in_generate src line = (\<exists>(lo, hi) \<in> set (s_gen src). lo \<le> line \<and> line \<le> hi)"

text \<open>\<open>\b(?:assign|wire)\b[^;]*;\<close> is dropped; what is left assigns \<open>name\<close> in a process.\<close>

definition continuous_rx :: rx where
  "continuous_rx = seqs [WordB, alts [lit ''assign'', lit ''wire''], WordB, star (none_of '';''), lit '';'']"

definition assigned_rx :: "str \<Rightarrow> rx" where
  "assigned_rx name = seqs [WordB, lit name, WordB,
     opt (seqs [star space, lit ''['', star (none_of '']''), lit '']'']), star space, opt (lit ''<''), lit ''='',
     NotAhead (lit ''='')]"

definition procedurally_assigned :: "source \<Rightarrow> str \<Rightarrow> bool" where
  "procedurally_assigned src name \<longleftrightarrow>
     re_search (assigned_rx name) (re_sub continuous_rx (\<lambda>m. []) (s_text src)) \<noteq> None"

subsection \<open>Concatenations\<close>

definition opens :: "char \<Rightarrow> bool" where
  "opens ch \<longleftrightarrow> ch \<in> set ''{([''"

definition closes :: "char \<Rightarrow> bool" where
  "closes ch \<longleftrightarrow> ch \<in> set ''})]''"

fun split_depth :: "int \<Rightarrow> str \<Rightarrow> str \<Rightarrow> str list" where
  "split_depth depth cur [] = [cur]"
| "split_depth depth cur (ch # s) =
     (let d = (if opens ch then depth + 1 else if closes ch then depth - 1 else depth)
      in if ch = CHR '','' \<and> d = 0 then cur # split_depth d [] s else split_depth d (cur @ [ch]) s)"

definition split_top :: "str \<Rightarrow> str list" where
  "split_top s = map strip (split_depth 0 [] s)"

text \<open>\<open>LIT\<close>\<close>

definition lit_rx :: rx where
  "lit_rx = seqs [Bol, Group 1 (plus digit), star space, lit [CHR 0x27], star space, opt (one_of ''sS''),
     one_of ''bBoOdDhH'', star space, plus (one_of ''0123456789abcdefABCDEF_xXzZ?''), Eol]"

text \<open>\<open>^\{\s*(\d+)\s*\{(.*)\}\s*\}$\<close> under \<open>re.S\<close>, and the two openings of a replication.\<close>

definition replication_rx :: rx where
  "replication_rx = seqs [Bol, lit ''{'', star space, Group 1 (plus digit), star space, lit ''{'',
     Group 2 (star any_char), lit ''}'', star space, lit ''}'', Eol]"

definition count_open_rx :: rx where
  "count_open_rx = seqs [Bol, star space, plus digit, star space, lit ''{'']"

definition brace_count_rx :: rx where
  "brace_count_rx = seqs [Bol, lit ''{'', star space, plus digit, star space, lit ''{'']"

definition range_rx :: rx where
  "range_rx = seqs [Bol, Group 1 (plus word_char), star space, lit ''['', star space, Group 2 (plus digit),
     star space, lit '':'', star space, Group 3 (plus digit), star space, lit '']'', Eol]"

definition index_rx :: rx where
  "index_rx = seqs [Bol, Group 1 (plus word_char), star space, lit ''['', star space, Group 2 (plus digit),
     star space, lit '']'', Eol]"

definition name_rx :: rx where
  "name_rx = seqs [Bol, Group 1 (plus word_char), Eol]"

definition braced :: "str \<Rightarrow> bool" where
  "braced e \<longleftrightarrow> startswith e ''{'' \<and> endswith e ''}''"

definition inner_of :: "mst \<Rightarrow> str" where
  "inner_of m = ''{'' @ group_text m 2 @ ''}''"

text \<open>\<open>[x] * n\<close>, empty for a negative \<open>n\<close>.\<close>

definition times :: "int \<Rightarrow> 'a list \<Rightarrow> 'a list" where
  "times n xs = concat (replicate (nat n) xs)"

type_synonym element = "int \<times> bool option"

text \<open>The part of \<open>elem\<close> that does not recurse.\<close>

definition simple_elem :: "source \<Rightarrow> str \<Rightarrow> element option" where
  "simple_elem src e =
     (case re_match range_rx e of
        Some m \<Rightarrow> Some (\<bar>int (group_nat m 2) - int (group_nat m 3)\<bar> + 1, Some (group_text m 1 \<in> set (s_params src)))
      | None \<Rightarrow>
          (case re_match index_rx e of
             Some m \<Rightarrow> Some (1, Some (group_text m 1 \<in> set (s_params src)))
           | None \<Rightarrow>
               (case re_match name_rx e of
                  None \<Rightarrow> None
                | Some m \<Rightarrow>
                    (let name = group_text m 1
                     in case map_of (s_widths src) name of
                          None \<Rightarrow> None
                        | Some (hi, lo) \<Rightarrow>
                            if name \<in> set (s_params src) then None else Some (hi - lo + 1, Some False)))))"

function (sequential) elem :: "nat \<Rightarrow> source \<Rightarrow> str \<Rightarrow> element option res"
  and concat_flags :: "nat \<Rightarrow> source \<Rightarrow> str \<Rightarrow> bool list option res"
  and concat_parts :: "nat \<Rightarrow> source \<Rightarrow> str list \<Rightarrow> bool list option res" where
  "elem 0 src e = Inl RecursionError"
| "elem (Suc n) src e0 =
     (let e = strip e0
      in case re_match lit_rx e of
           Some m \<Rightarrow> Inr (Some (int (group_nat m 1), Some True))
         | None \<Rightarrow>
             (case re_match replication_rx e of
                Some m \<Rightarrow>
                  bind_res (concat_flags n src (inner_of m)) (\<lambda>inner.
                    Inr (map_option (\<lambda>fs. (int (group_nat m 1) * int (length fs), Some (list_all id fs))) inner))
              | None \<Rightarrow>
                  if braced e then
                    bind_res (concat_flags n src e) (\<lambda>inner. Inr (map_option (\<lambda>fs. (int (length fs), None)) inner))
                  else Inr (simple_elem src e)))"
| "concat_flags 0 src expr = Inl RecursionError"
| "concat_flags (Suc n) src expr0 =
     (let expr = strip expr0
      in case re_match lit_rx expr of
           Some m \<Rightarrow> Inr (Some (replicate (group_nat m 1) True))
         | None \<Rightarrow>
             if \<not> braced expr then Inr None
             else
               (let body = butlast (tl expr)
                in case re_match replication_rx expr of
                     Some m \<Rightarrow>
                       bind_res (concat_flags n src (inner_of m)) (\<lambda>inner.
                         Inr (map_option (times (int (group_nat m 1))) inner))
                   | None \<Rightarrow>
                       if re_match count_open_rx body \<noteq> None then Inr None
                       else concat_parts n src (split_top body)))"
| "concat_parts n src [] = Inr (Some [])"
| "concat_parts n src (part # parts) =
     bind_res
       (if braced part \<and> re_match brace_count_rx part = None then concat_flags n src part
        else bind_res (elem n src part) (\<lambda>r. Inr (case r of
               None \<Rightarrow> None | Some (w, None) \<Rightarrow> None | Some (w, Some b) \<Rightarrow> Some (times w [b]))))
       (\<lambda>sub. case sub of
          None \<Rightarrow> Inr None
        | Some fs \<Rightarrow> bind_res (concat_parts n src parts) (\<lambda>r. Inr (map_option (\<lambda>gs. fs @ gs) r)))"
  by pat_completeness auto

termination
  by (relation "measures
    [\<lambda>x. case x of Inl (n, src, e) \<Rightarrow> n | Inr (Inl (n, src, e)) \<Rightarrow> n | Inr (Inr (n, src, ps)) \<Rightarrow> n,
     \<lambda>x. case x of Inl (n, src, e) \<Rightarrow> 0 | Inr (Inl (n, src, e)) \<Rightarrow> 0 | Inr (Inr (n, src, ps)) \<Rightarrow> Suc (length ps)]")
     auto

subsection \<open>The reader returns\<close>

primrec no_groups :: "rx \<Rightarrow> bool" where
  "no_groups Eps = True"
| "no_groups (Chr p) = True"
| "no_groups (Seq a b) = (no_groups a \<and> no_groups b)"
| "no_groups (Alt a b) = (no_groups a \<and> no_groups b)"
| "no_groups (Many g a) = no_groups a"
| "no_groups (Group g a) = False"
| "no_groups Bol = True"
| "no_groups BolM = True"
| "no_groups Eol = True"
| "no_groups EolM = True"
| "no_groups WordB = True"
| "no_groups (Ahead a) = no_groups a"
| "no_groups (NotAhead a) = True"

lemma outcome_rounds_groups:
  assumes "\<And>s t. t \<in> set (m s) \<Longrightarrow> groups t = groups s"
  shows "t \<in> set (outcome_rounds greedy m n s) \<Longrightarrow> groups t = groups s"
proof (induction n arbitrary: s)
  case (Suc n)
  then show ?case by (auto simp: Let_def split: if_splits dest!: assms)
qed simp

lemma outcomes_Seq: "t \<in> set (outcomes (Seq a b) s) \<longleftrightarrow> (\<exists>u \<in> set (outcomes a s). t \<in> set (outcomes b u))"
  by simp

lemma outcomes_groups: "no_groups r \<Longrightarrow> t \<in> set (outcomes r s) \<Longrightarrow> groups t = groups s"
proof (induction r arbitrary: s t)
  case (Seq a b)
  then obtain u where u: "u \<in> set (outcomes a s)" "t \<in> set (outcomes b u)" by (simp only: outcomes_Seq) blast
  have "groups t = groups u" by (rule Seq.IH(2)) (use Seq.prems u in simp_all)
  moreover have "groups u = groups s" by (rule Seq.IH(1)) (use Seq.prems u in simp_all)
  ultimately show ?case by simp
next
  case (Many greedy a)
  have "groups v = groups u" if "v \<in> set (outcomes a u)" for u v
    by (rule Many.IH) (use Many.prems that in simp_all)
  then show ?case using outcome_rounds_groups [of "outcomes a" t greedy "length (rest s)" s] Many.prems by simp
next
  case (Ahead a)
  then obtain u us where u: "outcomes a s = u # us" "t = s\<lparr>groups := groups u\<rparr>" by (cases "outcomes a s") auto
  have "groups u = groups s" by (rule Ahead.IH) (use Ahead.prems u in simp_all)
  then show ?case by (simp add: u)
qed (auto simp: step_char_def split: list.splits if_splits)

lemma re_match_outcomes: "re_match r t = Some m \<Longrightarrow> m \<in> set (outcomes r (at_start t))"
  by (auto simp: re_match_def run_Some split: list.splits)

lemma outcomes_length: "t \<in> set (outcomes r s) \<Longrightarrow> length (rest t) \<le> length (rest s)"
  using outcomes_reaches reaches_pos by blast

lemma outcomes_lit: "t \<in> set (outcomes (lit [c]) s) \<Longrightarrow> length (rest s) = Suc (length (rest t)) \<and> groups t = groups s"
  by (auto simp: step_char_def split: list.splits if_splits)

lemma outcomes_group:
  assumes "t \<in> set (outcomes (Group g r) s)"
  shows "length (rest s) = length (group_text t g) + length (rest t)"
proof -
  obtain u where u: "u \<in> set (outcomes r s)" "t = set_group g s u" using assms by auto
  have "length (rest s) = length (text_between s u) + length (rest u)"
    using reaches_text(1) [OF outcomes_reaches [OF u(1)]] by (metis length_append)
  then show ?thesis by (simp add: u(2) set_group_def group_text_def group_def update_conv')
qed

lemma replication_shrinks:
  assumes "re_match replication_rx e = Some m"
  shows "length (inner_of m) + 2 \<le> length e"
proof -
  obtain a b c d f g h i j k where
    s: "a \<in> set (outcomes Bol (at_start e))" "b \<in> set (outcomes (lit ''{'') a)"
      "c \<in> set (outcomes (star space) b)" "d \<in> set (outcomes (Group 1 (plus digit)) c)"
      "f \<in> set (outcomes (star space) d)" "g \<in> set (outcomes (lit ''{'') f)"
    and h: "h \<in> set (outcomes (Group 2 (star any_char)) g)"
    and t: "i \<in> set (outcomes (lit ''}'') h)" "j \<in> set (outcomes (star space) i)"
      "k \<in> set (outcomes (lit ''}'') j)" "m \<in> set (outcomes Eol k)"
    using re_match_outcomes [OF assms] by (auto simp only: replication_rx_def seqs.simps outcomes_Seq)
  have "groups m = groups h"
    using outcomes_lit [OF t(1)] outcomes_groups [OF _ t(2)] outcomes_lit [OF t(3)] outcomes_groups [OF _ t(4)]
    by (simp add: space_def)
  moreover have "length (rest g) + 2 \<le> length e"
    using outcomes_length [OF s(1)] outcomes_lit [OF s(2)] outcomes_length [OF s(3)] outcomes_length [OF s(4)]
      outcomes_length [OF s(5)] outcomes_lit [OF s(6)] by (simp add: at_start_def)
  moreover have "length (rest g) = length (group_text h 2) + length (rest h)" by (rule outcomes_group [OF h])
  moreover have "2 \<le> length (rest h)"
    using outcomes_lit [OF t(1)] outcomes_length [OF t(2)] outcomes_lit [OF t(3)] by simp
  ultimately show ?thesis by (simp add: inner_of_def group_text_def group_def)
qed

lemma length_strip: "length (strip t) \<le> length t"
proof -
  obtain u v where "t = u @ strip t @ v" using strip_infix [of t] by (auto simp: contains_iff)
  then have "length t = length (u @ strip t @ v)" by simp
  then show ?thesis by simp
qed

lemma split_depth_length: "w \<in> set (split_depth d cur t) \<Longrightarrow> length w \<le> length cur + length t"
  by (induction d cur t rule: split_depth.induct) (fastforce simp: Let_def split: if_splits)+

lemma split_top_length: "w \<in> set (split_top t) \<Longrightarrow> length w \<le> length t"
proof -
  assume "w \<in> set (split_top t)"
  then obtain v where "w = strip v" "v \<in> set (split_depth 0 [] t)" by (auto simp: split_top_def)
  then show ?thesis using length_strip [of v] split_depth_length [of v 0 "[]" t] by simp
qed

lemma concat_flags_returns:
  "length e + 2 \<le> n \<Longrightarrow> \<exists>r. elem n src e = Inr r"
  "length e + 1 \<le> n \<Longrightarrow> \<exists>r. concat_flags n src e = Inr r"
  "\<forall>p \<in> set ps. length p + 2 \<le> n \<Longrightarrow> \<exists>r. concat_parts n src ps = Inr r"
proof (induction n src e and n src e and n src ps rule: elem_concat_flags_concat_parts.induct)
  case (2 n src e0)
  have "\<exists>r. concat_flags n src e = Inr r"
    if "e = strip e0" "re_match lit_rx e = None" "re_match replication_rx e = None" "braced e" for e
    using 2(1) [OF that] 2(3) length_strip [of e0] that(1) by simp
  moreover have "\<exists>r. concat_flags n src (inner_of m) = Inr r"
    if "re_match lit_rx (strip e0) = None" "re_match replication_rx (strip e0) = Some m" for m
    using 2(2) [OF refl that] 2(3) length_strip [of e0] replication_shrinks [OF that(2)] by simp
  ultimately show ?case by (auto simp: Let_def split: option.splits)
next
  case (4 n src e0)
  have "\<exists>r. concat_flags n src (inner_of m) = Inr r"
    if "re_match lit_rx (strip e0) = None" "braced (strip e0)" "re_match replication_rx (strip e0) = Some m" for m
    using 4(2) [OF refl that(1) _ refl that(3)] that(2) 4(3) length_strip [of e0] replication_shrinks [OF that(3)] by simp
  moreover have "\<exists>r. concat_parts n src (split_top (butlast (tl (strip e0)))) = Inr r"
    if "re_match lit_rx (strip e0) = None" "braced (strip e0)" "re_match replication_rx (strip e0) = None"
      "re_match count_open_rx (butlast (tl (strip e0))) = None"
  proof (rule 4(1) [OF refl that(1) _ refl that(3)])
    have "length (strip e0) \<ge> 2"
      using that(2) by (cases "strip e0"; cases "tl (strip e0)") (auto simp: braced_def endswith_def)
    then show "\<forall>p \<in> set (split_top (butlast (tl (strip e0)))). length p + 2 \<le> n"
      using split_top_length [of _ "butlast (tl (strip e0))"] 4(3) length_strip [of e0] by fastforce
  qed (use that in simp_all)
  ultimately show ?case by (auto simp: Let_def split: option.splits)
next
  case (6 n src p ps)
  then show ?case by (auto split: option.splits prod.splits)
qed auto

end
