(* ===== verification/ConstNetlist.thy ===== *)
theory ConstNetlist
  imports ConstText RunConfigs PosixPath "HOL-Library.Word"
begin

text \<open>
  The Yosys method of \<open>cov_const.py\<close>: reading the elaborated netlist (RTLIL), the bits every wire has
  tied to a constant, the instances of every module, and the bits constant in every instance of
  every coverage configuration. Yosys is an argument: it maps a script to its error output, or to
  the texts of the two netlists the script writes. A set of wire bits is a list of (wire, index)
  pairs, and the dictionaries of dictionaries are association lists.
\<close>

subsection \<open>Signal specifications\<close>

datatype ybit = W str nat | C char

type_synonym widths = "(str \<times> nat \<times> nat) list"

text \<open>The tokens of a concatenation: a select, a name, a sized constant, an integer.\<close>

definition sig_name :: rx where
  "sig_name = Seq (lit [bslash]) (plus non_space)"

definition bit_chars :: rx where
  "bit_chars = plus (one_of ''01xzm-'')"

definition sig_token_rx :: rx where
  "sig_token_rx = alts
     [seqs [sig_name, plus space, lit ''['', plus digit, opt (seqs [lit '':'', plus digit]), lit '']''],
      sig_name,
      seqs [plus digit, lit [CHR 0x27], bit_chars],
      seqs [opt (lit ''-''), plus digit]]"

definition sized_rx :: rx where
  "sized_rx = seqs [Bol, Group 1 (plus digit), lit [CHR 0x27], Group 2 bit_chars, Eol]"

definition integer_rx :: rx where
  "integer_rx = seqs [Bol, Group 1 (Seq (opt (lit ''-'')) (plus digit)), Eol]"

definition part_rx :: rx where
  "part_rx = seqs [Bol, Group 1 sig_name, plus space, lit ''['', Group 2 (plus digit), lit '':'',
     Group 3 (plus digit), lit '']'', Eol]"

definition bit_rx :: rx where
  "bit_rx = seqs [Bol, Group 1 sig_name, plus space, lit ''['', Group 2 (plus digit), lit '']'', Eol]"

definition wire_name_rx :: rx where
  "wire_name_rx = seqs [Bol, Group 1 sig_name, Eol]"

text \<open>\<open>format(n & 0xFFFFFFFF, '032b')\<close>\<close>

definition bits32 :: "int \<Rightarrow> str" where
  "bits32 i = map (\<lambda>k. if bit (word_of_int i :: 32 word) k then CHR ''1'' else CHR ''0'') (rev [0..<32])"

definition bits_down :: "str \<Rightarrow> nat \<Rightarrow> nat \<Rightarrow> ybit list" where
  "bits_down w hi lo = map (W w) (rev [lo..<Suc hi])"

text \<open>A specification without braces.\<close>

definition sig_atom :: "widths \<Rightarrow> str \<Rightarrow> ybit list option" where
  "sig_atom ws spec =
     (case re_match sized_rx spec of
        Some m \<Rightarrow> Some (map C (group_text m 2))
      | None \<Rightarrow>
     (case re_match integer_rx spec of
        Some m \<Rightarrow> Some (map C (bits32 (case py_int (group_text m 1) of None \<Rightarrow> 0 | Some i \<Rightarrow> i)))
      | None \<Rightarrow>
     (case re_match part_rx spec of
        Some m \<Rightarrow> Some (bits_down (group_text m 1) (group_nat m 2) (group_nat m 3))
      | None \<Rightarrow>
     (case re_match bit_rx spec of
        Some m \<Rightarrow> Some [W (group_text m 1) (group_nat m 2)]
      | None \<Rightarrow>
     (case re_match wire_name_rx spec of
        Some m \<Rightarrow>
          (let (w, off) = (case map_of ws (group_text m 1) of None \<Rightarrow> (1, 0) | Some p \<Rightarrow> p)
           in Some (map (W (group_text m 1)) (rev [off..<off + w])))
      | None \<Rightarrow> None)))))"

text \<open>
  \<open>_ysig_bits\<close>. The calls it makes on the tokens of a concatenation are never concatenations
  themselves, since no token begins with a brace.
\<close>

fun all_bits :: "ybit list option list \<Rightarrow> ybit list option" where
  "all_bits [] = Some []"
| "all_bits (None # bs) = None"
| "all_bits (Some b # bs) = map_option ((@) b) (all_bits bs)"

definition ysig_bits :: "widths \<Rightarrow> str \<Rightarrow> ybit list option res" where
  "ysig_bits ws spec0 =
     (let spec = strip spec0
      in if startswith spec ''{'' then
           (case rcut ''}'' spec of
              None \<Rightarrow> Inl (ValueError ''substring not found'')
            | Some (u, v) \<Rightarrow> Inr (all_bits (map (\<lambda>sm. sig_atom ws (strip (whole sm))) (re_finditer sig_token_rx (tl u)))))
         else Inr (sig_atom ws spec))"

subsection \<open>Constants of one module body\<close>

definition wire_decl_rx :: rx where
  "wire_decl_rx = seqs [BolM, star space, lit ''wire '',
     opt (seqs [lit ''width '', Group 1 (plus digit), lit '' '']),
     opt (seqs [lit ''offset '', Group 2 (plus digit), lit '' '']),
     opt (seqs [alts [lit ''input'', lit ''output'', lit ''inout''], lit '' '', plus digit, lit '' '']),
     opt (lit ''signed ''), Group 3 sig_name]"

definition connect_rx :: rx where
  "connect_rx = seqs [BolM, star space, lit ''connect '', Group 1 (plus dot), EolM]"

definition select_open_rx :: rx where
  "select_open_rx = Seq (star space) (lit ''['')"

definition wire_decl :: "mst \<times> mst \<Rightarrow> widths \<Rightarrow> widths" where
  "wire_decl sm ws =
     (let m = snd sm
      in AList.update (group_text m 3)
           (if group m 1 = None then 1 else group_nat m 1, if group m 2 = None then 0 else group_nat m 2) ws)"

text \<open>The space between the two sides of a connection, as an index.\<close>

fun side_cut :: "int \<Rightarrow> nat \<Rightarrow> str \<Rightarrow> nat option" where
  "side_cut depth i [] = None"
| "side_cut depth i (ch # s) =
     (if ch = CHR ''{'' then side_cut (depth + 1) (Suc i) s
      else if ch = CHR ''}'' then side_cut (depth - 1) (Suc i) s
      else if ch = CHR '' '' \<and> depth = 0 \<and> 0 < i \<and> re_match select_open_rx (ch # s) = None then Some i
      else side_cut depth (Suc i) s)"

type_synonym wbit = "str \<times> nat"

definition link_bit :: "ybit \<times> ybit \<Rightarrow> wbit list \<times> (wbit \<times> wbit) list \<Rightarrow> wbit list \<times> (wbit \<times> wbit) list" where
  "link_bit p acc =
     (case acc of (const, alias) \<Rightarrow>
        case p of
          (W w i, C c) \<Rightarrow> if c \<in> set ''01'' then (List.insert (w, i) const, alias) else (const, alias)
        | (W w i, W v j) \<Rightarrow> (const, alias @ [((w, i), (v, j))])
        | _ \<Rightarrow> (const, alias))"

definition connect_line ::
    "widths \<Rightarrow> str \<Rightarrow> wbit list \<times> (wbit \<times> wbit) list \<Rightarrow> (wbit list \<times> (wbit \<times> wbit) list) res" where
  "connect_line ws parts acc =
     (case side_cut 0 0 parts of
        None \<Rightarrow> Inr acc
      | Some k \<Rightarrow>
          bind_res (ysig_bits ws (take k parts)) (\<lambda>lhs.
            bind_res (ysig_bits ws (drop k parts)) (\<lambda>rhs.
              case (lhs, rhs) of
                (Some ls, Some rs) \<Rightarrow>
                  if ls = [] \<or> rs = [] \<or> length ls \<noteq> length rs then Inr acc
                  else Inr (fold link_bit (zip ls rs) acc)
              | _ \<Rightarrow> Inr acc)))"

text \<open>One round over the connections between wires, and the rounds until nothing changes.\<close>

definition alias_step :: "wbit \<times> wbit \<Rightarrow> wbit list \<times> bool \<Rightarrow> wbit list \<times> bool" where
  "alias_step p st =
     (case st of (const, changed) \<Rightarrow>
        if snd p \<in> set const \<and> fst p \<notin> set const then (fst p # const, True) else (const, changed))"

definition alias_round :: "(wbit \<times> wbit) list \<Rightarrow> wbit list \<Rightarrow> wbit list \<times> bool" where
  "alias_round alias const = fold alias_step alias (const, False)"

lemma alias_fold_grows:
  "fold alias_step al (c, ch) = (c', ch') \<Longrightarrow>
   set c \<subseteq> set c' \<and> set c' \<subseteq> set c \<union> fst ` set al \<and> (ch' \<longrightarrow> ch \<or> set c \<subset> set c')"
proof (induction al arbitrary: c ch)
  case (Cons p al)
  have rest1: "fold alias_step al (alias_step p (c, ch)) = (c', ch')" using Cons.prems by simp
  show ?case
  proof (cases "snd p \<in> set c \<and> fst p \<notin> set c")
    case True
    then have "alias_step p (c, ch) = (fst p # c, True)" by (simp add: alias_step_def)
    with rest1 have "fold alias_step al (fst p # c, True) = (c', ch')" by simp
    from Cons.IH [OF this] True show ?thesis by auto
  next
    case False
    then have "alias_step p (c, ch) = (c, ch)" by (auto simp: alias_step_def)
    with rest1 have "fold alias_step al (c, ch) = (c', ch')" by simp
    from Cons.IH [OF this] show ?thesis by auto
  qed
qed simp

lemma alias_round_measure:
  assumes "alias_round al c = (c', True)"
  shows "card (fst ` set al - set c') < card (fst ` set al - set c)"
proof (rule psubset_card_mono)
  have c: "set c' \<subseteq> set c \<union> fst ` set al" "set c \<subset> set c'"
    using alias_fold_grows [OF assms [unfolded alias_round_def]] by simp_all
  then obtain x where "x \<in> set c'" "x \<notin> set c" by blast
  then show "fst ` set al - set c' \<subset> fst ` set al - set c" using c by blast
qed simp

function propagate :: "(wbit \<times> wbit) list \<Rightarrow> wbit list \<Rightarrow> wbit list" where
  "propagate alias const =
     (case alias_round alias const of (const', changed) \<Rightarrow> if changed then propagate alias const' else const')"
  by pat_completeness auto

termination
  by (relation "measure (\<lambda>(al, c). card (fst ` set al - set c))") (auto dest: alias_round_measure [OF sym])

declare propagate.simps [simp del]

definition rtlil_consts :: "str \<Rightarrow> (widths \<times> wbit list) res" where
  "rtlil_consts body =
     (let ws = fold wire_decl (re_finditer wire_decl_rx body) []
      in bind_res (fold_res (connect_line ws) (map (\<lambda>sm. group_text (snd sm) 1) (re_finditer connect_rx body)) ([], []))
           (\<lambda>(const, alias). Inr (ws, propagate alias const)))"

subsection \<open>Instances\<close>

type_synonym cbits = "nat set \<times> nat \<times> nat"

text \<open>\<open>_intersect\<close>: every set with the range of bits its wire has; none at all is a \<open>TypeError\<close>.\<close>

definition span_set :: "cbits \<Rightarrow> nat set" where
  "span_set b = {fst (snd b)..<snd (snd b)}"

definition intersect :: "cbits list \<Rightarrow> cbits res" where
  "intersect bs =
     (if bs = [] then Inl TypeError
      else
        (let every = \<Union> (set (map span_set bs))
         in Inr (\<Inter> (set (map (\<lambda>b. fst b \<union> (every - span_set b)) bs)),
                 Min (set (map (\<lambda>b. fst (snd b)) bs)), Max (set (map (\<lambda>b. snd (snd b)) bs)))))"

definition span_of :: "nat \<times> nat \<Rightarrow> nat \<times> nat" where
  "span_of wd = (snd wd, snd wd + fst wd)"

definition module_rx :: rx where
  "module_rx = seqs [lit (nl # ''module ''), Group 1 (plus non_space), lit [nl], Group 2 (lazy any_char),
     lit (nl # ''end'' @ [nl])]"

definition netlist_modules :: "str \<Rightarrow> (str \<times> str) list" where
  "netlist_modules t =
     fold (\<lambda>sm d. AList.update (group_text (snd sm) 1) (group_text (snd sm) 2) d) (re_finditer module_rx t) []"

definition base_rx :: rx where
  "base_rx = Seq (lit [bslash]) (Group 1 (Seq (Chr (\<lambda>c. is_alpha_ascii c \<or> c = CHR ''_'')) (star word_char)))"

definition base_name :: "str \<Rightarrow> str option" where
  "base_name name = map_option (\<lambda>sm. group_text (snd sm) 1) (re_search base_rx name)"

text \<open>A module whose name has no identifier is called by the empty name.\<close>

definition module_base :: "str \<Rightarrow> str" where
  "module_base name = (case base_name name of None \<Rightarrow> [] | Some b \<Rightarrow> b)"

text \<open>The constant bits of a wire, and the last component of a scoped name.\<close>

definition wire_const :: "wbit list \<Rightarrow> str \<Rightarrow> nat set" where
  "wire_const const w = set (map snd (filter (\<lambda>b. fst b = w) const))"

definition wire_bits :: "widths \<Rightarrow> wbit list \<Rightarrow> str \<Rightarrow> cbits" where
  "wire_bits ws const w = (wire_const const w, span_of (case map_of ws w of None \<Rightarrow> (1, 0) | Some p \<Rightarrow> p))"

definition plain_name :: "str \<Rightarrow> str" where
  "plain_name n = last (split_char (CHR ''.'') n)"

definition scoped :: "str \<Rightarrow> bool" where
  "scoped n \<longleftrightarrow> CHR ''.'' \<in> set n"

text \<open>Several scopes, one plain name: the sets are intersected, the range is the first one's.\<close>

definition meet :: "cbits \<Rightarrow> cbits option \<Rightarrow> cbits" where
  "meet b cur = (case cur of None \<Rightarrow> b | Some (s, sp) \<Rightarrow> (s \<inter> fst b, sp))"

type_synonym modsigs = "(str \<times> (str \<times> cbits list) list) list"

definition append_all :: "'k \<Rightarrow> 'v list \<Rightarrow> ('k \<times> 'v list) list \<Rightarrow> ('k \<times> 'v list) list" where
  "append_all k vs d = AList.update k ((case map_of d k of None \<Rightarrow> [] | Some us \<Rightarrow> us) @ vs) d"

definition add_sig :: "str \<Rightarrow> str \<Rightarrow> cbits list \<Rightarrow> modsigs \<Rightarrow> modsigs" where
  "add_sig b sg bs d = AList.update b (append_all sg bs (case map_of d b of None \<Rightarrow> [] | Some e \<Rightarrow> e)) d"

subsection \<open>Every module on its own\<close>

definition module_wire :: "widths \<Rightarrow> wbit list \<Rightarrow> str \<Rightarrow> (str \<times> cbits) list \<Rightarrow> (str \<times> cbits) list" where
  "module_wire ws const w per =
     (let n = tl w; b = wire_bits ws const w;
          per1 = AList.update (plain_name n) (meet b (map_of per (plain_name n))) per
      in if scoped n then AList.update n b per1 else per1)"

definition module_step :: "str \<times> str \<Rightarrow> modsigs \<Rightarrow> modsigs res" where
  "module_step nb out =
     (case base_name (fst nb) of
        None \<Rightarrow> Inr out
      | Some b \<Rightarrow>
          bind_res (rtlil_consts (snd nb)) (\<lambda>(ws, const).
            Inr (fold (\<lambda>(sg, cb). add_sig b sg [cb]) (fold (module_wire ws const) (map fst ws) []) out)))"

definition per_module :: "str \<Rightarrow> modsigs res" where
  "per_module il = fold_res module_step (netlist_modules il) []"

subsection \<open>The flattened design\<close>

definition cell_rx :: rx where
  "cell_rx = seqs [BolM, star space, lit ''cell '', Group 1 (plus non_space), lit '' '', Group 2 (plus non_space), EolM]"

type_synonym paths = "(str \<times> str) list"

definition cell_step :: "(str \<times> str) list \<Rightarrow> str \<Rightarrow> mst \<times> mst \<Rightarrow> paths \<times> str list \<Rightarrow> paths \<times> str list" where
  "cell_step mods p sm st =
     (case st of (paths, todo) \<Rightarrow>
        let c = group_text (snd sm) 1; q = (if p = [] then [] else p @ ''.'') @ tl (group_text (snd sm) 2)
        in if map_of mods c = None then (paths, todo) else (AList.update q c paths, todo @ [q]))"

text \<open>
  The worklist over the hierarchy; it takes the last path first. A module that contains itself would
  keep it busy for ever, so the number of instances it may visit is the fuel, and \<open>None\<close> means that
  it has not returned.
\<close>

primrec instance_paths :: "nat \<Rightarrow> (str \<times> str) list \<Rightarrow> paths \<Rightarrow> str list \<Rightarrow> paths option" where
  "instance_paths 0 mods paths todo = (if todo = [] then Some paths else None)"
| "instance_paths (Suc n) mods paths todo =
     (if todo = [] then Some paths
      else
        (let p = last todo; body = the (map_of mods (the (map_of paths p)));
             (paths1, todo1) = fold (cell_step mods p) (re_finditer cell_rx body) (paths, butlast todo)
         in instance_paths n mods paths1 todo1))"

type_synonym insts = "((str \<times> str) \<times> (str \<times> cbits) list) list"

definition meet_at :: "str \<times> str \<Rightarrow> str \<Rightarrow> cbits \<Rightarrow> insts \<Rightarrow> insts" where
  "meet_at k p b inst =
     (let here = (case map_of inst k of None \<Rightarrow> [] | Some e \<Rightarrow> e)
      in AList.update k (AList.update p (meet b (map_of here p)) here) inst)"

definition owner :: "str list \<Rightarrow> str \<Rightarrow> str" where
  "owner ordered name = (case List.find (\<lambda>q. startswith name (q @ ''.'')) ordered of None \<Rightarrow> [] | Some q \<Rightarrow> q)"

definition flat_wire :: "paths \<Rightarrow> str list \<Rightarrow> widths \<Rightarrow> wbit list \<Rightarrow> str \<Rightarrow> insts \<Rightarrow> insts" where
  "flat_wire paths ordered ws const w inst =
     (let name = tl w; p = owner ordered name;
          loc = (if p = [] then name else drop (Suc (length p)) name);
          b = module_base (the (map_of paths p)); cb = wire_bits ws const w;
          inst1 = meet_at (b, plain_name loc) p cb inst
      in if scoped loc then meet_at (b, loc) p cb inst1 else inst1)"

text \<open>A generate-scoped wire or an array element need not exist in every instance.\<close>

definition optional_sig :: "str \<Rightarrow> bool" where
  "optional_sig sg \<longleftrightarrow> CHR ''.'' \<in> set sg \<or> CHR ''['' \<in> set sg"

definition instances :: "paths \<Rightarrow> str \<Rightarrow> nat" where
  "instances paths b = length (filter (\<lambda>pt. module_base (snd pt) = b) paths)"

definition inst_step :: "paths \<Rightarrow> (str \<times> str) \<times> (str \<times> cbits) list \<Rightarrow> modsigs \<Rightarrow> modsigs" where
  "inst_step paths e out =
     (case e of ((b, sg), byinst) \<Rightarrow>
        if length byinst = instances paths b \<or> optional_sig sg
        then add_sig b sg (map snd byinst) out else out)"

definition flattened :: "nat \<Rightarrow> str \<Rightarrow> str \<Rightarrow> str \<Rightarrow> modsigs option res" where
  "flattened limit top0 pre il =
     (let mods = netlist_modules pre
      in case List.find (\<lambda>nb. base_name (fst nb) = Some top0) mods of
           None \<Rightarrow> Inl StopIteration
         | Some (topn, _) \<Rightarrow>
             (case instance_paths limit mods [([], topn)] [[]] of
                None \<Rightarrow> Inr None
              | Some paths \<Rightarrow>
                  (case List.find (\<lambda>nb. base_name (fst nb) = Some top0) (netlist_modules il) of
                     None \<Rightarrow> Inl StopIteration
                   | Some (_, body) \<Rightarrow>
                       bind_res (rtlil_consts body) (\<lambda>(ws, const).
                         let ordered = rev (sort_key length (rev (filter (\<lambda>p. p \<noteq> []) (map fst paths))));
                             inst = fold (flat_wire paths ordered ws const) (map fst ws) []
                         in Inr (Some (fold (inst_step paths) inst []))))))"

subsection \<open>One configuration\<close>

type_synonym yosys = "str \<Rightarrow> str + str \<times> str"

definition pvalue_str :: "pvalue \<Rightarrow> str" where
  "pvalue_str v = (case v of IntV i \<Rightarrow> int_str i | StrV t \<Rightarrow> t)"

definition keep_all :: str where
  "keep_all = ''setattr -set keep 1 w:*''"

definition yosys_script :: "str list \<Rightarrow> vparams \<Rightarrow> str \<Rightarrow> bool \<Rightarrow> str \<Rightarrow> str \<Rightarrow> str list" where
  "yosys_script files params top0 flatten pre il =
     [''read_verilog -nooverwrite -mem2reg '' @ join '' '' files] @
     map (\<lambda>(k, v). ''chparam -set '' @ k @ '' '' @ pvalue_str v @ '' '' @ top0) (sort_key fst params) @
     [''hierarchy -check -top '' @ top0, ''proc'', ''write_rtlil '' @ pre, keep_all] @
     (if flatten then [''flatten'', keep_all] else []) @
     [''opt -full'', ''opt -full'', ''write_rtlil '' @ il]"

definition last_800 :: "str \<Rightarrow> str" where
  "last_800 t = drop (length t - 800) t"

definition yosys_one ::
    "yosys \<Rightarrow> nat \<Rightarrow> str list \<Rightarrow> str \<Rightarrow> vparams \<Rightarrow> str \<Rightarrow> bool \<Rightarrow> str \<Rightarrow> modsigs option res" where
  "yosys_one ys limit files work params tag flatten top0 =
     (case ys (join [nl] (yosys_script files params top0 flatten
             (path_join work (tag @ ''.pre.il'')) (path_join work (tag @ ''.il'')))) of
        Inl err \<Rightarrow> Inl (RuntimeError (''yosys failed on '' @ tag @ '': '' @ last_800 err))
      | Inr (pre, il) \<Rightarrow>
          if \<not> flatten then bind_res (per_module il) (\<lambda>r. Inr (Some r)) else flattened limit top0 pre il)"

subsection \<open>Every configuration\<close>

type_synonym build_cfg = "str \<times> vparams \<times> str option"

text \<open>\<open>(^|\.)(?:genblk\d+\.)+\<close>, replaced by its first group.\<close>

definition genblk_rx :: rx where
  "genblk_rx = Seq (Group 1 (Alt Bol (lit ''.''))) (plus (seqs [lit ''genblk'', plus digit, lit ''.'']))"

definition drop_genblk :: "str \<Rightarrow> str" where
  "drop_genblk t = re_sub genblk_rx (\<lambda>sm. group_text (snd sm) 1) t"

definition per_config :: "modsigs \<Rightarrow> modsigs \<Rightarrow> modsigs res" where
  "per_config one per =
     fold_res (\<lambda>(m, sigs) per1.
       fold_res (\<lambda>(sg, sets) per2. bind_res (intersect sets) (\<lambda>b. Inr (add_sig m (drop_genblk sg) [b] per2))) sigs per1)
       one per"

definition config_step ::
    "yosys \<Rightarrow> nat \<Rightarrow> str list \<Rightarrow> str \<Rightarrow> bool \<Rightarrow> str \<Rightarrow> build_cfg \<Rightarrow>
     (modsigs \<times> (str \<times> nat) list) option \<Rightarrow> (modsigs \<times> (str \<times> nat) list) option res" where
  "config_step ys limit files work flatten top0 c st =
     (case st of
        None \<Rightarrow> Inr None
      | Some (per, nvar) \<Rightarrow>
          (case c of (label, params, top1) \<Rightarrow>
             bind_res (yosys_one ys limit files work params label flatten (case top1 of None \<Rightarrow> top0 | Some t \<Rightarrow> if t = [] then top0 else t))
               (\<lambda>r. case r of
                  None \<Rightarrow> Inr None
                | Some one \<Rightarrow>
                    bind_res (per_config one per) (\<lambda>per1.
                      Inr (Some (per1, fold (\<lambda>(m, sigs). bump m) one nvar))))))"

type_synonym constants = "(str \<times> (str \<times> cbits) list) list"

definition const_sig :: "(str \<times> nat) list \<Rightarrow> str \<Rightarrow> str \<times> cbits list \<Rightarrow> constants \<Rightarrow> constants res" where
  "const_sig nvar m e out =
     (case e of (sg, sets) \<Rightarrow>
        if Some (length sets) = map_of nvar m \<or> optional_sig sg then
          bind_res (intersect sets) (\<lambda>b.
            Inr (if fst b = {} then out
                 else AList.update m (AList.update sg b (case map_of out m of None \<Rightarrow> [] | Some d \<Rightarrow> d)) out))
        else Inr out)"

definition yosys_constants ::
    "yosys \<Rightarrow> nat \<Rightarrow> str list \<Rightarrow> str \<Rightarrow> bool \<Rightarrow> str \<Rightarrow> build_cfg list \<Rightarrow> (constants \<times> str list) option res" where
  "yosys_constants ys limit files work flatten top0 cfgs =
     bind_res (fold_res (config_step ys limit files work flatten top0) cfgs (Some ([], [])))
       (\<lambda>st. case st of
          None \<Rightarrow> Inr None
        | Some (per, nvar) \<Rightarrow>
            bind_res (fold_res (\<lambda>(m, sigs). fold_res (const_sig nvar m) sigs) per [])
              (\<lambda>out. Inr (Some (out, map fst cfgs))))"

subsection \<open>The chains of connections\<close>

text \<open>What the rounds are for: a bit connected, over any chain of wires, to a bit tied to a literal.\<close>

inductive tied :: "(wbit \<times> wbit) list \<Rightarrow> wbit list \<Rightarrow> wbit \<Rightarrow> bool" for links const where
  literal: "b \<in> set const \<Longrightarrow> tied links const b"
| chain: "(b, c) \<in> set links \<Longrightarrow> tied links const c \<Longrightarrow> tied links const b"

lemma alias_fold_tied:
  "fold alias_step al (c, ch) = (c', ch') \<Longrightarrow> set al \<subseteq> set links \<Longrightarrow>
   \<forall>b \<in> set c. tied links const b \<Longrightarrow> \<forall>b \<in> set c'. tied links const b"
proof (induction al arbitrary: c ch)
  case (Cons p al)
  have next1: "fold alias_step al (alias_step p (c, ch)) = (c', ch')" using Cons.prems(1) by simp
  obtain c1 ch1 where st: "alias_step p (c, ch) = (c1, ch1)" by (metis surj_pair)
  have "(fst p, snd p) \<in> set links" using Cons.prems(2) by simp
  then have "snd p \<in> set c \<Longrightarrow> tied links const (fst p)" using Cons.prems(3) chain by blast
  then have "\<forall>b \<in> set c1. tied links const b"
    using st Cons.prems(3) by (auto simp: alias_step_def split: if_splits)
  with Cons.IH [of c1 ch1] next1 st Cons.prems(2) show ?case by simp
qed simp

lemma alias_fold_unchanged:
  "fold alias_step al (c, ch) = (c', False) \<Longrightarrow> \<not> ch \<and> c' = c \<and> (\<forall>p \<in> set al. snd p \<in> set c \<longrightarrow> fst p \<in> set c)"
proof (induction al arbitrary: c ch)
  case (Cons p al)
  have next1: "fold alias_step al (alias_step p (c, ch)) = (c', False)" using Cons.prems by simp
  show ?case
  proof (cases "snd p \<in> set c \<and> fst p \<notin> set c")
    case True
    then have "alias_step p (c, ch) = (fst p # c, True)" by (simp add: alias_step_def)
    with next1 Cons.IH [of "fst p # c" True] show ?thesis by simp
  next
    case False
    then have "alias_step p (c, ch) = (c, ch)" by (auto simp: alias_step_def)
    with next1 Cons.IH [of c ch] False show ?thesis by auto
  qed
qed simp

lemma propagate_tied: "\<forall>b \<in> set c. tied links const b \<Longrightarrow> b \<in> set (propagate links c) \<Longrightarrow> tied links const b"
proof (induction links c rule: propagate.induct)
  case (1 links c)
  obtain c1 ch1 where r: "alias_round links c = (c1, ch1)" by (metis surj_pair)
  have t: "\<forall>b \<in> set c1. tied links const b"
    using alias_fold_tied [OF r [unfolded alias_round_def] subset_refl "1.prems"(1)] .
  show ?case
  proof (cases ch1)
    case True
    with "1.prems"(2) r have "b \<in> set (propagate links c1)" by (simp add: propagate.simps [of links c])
    with "1.IH" [OF r [symmetric] True t] show ?thesis by simp
  next
    case False
    with "1.prems"(2) r t show ?thesis by (simp add: propagate.simps [of links c])
  qed
qed

lemma propagate_closed:
  "set c \<subseteq> set (propagate links c) \<and>
   (\<forall>p \<in> set links. snd p \<in> set (propagate links c) \<longrightarrow> fst p \<in> set (propagate links c))"
proof (induction links c rule: propagate.induct)
  case (1 links c)
  obtain c1 ch1 where r: "alias_round links c = (c1, ch1)" by (metis surj_pair)
  show ?case
  proof (cases ch1)
    case True
    have "set c \<subseteq> set c1" using alias_fold_grows [OF r [unfolded alias_round_def]] by simp
    moreover have "propagate links c = propagate links c1" using r True by (simp add: propagate.simps [of links c])
    ultimately show ?thesis using "1.IH" [OF r [symmetric] True] by auto
  next
    case False
    with alias_fold_unchanged [of links c False c1] r show ?thesis
      by (simp add: alias_round_def propagate.simps [of links c])
  qed
qed

text \<open>
  The rounds over the connections between wires stop, and find exactly the bits that a chain of
  connections, of any length and in any order, ties to a literal.
\<close>

lemma propagate_finds_tied: "b \<in> set (propagate links const) \<longleftrightarrow> tied links const b"
proof
  assume "b \<in> set (propagate links const)"
  then show "tied links const b" by (rule propagate_tied [rotated]) (simp add: literal)
next
  assume "tied links const b"
  then show "b \<in> set (propagate links const)"
    by (induction rule: tied.induct) (use propagate_closed [of const links] in force)+
qed

subsection \<open>Constant in every instance of every configuration\<close>

definition sig_sets :: "modsigs \<Rightarrow> str \<Rightarrow> str \<Rightarrow> cbits list" where
  "sig_sets d m sg =
     (case map_of d m of None \<Rightarrow> [] | Some e \<Rightarrow> (case map_of e sg of None \<Rightarrow> [] | Some bs \<Rightarrow> bs))"

lemma sig_sets_add:
  "sig_sets (add_sig b s bs d) m sg = sig_sets d m sg @ (if m = b \<and> sg = s then bs else [])"
  by (auto simp: sig_sets_def add_sig_def append_all_def update_conv' split: option.splits)

lemma intersect_sound:
  assumes "intersect bs = Inr b" and "s \<in> set bs" and "i \<in> fst b \<or> i \<notin> span_set b"
  shows "i \<in> fst s \<or> i \<notin> span_set s"
proof (cases "i \<in> fst b")
  case True
  then show ?thesis using assms(1,2) by (auto simp: intersect_def Let_def split: if_splits)
next
  case False
  have b: "fst (snd b) = Min (set (map (\<lambda>b. fst (snd b)) bs))" "snd (snd b) = Max (set (map (\<lambda>b. snd (snd b)) bs))"
    using assms(1) by (auto simp: intersect_def Let_def split: if_splits)
  have "fst (snd b) \<le> fst (snd s)" "snd (snd s) \<le> snd (snd b)"
    unfolding b using assms(2) by (auto intro: Min_le Max_ge)
  then show ?thesis using False assms(3) by (auto simp: span_set_def)
qed

definition sigs_step :: "str \<Rightarrow> str \<times> cbits list \<Rightarrow> modsigs \<Rightarrow> modsigs res" where
  "sigs_step m = (\<lambda>(sg, sets) per. bind_res (intersect sets) (\<lambda>b. Inr (add_sig m (drop_genblk sg) [b] per)))"

lemma per_config_steps:
  "per_config one per = fold_res (\<lambda>(m, sigs). fold_res (sigs_step m) sigs) one per"
  by (simp add: per_config_def sigs_step_def)

lemma fold_res_all:
  assumes "fold_res f xs s = Inr s'" and "\<And>x s s'. f x s = Inr s' \<Longrightarrow> Q s \<Longrightarrow> Q s'" and "Q s"
  shows "Q s'"
  using fold_res_inv [where Q = Q, OF _ assms(3,1)] assms(2) by blast

lemma fold_res_reaches:
  assumes "fold_res f xs s = Inr s'" and "x \<in> set xs" and "\<And>s s'. f x s = Inr s' \<Longrightarrow> Q s'"
    and "\<And>x s s'. f x s = Inr s' \<Longrightarrow> Q s \<Longrightarrow> Q s'"
  shows "Q s'"
  using assms(1,2)
proof (induction xs arbitrary: s)
  case (Cons y xs)
  obtain s1 where s1: "f y s = Inr s1" "fold_res f xs s1 = Inr s'" using Cons.prems by (auto simp: bind_res_Inr_iff)
  show ?case
  proof (cases "x = y")
    case True
    with s1(1) assms(3) have "Q s1" by blast
    then show ?thesis by (rule fold_res_all [OF s1(2) assms(4), rotated 2])
  next
    case False
    with Cons s1(2) show ?thesis by auto
  qed
qed simp

definition holds_set :: "str \<Rightarrow> str \<Rightarrow> cbits \<Rightarrow> modsigs \<Rightarrow> bool" where
  "holds_set m sg b d \<longleftrightarrow> b \<in> set (sig_sets d m sg)"

lemma sigs_step_keeps: "sigs_step m e per = Inr per1 \<Longrightarrow> holds_set m' sg b per \<Longrightarrow> holds_set m' sg b per1"
  by (auto simp: sigs_step_def bind_res_Inr_iff holds_set_def sig_sets_add split: prod.splits)

lemma module_keeps:
  "fold_res (sigs_step m) sigs per = Inr per1 \<Longrightarrow> holds_set m' sg b per \<Longrightarrow> holds_set m' sg b per1"
  by (erule fold_res_all [where Q = "holds_set m' sg b"]) (auto intro: sigs_step_keeps)

lemma per_config_keeps: "per_config one per = Inr per1 \<Longrightarrow> holds_set m sg b per \<Longrightarrow> holds_set m sg b per1"
  unfolding per_config_steps
  by (erule fold_res_all [where Q = "holds_set m sg b"]) (auto intro: module_keeps)

lemma per_config_reaches:
  assumes "per_config one per = Inr per1" and "(m, sigs) \<in> set one" and "(sg, sets) \<in> set sigs"
  shows "\<exists>b. intersect sets = Inr b \<and> holds_set m (drop_genblk sg) b per1"
proof -
  let ?Q = "\<lambda>d. \<exists>b. intersect sets = Inr b \<and> holds_set m (drop_genblk sg) b d"
  have step: "?Q d1" if "sigs_step m' e d = Inr d1" "?Q d" for m' e d d1 using that sigs_step_keeps by blast
  have hit: "?Q d1" if "sigs_step m (sg, sets) d = Inr d1" for d d1
    using that by (auto simp: sigs_step_def bind_res_Inr_iff holds_set_def sig_sets_add)
  show ?thesis
    using assms(1,2) unfolding per_config_steps
  proof (rule fold_res_reaches [where Q = ?Q])
    fix d d1
    assume "(\<lambda>(m, sigs). fold_res (sigs_step m) sigs) (m, sigs) d = Inr d1"
    then show "?Q d1" using fold_res_reaches [OF _ assms(3) hit step] by simp
  next
    fix x d d1
    assume x: "(\<lambda>(m, sigs). fold_res (sigs_step m) sigs) x d = Inr d1" and q: "?Q d"
    obtain m' sigs' where "x = (m', sigs')" by (metis surj_pair)
    with x q fold_res_all [of "sigs_step m'" sigs' d d1 ?Q] step show "?Q d1" by auto
  qed
qed

text \<open>The dictionaries have no key twice.\<close>

definition keyed :: "modsigs \<Rightarrow> bool" where
  "keyed d \<longleftrightarrow> distinct (map fst d) \<and> (\<forall>(m, e) \<in> set d. distinct (map fst e))"

lemma update_entry: "(k, v) \<in> set (AList.update j u d) \<Longrightarrow> (k, v) = (j, u) \<or> (k, v) \<in> set d"
  by (induction d) (auto split: if_splits)

lemma keyed_add: "keyed d \<Longrightarrow> keyed (add_sig b s bs d)"
proof -
  assume d: "keyed d"
  let ?e = "case map_of d b of None \<Rightarrow> [] | Some e \<Rightarrow> e"
  have e: "distinct (map fst ?e)"
    using d by (auto simp: keyed_def split: option.splits dest!: map_of_SomeD)
  have "distinct (map fst x)" if "(m, x) \<in> set (add_sig b s bs d)" for m x
    using update_entry [OF that [unfolded add_sig_def]] d e
    by (auto simp: keyed_def append_all_def distinct_update)
  moreover have "distinct (map fst (add_sig b s bs d))"
    using d unfolding add_sig_def keyed_def by (intro distinct_update) simp
  ultimately show ?thesis by (auto simp: keyed_def)
qed

lemma keyed_sig_sets:
  assumes "keyed d" and "(m, e) \<in> set d" and "(sg, bs) \<in> set e"
  shows "sig_sets d m sg = bs"
proof -
  have "map_of d m = Some e" "map_of e sg = Some bs"
    using assms by (auto simp: keyed_def)
  then show ?thesis by (simp add: sig_sets_def)
qed

lemma per_config_keyed: "per_config one per = Inr per1 \<Longrightarrow> keyed per \<Longrightarrow> keyed per1"
proof -
  have step: "keyed d1" if "sigs_step m e d = Inr d1" "keyed d" for m e d d1
    using that keyed_add by (auto simp: sigs_step_def bind_res_Inr_iff split: prod.splits)
  have module: "keyed d1" if "fold_res (sigs_step m) sigs d = Inr d1" "keyed d" for m sigs d d1
    using that(1) by (rule fold_res_all [where Q = keyed]) (auto intro: step that(2))
  show "per_config one per = Inr per1 \<Longrightarrow> keyed per \<Longrightarrow> keyed per1"
    unfolding per_config_steps
    by (erule fold_res_all [where Q = keyed]) (auto intro: module)
qed

definition config_state :: "(modsigs \<Rightarrow> bool) \<Rightarrow> (modsigs \<times> (str \<times> nat) list) option \<Rightarrow> bool" where
  "config_state Q st \<longleftrightarrow> (case st of None \<Rightarrow> True | Some (per, nvar) \<Rightarrow> Q per)"

lemma config_step_keeps:
  assumes "\<And>one per per1. per_config one per = Inr per1 \<Longrightarrow> Q per \<Longrightarrow> Q per1"
  shows "config_step ys limit files work flatten top0 c st = Inr st' \<Longrightarrow> config_state Q st \<Longrightarrow> config_state Q st'"
  by (auto simp: config_step_def config_state_def bind_res_Inr_iff split: option.splits prod.splits dest: assms)

definition build_top :: "str \<Rightarrow> str option \<Rightarrow> str" where
  "build_top top0 top1 = (case top1 of None \<Rightarrow> top0 | Some t \<Rightarrow> if t = [] then top0 else t)"

lemma config_step_reaches:
  assumes "config_step ys limit files work flatten top0 (label, params, top1) st = Inr st'"
    and "yosys_one ys limit files work params label flatten (build_top top0 top1) = Inr (Some one)"
    and "(m, sigs) \<in> set one" and "(sg, sets) \<in> set sigs"
  shows "config_state (\<lambda>d. \<exists>b. intersect sets = Inr b \<and> holds_set m (drop_genblk sg) b d) st'"
  using assms(1,2) per_config_reaches [OF _ assms(3,4)]
  by (auto simp: config_step_def config_state_def build_top_def bind_res_Inr_iff split: option.splits prod.splits)

text \<open>Every set in the result is the intersection of sets collected for its signal.\<close>

definition collected :: "modsigs \<Rightarrow> constants \<Rightarrow> bool" where
  "collected per out \<longleftrightarrow> (\<forall>m d sg b. map_of out m = Some d \<longrightarrow> map_of d sg = Some b \<longrightarrow>
     (\<exists>e sets. (m, e) \<in> set per \<and> (sg, sets) \<in> set e \<and> intersect sets = Inr b))"

lemma const_sig_collected:
  assumes "const_sig nvar m (sg, sets) o0 = Inr o1" and "collected per o0" and "(m, e) \<in> set per" and "(sg, sets) \<in> set e"
  shows "collected per o1"
proof (cases "o1 = o0")
  case False
  then obtain b where b: "intersect sets = Inr b"
    "o1 = AList.update m (AList.update sg b (case map_of o0 m of None \<Rightarrow> [] | Some d \<Rightarrow> d)) o0"
    using assms(1) by (auto simp: const_sig_def bind_res_Inr_iff split: if_splits)
  show ?thesis unfolding collected_def
  proof (intro allI impI)
    fix mm dd ss bb
    assume a: "map_of o1 mm = Some dd" "map_of dd ss = Some bb"
    show "\<exists>e sets. (mm, e) \<in> set per \<and> (ss, sets) \<in> set e \<and> intersect sets = Inr bb"
    proof (cases "mm = m \<and> ss = sg")
      case True
      with a b have "bb = b" by (auto simp: update_conv')
      with True b assms(3,4) show ?thesis by blast
    next
      case False
      then have "\<exists>d0. map_of o0 mm = Some d0 \<and> map_of d0 ss = Some bb"
        using a b by (auto simp: update_conv' split: if_splits option.splits)
      then show ?thesis using assms(2) unfolding collected_def by blast
    qed
  qed
qed (use assms(2) in simp)

lemma const_sig_found:
  assumes "fold_res (\<lambda>(m, sigs). fold_res (const_sig nvar m) sigs) per [] = Inr out"
    and "map_of out m = Some d" and "map_of d sg = Some b"
  shows "\<exists>e sets. (m, e) \<in> set per \<and> (sg, sets) \<in> set e \<and> intersect sets = Inr b"
proof -
  have sigs: "collected per o1"
    if "x \<in> set per" "collected per o0" "(\<lambda>(m, sigs). fold_res (const_sig nvar m) sigs) x o0 = Inr o1" for x o0 o1
  proof -
    obtain m' e' where x: "x = (m', e')" by (metis surj_pair)
    have step: "collected per s'" if "y \<in> set e'" "collected per s" "const_sig nvar m' y s = Inr s'" for y s s'
      using that \<open>x \<in> set per\<close> const_sig_collected [of nvar m' "fst y" "snd y" s s' per e'] by (simp add: x)
    have "fold_res (const_sig nvar m') e' o0 = Inr o1" using that(3) by (simp add: x)
    then show ?thesis by (rule fold_res_inv_in [rotated 2]) (use step that(2) in simp_all)
  qed
  have "collected per []" by (simp add: collected_def)
  then have "collected per out" by (rule fold_res_inv_in [where Q = "collected per", rotated, OF _ assms(1)]) (rule sigs)
  with assms(2,3) show ?thesis unfolding collected_def by blast
qed

text \<open>
  What the Yosys method calls constant is constant everywhere: a bit reported for a signal of a
  module is, in every configuration of the coverage sweep and in every instance of the module there,
  tied to a constant or outside the bit range the instance has. A bit that is live in one instance or
  one configuration is never reported.
\<close>

lemma constant_in_every_instance:
  assumes "yosys_constants ys limit files work flatten top0 cfgs = Inr (Some (consts, labels))"
    and "map_of consts m = Some sigs" and "map_of sigs sg = Some b" and "i \<in> fst b"
    and "(label, params, own_top) \<in> set cfgs"
    and "yosys_one ys limit files work params label flatten (build_top top0 own_top) = Inr (Some one)"
    and "(m, es) \<in> set one" and "(raw_sig, sets) \<in> set es" and "drop_genblk raw_sig = sg" and "s \<in> set sets"
  shows "i \<in> fst s \<or> i \<notin> span_set s"
proof -
  let ?step = "config_step ys limit files work flatten top0"
  obtain per nvar where per: "fold_res ?step cfgs (Some ([], [])) = Inr (Some (per, nvar))"
    and found: "fold_res (\<lambda>(m, sigs). fold_res (const_sig nvar m) sigs) per [] = Inr consts"
    using assms(1) by (auto simp: yosys_constants_def bind_res_Inr_iff split: option.splits)
  have "config_state keyed (Some (per, nvar))"
    using per
  proof (rule fold_res_all [where Q = "config_state keyed"])
    show "?step c st = Inr st' \<Longrightarrow> config_state keyed st \<Longrightarrow> config_state keyed st'" for c st st'
      by (rule config_step_keeps [rotated]) (auto intro: per_config_keyed)
  qed (simp add: config_state_def keyed_def)
  then have keyed: "keyed per" by (simp add: config_state_def)
  let ?Q = "config_state (\<lambda>d. \<exists>b. intersect sets = Inr b \<and> holds_set m (drop_genblk raw_sig) b d)"
  have "?Q (Some (per, nvar))"
    using per assms(5)
  proof (rule fold_res_reaches [where Q = ?Q])
    show "?step (label, params, own_top) st = Inr st' \<Longrightarrow> ?Q st'" for st st'
      by (rule config_step_reaches [OF _ assms(6-8)])
    show "?step c st = Inr st' \<Longrightarrow> ?Q st \<Longrightarrow> ?Q st'" for c st st'
      by (rule config_step_keeps [rotated]) (auto intro: per_config_keeps)
  qed
  then obtain c where c: "intersect sets = Inr c" "c \<in> set (sig_sets per m sg)"
    using assms(9) by (auto simp: config_state_def holds_set_def)
  obtain e ms where e: "(m, e) \<in> set per" "(sg, ms) \<in> set e" "intersect ms = Inr b"
    using const_sig_found [OF found assms(2,3)] by blast
  have "c \<in> set ms" using c(2) keyed_sig_sets [OF keyed e(1,2)] by simp
  from intersect_sound [OF e(3) this disjI1 [OF assms(4)]] intersect_sound [OF c(1) assms(10)] show ?thesis by blast
qed

definition sample_netlist :: str where
  "sample_netlist = nl # ''module '' @ [bslash] @ ''m'' @ [nl] @ ''wire width 2 '' @ [bslash] @ ''a'' @ [nl] @
     ''connect '' @ [bslash] @ ''a [1] 1'' @ [CHR 0x27] @ ''0'' @ [nl] @ ''end'' @ [nl]"

definition sample_yosys :: yosys where
  "sample_yosys s = Inr (sample_netlist, sample_netlist)"

lemma sample_one:
  "yosys_one sample_yosys 2 [] ''w'' [] ''c'' True ''m'' = Inr (Some [(''m'', [(''a'', [({1}, 0, 2)])])])"
  by code_simp

lemma sample_constants:
  "yosys_constants sample_yosys 2 [] ''w'' True ''m'' [(''c'', [], None)] =
     Inr (Some ([(''m'', [(''a'', ({1}, 0, 2))])], [''c'']))"
  by code_simp

lemma sample_name: "drop_genblk ''a'' = ''a''"
  by code_simp

end
