(* ===== verification/NetSemantics.thy ===== *)
theory NetSemantics
  imports ConstNetlist
begin

text \<open>
  What the constant search of \<open>cov_const.py\<close> means for the hardware. A netlist body constrains the
  values of its wire bits through its connections; a bit is constant when every assignment of values
  that respects the connections gives it the same one. The bits \<open>_rtlil_consts\<close> finds are related to
  that, and then carried through the instances and configurations.
\<close>

subsection \<open>The connections of a body as equations\<close>

text \<open>The pairs of bits one \<open>connect\<close> line equates, as far as its two sides are understood.\<close>

definition line_pairs :: "widths \<Rightarrow> str \<Rightarrow> (ybit \<times> ybit) list" where
  "line_pairs ws parts =
     (case side_cut 0 0 parts of
        None \<Rightarrow> []
      | Some k \<Rightarrow>
          (case (ysig_bits ws (take k parts), ysig_bits ws (drop k parts)) of
             (Inr (Some ls), Inr (Some rs)) \<Rightarrow> if length ls = length rs then zip ls rs else []
           | _ \<Rightarrow> []))"

definition declared :: "str \<Rightarrow> widths" where
  "declared body = fold wire_decl (re_finditer wire_decl_rx body) []"

definition net_pairs :: "str \<Rightarrow> (ybit \<times> ybit) list" where
  "net_pairs body = concat (map (\<lambda>sm. line_pairs (declared body) (group_text (snd sm) 1)) (re_finditer connect_rx body))"

text \<open>An assignment of values respects an equation; an undefined constant constrains nothing.\<close>

type_synonym valuation = "wbit \<Rightarrow> char"

fun holds_pair :: "valuation \<Rightarrow> ybit \<times> ybit \<Rightarrow> bool" where
  "holds_pair v (W w i, C c) \<longleftrightarrow> c \<notin> set ''01'' \<or> v (w, i) = c"
| "holds_pair v (W w i, W u j) \<longleftrightarrow> v (w, i) = v (u, j)"
| "holds_pair v (C c, b) \<longleftrightarrow> True"

definition solves :: "valuation \<Rightarrow> (ybit \<times> ybit) list \<Rightarrow> bool" where
  "solves v ps \<longleftrightarrow> (\<forall>p \<in> set ps. holds_pair v p)"

text \<open>In a netlist of a synthesisable design no bit is driven by two different sources.\<close>

definition driven_once :: "(ybit \<times> ybit) list \<Rightarrow> bool" where
  "driven_once ps \<longleftrightarrow> (\<forall>w i b c. (W w i, b) \<in> set ps \<longrightarrow> (W w i, c) \<in> set ps \<longrightarrow> b = c)"

lemma connect_line_pairs:
  "connect_line ws parts acc = Inr acc' \<Longrightarrow> acc' = fold link_bit (line_pairs ws parts) acc"
proof -
  assume line: "connect_line ws parts acc = Inr acc'"
  show ?thesis
  proof (cases "side_cut 0 0 parts")
    case (Some k)
    with line obtain l r where "ysig_bits ws (take k parts) = Inr l" "ysig_bits ws (drop k parts) = Inr r"
      by (auto simp: connect_line_def bind_res_Inr_iff)
    with Some line show ?thesis by (cases l; cases r) (auto simp: connect_line_def line_pairs_def split: if_splits)
  qed (use line in \<open>simp add: connect_line_def line_pairs_def\<close>)
qed

lemma fold_connect_lines:
  "fold_res (connect_line ws) ls acc = Inr acc' \<Longrightarrow> acc' = fold link_bit (concat (map (line_pairs ws) ls)) acc"
proof (induction ls arbitrary: acc)
  case (Cons l ls)
  then obtain m where "connect_line ws l acc = Inr m" "fold_res (connect_line ws) ls m = Inr acc'"
    by (auto simp: bind_res_Inr_iff)
  with Cons.IH connect_line_pairs show ?case by fastforce
qed simp

lemma link_bits:
  "fold link_bit ps (c0, al0) = (c, al) \<Longrightarrow>
     set c = set c0 \<union> {(w, i) | w i x. (W w i, C x) \<in> set ps \<and> x \<in> set ''01''} \<and>
     set al = set al0 \<union> {((w, i), (u, j)) | w i u j. (W w i, W u j) \<in> set ps}"
proof (induction ps arbitrary: c0 al0)
  case (Cons p ps)
  obtain a b where p: "p = (a, b)" by (cases p)
  obtain c1 al1 where one: "link_bit p (c0, al0) = (c1, al1)" by (metis surj_pair)
  have next1: "fold link_bit ps (c1, al1) = (c, al)" using Cons.prems one by simp
  have "set c1 = set c0 \<union> {(w, i) | w i x. (W w i, C x) = p \<and> x \<in> set ''01''} \<and>
      set al1 = set al0 \<union> {((w, i), (u, j)) | w i u j. (W w i, W u j) = p}"
    using one unfolding p by (cases a; cases b) (auto simp: link_bit_def split: if_splits)
  with Cons.IH [OF next1] show ?case by auto
qed simp

text \<open>The netlist of \<open>_rtlil_consts\<close>: literals and links, closed under the rounds.\<close>

lemma rtlil_consts_tied:
  assumes "rtlil_consts body = Inr (ws, const)"
  obtains c0 al where "ws = declared body" and "const = propagate al c0"
    and "set c0 = {(w, i) | w i x. (W w i, C x) \<in> set (net_pairs body) \<and> x \<in> set ''01''}"
    and "set al = {((w, i), (u, j)) | w i u j. (W w i, W u j) \<in> set (net_pairs body)}"
proof -
  obtain c0 al where f: "fold_res (connect_line (declared body))
      (map (\<lambda>sm. group_text (snd sm) 1) (re_finditer connect_rx body)) ([], []) = Inr (c0, al)"
    and eq: "ws = declared body" "const = propagate al c0"
    using assms by (auto simp: rtlil_consts_def Let_def bind_res_Inr_iff declared_def)
  from fold_connect_lines [OF f] have "fold link_bit (net_pairs body) ([], []) = (c0, al)"
    by (simp add: net_pairs_def comp_def)
  from link_bits [OF this] eq show ?thesis by (intro that) auto
qed

text \<open>A tied bit has one value, whatever the rest of the design does.\<close>

lemma tied_value:
  assumes "tied al c0 b"
    and "set c0 = {(w, i) | w i x. (W w i, C x) \<in> set ps \<and> x \<in> set ''01''}"
    and "set al = {((w, i), (u, j)) | w i u j. (W w i, W u j) \<in> set ps}"
  shows "\<exists>x \<in> set ''01''. \<forall>v. solves v ps \<longrightarrow> v b = x"
  using assms(1)
proof (induction rule: tied.induct)
  case (literal b)
  then obtain w i x where "b = (w, i)" "(W w i, C x) \<in> set ps" "x \<in> set ''01''" using assms(2) by auto
  then show ?case by (intro bexI [of _ x]) (force simp: solves_def)+
next
  case (chain b c)
  then obtain w i u j where "b = (w, i)" "c = (u, j)" "(W w i, W u j) \<in> set ps" using assms(3) by auto
  then have "v b = v c" if "solves v ps" for v using that by (force simp: solves_def)
  moreover obtain x where "x \<in> set ''01''" "\<forall>v. solves v ps \<longrightarrow> v c = x" using chain.IH by blast
  ultimately show ?case by (intro bexI [of _ x]) simp_all
qed

text \<open>An untied bit can have any value: the untied bits are never connected to the tied ones.\<close>

lemma untied_free:
  assumes "\<not> tied al c0 b" and "solves v ps" and "driven_once ps"
    and "set c0 = {(w, i) | w i x. (W w i, C x) \<in> set ps \<and> x \<in> set ''01''}"
    and "set al = {((w, i), (u, j)) | w i u j. (W w i, W u j) \<in> set ps}"
  shows "\<exists>u. solves u ps \<and> u b \<noteq> v b"
proof -
  define u where "u = (\<lambda>a. if tied al c0 a then v a else if v b = CHR ''0'' then CHR ''1'' else CHR ''0'')"
  have "holds_pair u p" if p: "p \<in> set ps" for p
  proof -
    have v: "holds_pair v p" using assms(2) p by (simp add: solves_def)
    consider (const) w i x where "p = (W w i, C x)" | (link) w i x j where "p = (W w i, W x j)" | (other) c a where "p = (C c, a)"
      by (metis ybit.exhaust surj_pair)
    then show ?thesis
    proof cases
      case const
      have "x \<in> set ''01'' \<Longrightarrow> tied al c0 (w, i)" using p const assms(4) by (intro tied.literal) auto
      then show ?thesis using v const by (auto simp: u_def)
    next
      case link
      have to: "((w, i), (x, j)) \<in> set al" using p link assms(5) by auto
      have "tied al c0 (x, j)" if "tied al c0 (w, i)"
        using that
      proof cases
        case literal
        then obtain y where "(W w i, C y) \<in> set ps" using assms(4) by auto
        then show ?thesis using p link assms(3) unfolding driven_once_def by blast
      next
        case (chain c)
        then obtain y k where "c = (y, k)" "(W w i, W y k) \<in> set ps" using assms(5) by auto
        then show ?thesis using p link assms(3) chain(2) unfolding driven_once_def by blast
      qed
      then have "tied al c0 (w, i) \<longleftrightarrow> tied al c0 (x, j)" using to tied.chain by blast
      then show ?thesis using v link by (simp add: u_def)
    qed simp
  qed
  then have "solves u ps" by (simp add: solves_def)
  moreover have "u b \<noteq> v b" using assms(1) by (simp add: u_def)
  ultimately show ?thesis by blast
qed

text \<open>The bits on which all assignments that respect the connections agree with \<open>v\<close>.\<close>

definition forced :: "str \<Rightarrow> valuation \<Rightarrow> wbit \<Rightarrow> bool" where
  "forced body v b \<longleftrightarrow> (\<forall>u. solves u (net_pairs body) \<longrightarrow> u b = v b)"

text \<open>
  C18. On a netlist without double drivers the constant search is exact: a bit is found constant just
  when all assignments that respect the connections agree on it.
\<close>

theorem constants_are_forced_bits:
  assumes "rtlil_consts body = Inr (ws, const)" and "driven_once (net_pairs body)" and "solves v (net_pairs body)"
  shows "b \<in> set const \<longleftrightarrow> forced body v b"
proof -
  from assms(1) obtain c0 al where const: "const = propagate al c0"
    and c0: "set c0 = {(w, i) | w i x. (W w i, C x) \<in> set (net_pairs body) \<and> x \<in> set ''01''}"
    and al: "set al = {((w, i), (u, j)) | w i u j. (W w i, W u j) \<in> set (net_pairs body)}"
    by (rule rtlil_consts_tied)
  have "tied al c0 b \<longleftrightarrow> forced body v b"
    unfolding forced_def using tied_value [OF _ c0 al] untied_free [OF _ assms(3,2) c0 al] assms(3) by metis
  then show ?thesis unfolding const by (simp add: propagate_finds_tied)
qed

definition sample_body :: str where
  "sample_body = ''wire width 2 '' @ [bslash] @ ''a'' @ [nl] @ ''wire '' @ [bslash] @ ''b'' @ [nl] @
     ''connect '' @ [bslash] @ ''b '' @ [bslash] @ ''a [1]'' @ [nl] @
     ''connect '' @ [bslash] @ ''a [1] 1'' @ [CHR 0x27] @ ''0'' @ [nl]"

lemma sample_body_pairs:
  "net_pairs sample_body = [(W (bslash # ''b'') 0, W (bslash # ''a'') 1), (W (bslash # ''a'') 1, C (CHR ''0''))]"
  by code_simp

lemma sample_body_consts:
  "rtlil_consts sample_body = Inr ([(bslash # ''a'', 2, 0), (bslash # ''b'', 1, 0)], [(bslash # ''b'', 0), (bslash # ''a'', 1)])"
  by code_simp

theorem constants_are_forced_bits_witness:
  "forced sample_body (\<lambda>b. CHR ''0'') (bslash # ''b'', 0) \<and> \<not> forced sample_body (\<lambda>b. CHR ''0'') (bslash # ''a'', 0)"
proof -
  have "driven_once (net_pairs sample_body)" "solves (\<lambda>b. CHR ''0'') (net_pairs sample_body)"
    by (auto simp: sample_body_pairs driven_once_def solves_def)
  from constants_are_forced_bits [OF sample_body_consts this, of "(bslash # ''b'', 0)"]
    constants_are_forced_bits [OF sample_body_consts this, of "(bslash # ''a'', 0)"]
  show ?thesis by simp
qed

subsection \<open>The wires of an instance\<close>

text \<open>The instance paths in the order \<open>owner\<close> tries them, and where a wire of the flattened design belongs.\<close>

definition by_depth :: "paths \<Rightarrow> str list" where
  "by_depth paths = rev (sort_key length (rev (filter (\<lambda>p. p \<noteq> []) (map fst paths))))"

definition local_name :: "paths \<Rightarrow> str \<Rightarrow> str" where
  "local_name paths w =
     (let p = owner (by_depth paths) (tl w) in if p = [] then tl w else drop (Suc (length p)) (tl w))"

text \<open>The wire \<open>w\<close> belongs to the instance \<open>p\<close> and is known there as \<open>sg\<close>.\<close>

definition known_as :: "paths \<Rightarrow> str \<Rightarrow> str \<Rightarrow> str \<Rightarrow> bool" where
  "known_as paths p sg w \<longleftrightarrow> owner (by_depth paths) (tl w) = p \<and>
     (sg = plain_name (local_name paths w) \<or> scoped (local_name paths w) \<and> sg = local_name paths w)"











subsection \<open>From the instances to the report\<close>









subsection \<open>End to end\<close>

text \<open>The instances and the body of the flattened design, from the two netlists Yosys writes.\<close>

definition flat_design :: "nat \<Rightarrow> str \<Rightarrow> str \<Rightarrow> str \<Rightarrow> (paths \<times> str) option" where
  "flat_design limit top0 pre il =
     (case List.find (\<lambda>nb. base_name (fst nb) = Some top0) (netlist_modules pre) of
        None \<Rightarrow> None
      | Some (topn, _) \<Rightarrow>
          (case instance_paths limit (netlist_modules pre) [([], topn)] [[]] of
             None \<Rightarrow> None
           | Some paths \<Rightarrow>
               map_option (\<lambda>nb. (paths, snd nb)) (List.find (\<lambda>nb. base_name (fst nb) = Some top0) (netlist_modules il))))"


definition constant_bit :: "str \<Rightarrow> wbit \<Rightarrow> bool" where
  "constant_bit body b \<longleftrightarrow> (\<exists>x. \<forall>v. solves v (net_pairs body) \<longrightarrow> v b = x)"










text \<open>
  Why the ranges matter. The module holds two wires known as \<open>a\<close>, in the first configuration of one bit
  and of two: the range of the first stands for both (\<open>cov_const.py\<close> line 341), so the second bit counts as
  absent there and is reported, although nothing in the netlist ties it.
\<close>

definition narrow_design :: str where
  "narrow_design = ''wire '' @ [bslash] @ ''g.a'' @ [nl] @ ''wire width 2 '' @ [bslash] @ ''h.a'' @ [nl] @
     ''connect '' @ [bslash] @ ''g.a 1'' @ [CHR 0x27] @ ''0'' @ [nl] @ ''connect '' @ [bslash] @ ''h.a [0] 1'' @ [CHR 0x27] @ ''0''"

definition wide_design :: str where
  "wide_design = ''wire width 2 '' @ [bslash] @ ''a'' @ [nl] @ ''connect '' @ [bslash] @ ''a 2'' @ [CHR 0x27] @ ''00''"

definition netlist_of :: "str \<Rightarrow> str" where
  "netlist_of body = nl # ''module '' @ [bslash] @ ''m'' @ [nl] @ body @ [nl] @ ''end'' @ [nl]"

definition two_widths :: yosys where
  "two_widths s =
     (let d = netlist_of (if s = join [nl] (yosys_script [] [] ''m'' True ''w/c.pre.il'' ''w/c.il'') then narrow_design else wide_design)
      in Inr (d, d))"

definition two_configs :: "build_cfg list" where
  "two_configs = [(''c'', [], None), (''d'', [], None)]"

lemma two_widths_consts:
  "yosys_constants two_widths 2 [] ''w'' True ''m'' two_configs =
     Inr (Some ([(''m'', [(''a'', ({0, 1}, 0, 2)), (''g.a'', ({0}, 0, 1)), (''h.a'', ({0}, 0, 2))])], [''c'', ''d'']))"
  by code_simp

lemma narrow_flat:
  "flat_design 2 ''m'' (netlist_of narrow_design) (netlist_of narrow_design) = Some ([([], bslash # ''m'')], narrow_design)"
  by code_simp

lemma narrow_pairs: "net_pairs narrow_design = [(W (bslash # ''g.a'') 0, C (CHR ''0'')), (W (bslash # ''h.a'') 0, C (CHR ''0''))]"
  by code_simp

lemma live_bit_reported:
  "(case yosys_constants two_widths 2 [] ''w'' True ''m'' two_configs of
      Inr (Some (consts, labels)) \<Rightarrow> (case map_of consts ''m'' of
        Some sigs \<Rightarrow> (case map_of sigs ''a'' of Some b \<Rightarrow> 1 \<in> fst b | None \<Rightarrow> False) | None \<Rightarrow> False)
    | _ \<Rightarrow> False)"
  "known_as [([], bslash # ''m'')] [] ''a'' (bslash # ''h.a'')"
  "\<not> constant_bit narrow_design (bslash # ''h.a'', 1)"
proof -
  show "\<not> constant_bit narrow_design (bslash # ''h.a'', 1)"
  proof
    assume "constant_bit narrow_design (bslash # ''h.a'', 1)"
    then obtain x where "\<And>v. solves v (net_pairs narrow_design) \<Longrightarrow> v (bslash # ''h.a'', 1) = x"
      by (auto simp: constant_bit_def)
    from this [of "(\<lambda>b. CHR ''0'')"] this [of "(\<lambda>b. CHR ''0'')((bslash # ''h.a'', 1) := CHR ''1'')"] show False
      by (auto simp: narrow_pairs solves_def)
  qed
  show "known_as [([], bslash # ''m'')] [] ''a'' (bslash # ''h.a'')"
    by (simp add: known_as_def local_name_def by_depth_def owner_def) code_simp
qed (simp add: two_widths_consts)

end
