(* ===== verification/Fnmatch.thy ===== *)
theory Fnmatch
  imports PyText
begin

text \<open>
  \<open>fnmatch.fnmatch\<close> of Python's library, which decides whether a waiver's \<open>sig\<close> glob selects a
  signal. A pattern is translated into tokens the way \<open>fnmatch.translate\<close> does: a bracket
  expression is cut into chunks at the hyphens that form ranges, empty ranges are dropped, and a
  bracket without a closing one is an ordinary character.
\<close>

datatype gtok = GStar | GOne "char \<Rightarrow> bool"

subsection \<open>Bracket expressions\<close>

text \<open>The body of a bracket expression and what follows it; \<open>None\<close> when it never closes.\<close>

definition class_split :: "str \<Rightarrow> (str \<times> str) option" where
  "class_split s =
     (let (a, s1) = (if startswith s ''!'' then (''!'', tl s) else ([], s));
          (b, s2) = (if startswith s1 '']'' then ('']'', tl s1) else ([], s1))
      in case cut '']'' s2 of None \<Rightarrow> None | Some (u, v) \<Rightarrow> Some (a @ b @ u, v))"

text \<open>
  Chunks between range hyphens. \<open>m\<close> is how many characters the current chunk (collected in
  reverse) holds before a hyphen can end it: the first character of a chunk is never one.
\<close>

fun split_dash :: "nat \<Rightarrow> str \<Rightarrow> str \<Rightarrow> str list" where
  "split_dash m acc [] = [rev acc]"
| "split_dash m acc (c # s) =
     (if c = CHR ''-'' \<and> m \<le> length acc then rev acc # split_dash 2 [] s
      else split_dash m (c # acc) s)"

definition last_chunk :: "str list \<Rightarrow> str list" where
  "last_chunk cs =
     (if 2 \<le> length cs \<and> last cs = []
      then butlast (butlast cs) @ [last (butlast cs) @ ''-''] else cs)"

fun drop_empty_ranges :: "str list \<Rightarrow> str list" where
  "drop_empty_ranges [] = []"
| "drop_empty_ranges [c] = [c]"
| "drop_empty_ranges (c # d # cs) =
     (case drop_empty_ranges (d # cs) of
        [] \<Rightarrow> [c]
      | e # es \<Rightarrow> if hd e < last c then (butlast c @ tl e) # es else c # e # es)"

definition chunks :: "str \<Rightarrow> str list" where
  "chunks body =
     drop_empty_ranges (last_chunk (split_dash (if startswith body ''!'' then 2 else 1) [] body))"

text \<open>The characters a list of chunks stands for: their own, and the ranges between them.\<close>

fun chunk_mem :: "str list \<Rightarrow> char \<Rightarrow> bool" where
  "chunk_mem [] x = False"
| "chunk_mem [c] x = (x \<in> set c)"
| "chunk_mem (c # d # cs) x = (x \<in> set c \<or> last c \<le> x \<and> x \<le> hd d \<or> chunk_mem (d # cs) x)"

definition class_mem :: "str \<Rightarrow> char \<Rightarrow> bool" where
  "class_mem body x =
     (case chunks body of
        [] \<Rightarrow> False
      | c # cs \<Rightarrow>
          if c = [] \<and> cs = [] then False
          else if c = ''!'' \<and> cs = [] then True
          else if startswith c ''!'' then \<not> chunk_mem (tl c # cs) x
          else chunk_mem (c # cs) x)"

subsection \<open>Patterns\<close>

lemma cut_length: "cut d s = Some (u, v) \<Longrightarrow> length v + length d \<le> length s"
  by (drule cut_Some) simp

lemma class_split_length: "class_split s = Some (u, v) \<Longrightarrow> length v < length s"
  by (cases s)
     (auto simp: class_split_def split: if_splits option.splits prod.splits dest!: cut_length)

function (sequential) translate_glob :: "str \<Rightarrow> gtok list" where
  "translate_glob [] = []"
| "translate_glob (c # s) =
     (if c = CHR ''*'' then GStar # translate_glob s
      else if c = CHR ''?'' then GOne (\<lambda>x. True) # translate_glob s
      else if c = CHR ''['' then
        (case class_split s of
           None \<Rightarrow> GOne (\<lambda>x. x = CHR ''['') # translate_glob s
         | Some (body, r) \<Rightarrow> GOne (class_mem body) # translate_glob r)
      else GOne (\<lambda>x. x = c) # translate_glob s)"
  by pat_completeness auto
termination
  by (relation "measure length") (auto dest: class_split_length)

fun gmatch :: "gtok list \<Rightarrow> str \<Rightarrow> bool" where
  "gmatch [] s \<longleftrightarrow> s = []"
| "gmatch (GStar # ts) [] \<longleftrightarrow> gmatch ts []"
| "gmatch (GStar # ts) (c # s) \<longleftrightarrow> gmatch ts (c # s) \<or> gmatch (GStar # ts) s"
| "gmatch (GOne p # ts) [] \<longleftrightarrow> False"
| "gmatch (GOne p # ts) (c # s) \<longleftrightarrow> p c \<and> gmatch ts s"

definition fnmatch :: "str \<Rightarrow> str \<Rightarrow> bool" where
  "fnmatch name pat = gmatch (translate_glob pat) name"

lemma gmatch_star: "gmatch (GStar # ts) s \<longleftrightarrow> (\<exists>u v. s = u @ v \<and> gmatch ts v)"
proof (induction s)
  case (Cons c s)
  then show ?case
    by (auto simp: Cons_eq_append_conv)
qed simp

lemma gmatch_ones:
  "gmatch (map GOne ps @ ts) s \<longleftrightarrow>
     length ps \<le> length s \<and> (\<forall>i < length ps. (ps ! i) (s ! i)) \<and> gmatch ts (drop (length ps) s)"
proof (induction ps arbitrary: s)
  case (Cons p ps)
  show ?case
  proof (cases s)
    case (Cons c s')
    have "(\<forall>i < Suc (length ps). ((p # ps) ! i) ((c # s') ! i)) \<longleftrightarrow>
        p c \<and> (\<forall>i < length ps. (ps ! i) (s' ! i))"
      by (auto simp: less_Suc_eq_0_disj)
    with Cons.IH [of s'] show ?thesis
      unfolding Cons by auto
  qed simp
qed simp

subsection \<open>Literal text and single-digit classes\<close>

definition plain_glob :: "str \<Rightarrow> bool" where
  "plain_glob t \<longleftrightarrow> CHR ''*'' \<notin> set t \<and> CHR ''?'' \<notin> set t"

lemma class_split_open: "class_split (''[]'' @ r) = Some (''['', r)"
  by (simp add: class_split_def)

lemma class_mem_single: "c \<noteq> CHR ''!'' \<Longrightarrow> class_mem [c] = (\<lambda>x. x = c)"
  by (rule ext) (simp add: class_mem_def chunks_def last_chunk_def)

lemma translate_open: "translate_glob (''[[]'' @ r) = GOne (\<lambda>x. x = CHR ''['') # translate_glob r"
  using class_split_open [of r] by (simp add: class_mem_single)

text \<open>A sequence of single characters and ranges, as it is written inside brackets.\<close>

datatype item = Single char | Range char char

fun item_str :: "item \<Rightarrow> str" where
  "item_str (Single a) = [a]"
| "item_str (Range a b) = [a, CHR ''-'', b]"

fun item_mem :: "item \<Rightarrow> char \<Rightarrow> bool" where
  "item_mem (Single a) x = (x = a)"
| "item_mem (Range a b) x = (a \<le> x \<and> x \<le> b)"

fun item_ok :: "item \<Rightarrow> bool" where
  "item_ok (Single a) = is_digit a"
| "item_ok (Range a b) = (is_digit a \<and> is_digit b \<and> a \<le> b)"

fun ranges_ok :: "str list \<Rightarrow> bool" where
  "ranges_ok [] = True"
| "ranges_ok [c] = (c \<noteq> [])"
| "ranges_ok (c # d # cs) = (c \<noteq> [] \<and> last c \<le> hd d \<and> ranges_ok (d # cs))"

lemma drop_empty_ranges_id: "ranges_ok cs \<Longrightarrow> drop_empty_ranges cs = cs"
  by (induction cs rule: drop_empty_ranges.induct) auto

lemma ranges_ok_last: "ranges_ok cs \<Longrightarrow> c \<in> set cs \<Longrightarrow> c \<noteq> []"
  by (induction cs rule: ranges_ok.induct) auto

lemma split_dash_ne [simp]: "split_dash m acc s \<noteq> []"
  by (induction m acc s rule: split_dash.induct) auto

lemma hd_split_dash: "acc \<noteq> [] \<Longrightarrow> hd (split_dash m acc s) \<noteq> [] \<and> hd (hd (split_dash m acc s)) = last acc"
  by (induction m acc s rule: split_dash.induct) (auto simp: hd_rev)

lemma digit_not_minus: "is_digit a \<Longrightarrow> a \<noteq> CHR ''-''"
  by auto

text \<open>
  With a non-empty chunk under way that can take one more character, well-formed items are cut
  exactly at the hyphens of their ranges.
\<close>

lemma split_dash_items:
  assumes "acc \<noteq> []" and "m \<le> Suc (length acc)" and "\<And>i. i \<in> set is \<Longrightarrow> item_ok i"
  shows "ranges_ok (split_dash m acc (concat (map item_str is)))
    \<and> (\<forall>x. chunk_mem (split_dash m acc (concat (map item_str is))) x \<longleftrightarrow>
          x \<in> set acc \<or> (\<exists>i \<in> set is. item_mem i x))"
  using assms
proof (induction "is" arbitrary: m acc)
  case Nil
  then show ?case by simp
next
  case (Cons i "is")
  show ?case
  proof (cases i)
    case (Single a)
    with Cons.prems have "a \<noteq> CHR ''-''" by (force intro: digit_not_minus)
    then have eq: "split_dash m acc (concat (map item_str (i # is))) =
        split_dash m (a # acc) (concat (map item_str is))"
      by (simp add: Single)
    show ?thesis
      unfolding eq using Cons.IH [of "a # acc" m] Cons.prems by (auto simp: Single)
  next
    case (Range a b)
    with Cons.prems(3) [of i] have ab: "is_digit a" "is_digit b" "a \<le> b" by auto
    then have ne: "a \<noteq> CHR ''-''" "b \<noteq> CHR ''-''" by (auto intro: digit_not_minus)
    let ?t = "concat (map item_str is)"
    have eq: "split_dash m acc (concat (map item_str (i # is))) =
        rev (a # acc) # split_dash 2 [b] ?t"
      using ne Cons.prems by (simp add: Range)
    obtain d ds where d: "split_dash 2 [b] ?t = d # ds"
      using split_dash_ne by (metis list.exhaust)
    with hd_split_dash [of "[b]" 2 ?t] have hd_d: "hd d = b" by simp
    have ih: "ranges_ok (d # ds) \<and> (\<forall>x. chunk_mem (d # ds) x \<longleftrightarrow> x = b \<or> (\<exists>i \<in> set is. item_mem i x))"
      using Cons.IH [of "[b]" 2] Cons.prems(3) unfolding d by simp
    show ?thesis
      unfolding eq d using ih ab(3) hd_d by (auto simp: Range last_rev)
  qed
qed

lemma class_mem_items:
  assumes "is \<noteq> []" and ok: "\<And>i. i \<in> set is \<Longrightarrow> item_ok i"
  shows "class_mem (concat (map item_str is)) x \<longleftrightarrow> (\<exists>i \<in> set is. item_mem i x)"
proof -
  obtain i js where ij: "is = i # js"
    using assms(1) by (metis list.exhaust)
  define s where "s = concat (map item_str is)"
  have dig: "is_digit (hd s)" "s \<noteq> []"
    using ok [of i] by (cases i; auto simp: s_def ij)+
  have bang: "hd s \<noteq> CHR ''!''"
    using dig(1) by (auto simp: is_digit_def)
  have key: "ranges_ok (split_dash 1 [] s) \<and>
      (\<forall>x. chunk_mem (split_dash 1 [] s) x \<longleftrightarrow> (\<exists>i \<in> set is. item_mem i x)) \<and>
      hd (split_dash 1 [] s) \<noteq> [] \<and> hd (hd (split_dash 1 [] s)) = hd s"
  proof (cases i)
    case (Single a)
    have "split_dash 1 [] s = split_dash 1 [a] (concat (map item_str js))"
      by (simp add: s_def ij Single)
    then show ?thesis
      using split_dash_items [of "[a]" 1 js] hd_split_dash [of "[a]" 1] ok
      by (simp add: ij Single s_def)
  next
    case (Range a b)
    have ab: "is_digit a" "is_digit b" "a \<le> b" using ok [of i] by (auto simp: ij Range)
    then have "a \<noteq> CHR ''-''" "b \<noteq> CHR ''-''" by (auto intro: digit_not_minus)
    then have eq: "split_dash 1 [] s = [a] # split_dash 2 [b] (concat (map item_str js))"
      by (simp add: s_def ij Range)
    obtain d ds where d: "split_dash 2 [b] (concat (map item_str js)) = d # ds"
      using split_dash_ne by (metis list.exhaust)
    with hd_split_dash [of "[b]" 2 "concat (map item_str js)"] have "hd d = b" by simp
    moreover have "ranges_ok (d # ds) \<and>
        (\<forall>x. chunk_mem (d # ds) x \<longleftrightarrow> x = b \<or> (\<exists>i \<in> set js. item_mem i x))"
      using split_dash_items [of "[b]" 2 js] ok unfolding d by (simp add: ij)
    ultimately show ?thesis
      unfolding eq d using ab(3) by (auto simp: ij Range s_def)
  qed
  then have rok: "ranges_ok (split_dash 1 [] s)" by blast
  have lc: "last_chunk (split_dash 1 [] s) = split_dash 1 [] s"
    using ranges_ok_last [OF rok] by (auto simp: last_chunk_def)
  have nb: "\<not> startswith s ''!''"
    using bang dig(2) by (cases s) auto
  have ch: "chunks s = split_dash 1 [] s"
    using lc drop_empty_ranges_id [OF rok] nb by (simp add: chunks_def)
  obtain c cs where c: "split_dash 1 [] s = c # cs"
    using split_dash_ne by (metis list.exhaust)
  with key bang have "c \<noteq> []" "hd c \<noteq> CHR ''!''" by auto
  moreover have "chunks s = c # cs" using ch c by (rule trans)
  ultimately have "class_mem s x = chunk_mem (c # cs) x"
    by (cases c) (auto simp: class_mem_def)
  with key [unfolded c] show ?thesis
    unfolding s_def [symmetric] by blast
qed

lemma items_no_close:
  assumes "\<And>i. i \<in> set is \<Longrightarrow> item_ok i"
  shows "CHR '']'' \<notin> set (concat (map item_str is))"
proof
  assume "CHR '']'' \<in> set (concat (map item_str is))"
  then obtain i where "i \<in> set is" "CHR '']'' \<in> set (item_str i)" by auto
  with assms [of i] show False
    by (cases i) (auto simp: is_digit_def)
qed

lemma cut_append: "d \<notin> set u \<Longrightarrow> cut [d] (u @ d # v) = Some (u, v)"
  by (induction u) auto

lemma translate_items:
  assumes "is \<noteq> []" and ok: "\<And>i. i \<in> set is \<Longrightarrow> item_ok i"
  shows "translate_glob (CHR ''['' # concat (map item_str is) @ CHR '']'' # r) =
    GOne (\<lambda>x. \<exists>i \<in> set is. item_mem i x) # translate_glob r"
proof -
  define s where "s = concat (map item_str is)"
  obtain c t where ct: "s = c # t"
    using assms(1) ok [of "hd is"] by (cases "is"; cases "hd is") (auto simp: s_def)
  have "is_digit c"
    using assms(1) ok [of "hd is"] ct by (cases "is"; cases "hd is") (auto simp: s_def)
  then have "c \<noteq> CHR ''!''" "c \<noteq> CHR '']''" by (auto simp: is_digit_def)
  moreover have "CHR '']'' \<notin> set s"
    unfolding s_def by (rule items_no_close) (rule ok)
  ultimately have "class_split (s @ CHR '']'' # r) = Some (s, r)"
    using cut_append [of "CHR '']''" s r] by (simp add: class_split_def ct)
  then show ?thesis
    using class_mem_items [OF assms] by (simp add: s_def [symmetric] fun_eq_iff)
qed

end
