(* ===== verification/Json.thy ===== *)
theory Json
  imports PyText
begin

text \<open>
  \<open>json.loads\<close> and \<open>json.dumps\<close> as the waiver tools use them, and \<open>str()\<close> of a parsed
  value. A number with a fraction or an exponent is kept as its text, since the tools never compute
  with it; object members are a dictionary, so a repeated key keeps its last value. An escape
  that names a code point above 255 is outside the texts modelled and is refused.
\<close>

datatype json =
    JNull
  | JBool bool
  | JInt int
  | JFloat str
  | JStr str
  | JList "json list"
  | JObj "(str \<times> json) list"

subsection \<open>Reading\<close>

definition json_space :: "char \<Rightarrow> bool" where
  "json_space c \<longleftrightarrow> c = CHR '' '' \<or> c = CHR 0x09 \<or> c = nl \<or> c = CHR 0x0D"

abbreviation skip_ws :: "str \<Rightarrow> str" where
  "skip_ws \<equiv> dropWhile json_space"

definition hex_val :: "char \<Rightarrow> nat option" where
  "hex_val c =
     (if is_digit c then Some (digit_val c)
      else if 97 \<le> code c \<and> code c \<le> 102 then Some (code c - 87)
      else if 65 \<le> code c \<and> code c \<le> 70 then Some (code c - 55)
      else None)"

definition esc_char :: "char \<Rightarrow> char option" where
  "esc_char e =
     (if e = dquote then Some dquote else if e = bslash then Some bslash
      else if e = CHR ''/'' then Some (CHR ''/'')
      else if e = CHR ''b'' then Some (CHR 0x08) else if e = CHR ''f'' then Some (CHR 0x0C)
      else if e = CHR ''n'' then Some nl else if e = CHR ''r'' then Some (CHR 0x0D)
      else if e = CHR ''t'' then Some (CHR 0x09) else None)"

text \<open>The text of a string after its opening quote, and what follows the closing one.\<close>

fun json_string :: "str \<Rightarrow> (str \<times> str) option" where
  "json_string [] = None"
| "json_string (c # s) =
     (if c = dquote then Some ([], s)
      else if c = bslash then
        (case s of
           [] \<Rightarrow> None
         | e # t \<Rightarrow>
             if e = CHR ''u'' then
               (case t of
                  a # b # h # l # t' \<Rightarrow>
                    (case (hex_val a, hex_val b, hex_val h, hex_val l) of
                       (Some 0, Some 0, Some x, Some y) \<Rightarrow>
                         map_option (map_prod ((#) (char_of (16 * x + y))) id) (json_string t')
                     | _ \<Rightarrow> None)
                | _ \<Rightarrow> None)
             else
               (case esc_char e of
                  None \<Rightarrow> None
                | Some x \<Rightarrow> map_option (map_prod ((#) x) id) (json_string t)))
      else if code c < 32 then None
      else map_option (map_prod ((#) c) id) (json_string s))"

text \<open>\<open>(-?(?:0|[1-9]\d*))(\.\d+)?([eE][-+]?\d+)?\<close>, read from the front.\<close>

definition json_frac :: "str \<Rightarrow> str \<times> str" where
  "json_frac s =
     (case s of
        p # d # t \<Rightarrow>
          if p = CHR ''.'' \<and> is_digit d then (p # takeWhile is_digit (d # t), dropWhile is_digit (d # t))
          else ([], s)
      | _ \<Rightarrow> ([], s))"

definition json_exp :: "str \<Rightarrow> str \<times> str" where
  "json_exp s =
     (case s of
        [] \<Rightarrow> ([], s)
      | e # t \<Rightarrow>
          if e = CHR ''e'' \<or> e = CHR ''E'' then
            (let (sg, u) = (case t of x # t' \<Rightarrow>
                   if x = CHR ''-'' \<or> x = CHR ''+'' then ([x], t') else ([], t) | [] \<Rightarrow> ([], []))
             in if u \<noteq> [] \<and> is_digit (hd u)
                then (e # sg @ takeWhile is_digit u, dropWhile is_digit u) else ([], s))
          else ([], s))"

definition json_number :: "str \<Rightarrow> (json \<times> str) option" where
  "json_number s =
     (let (sg, t) = (if startswith s ''-'' then (''-'', tl s) else ([], s))
      in if t = [] \<or> \<not> is_digit (hd t) then None
         else
           (let (ds, u) = (if hd t = CHR ''0'' then (''0'', tl t) else (takeWhile is_digit t, dropWhile is_digit t));
                (fr, v) = json_frac u;
                (ex, w) = json_exp v
            in if fr = [] \<and> ex = []
               then (case py_int (sg @ ds) of None \<Rightarrow> None | Some i \<Rightarrow> Some (JInt i, w))
               else Some (JFloat (sg @ ds @ fr @ ex), w)))"

definition json_word :: "str \<Rightarrow> (json \<times> str) option" where
  "json_word s =
     (if startswith s ''null'' then Some (JNull, drop 4 s)
      else if startswith s ''true'' then Some (JBool True, drop 4 s)
      else if startswith s ''false'' then Some (JBool False, drop 5 s)
      else if startswith s ''NaN'' then Some (JFloat ''nan'', drop 3 s)
      else if startswith s ''Infinity'' then Some (JFloat ''inf'', drop 8 s)
      else if startswith s ''-Infinity'' then Some (JFloat ''-inf'', drop 9 s)
      else json_number s)"

text \<open>
  The recursive scanner. Every second call consumes a character, so twice the length of the text
  is enough fuel; \<open>json_elems\<close> stands at the start of an element, \<open>json_members\<close> at a key.
\<close>

fun json_value :: "nat \<Rightarrow> str \<Rightarrow> (json \<times> str) option"
  and json_elems :: "nat \<Rightarrow> str \<Rightarrow> (json list \<times> str) option"
  and json_members :: "nat \<Rightarrow> str \<Rightarrow> ((str \<times> json) list \<times> str) option"
where
  "json_value 0 s = None"
| "json_value (Suc n) s =
     (case s of
        [] \<Rightarrow> None
      | c # r \<Rightarrow>
          if c = dquote then map_option (map_prod JStr id) (json_string r)
          else if c = CHR ''['' then
            (if startswith (skip_ws r) '']'' then Some (JList [], tl (skip_ws r))
             else map_option (map_prod JList id) (json_elems n (skip_ws r)))
          else if c = CHR ''{'' then
            (if startswith (skip_ws r) ''}'' then Some (JObj [], tl (skip_ws r))
             else map_option (map_prod (\<lambda>ms. JObj (fold (\<lambda>(k, v). AList.update k v) ms [])) id)
                    (json_members n (skip_ws r)))
          else json_word s)"
| "json_elems 0 s = None"
| "json_elems (Suc n) s =
     (case json_value n s of
        None \<Rightarrow> None
      | Some (v, r) \<Rightarrow>
          (let u = skip_ws r
           in if startswith u '']'' then Some ([v], tl u)
              else if startswith u '','' then map_option (map_prod ((#) v) id) (json_elems n (skip_ws (tl u)))
              else None))"
| "json_members 0 s = None"
| "json_members (Suc n) s =
     (case s of
        [] \<Rightarrow> None
      | c # r \<Rightarrow>
          if c \<noteq> dquote then None
          else
            (case json_string r of
               None \<Rightarrow> None
             | Some (k, t) \<Rightarrow>
                 if \<not> startswith (skip_ws t) '':'' then None
                 else
                   (case json_value n (skip_ws (tl (skip_ws t))) of
                      None \<Rightarrow> None
                    | Some (v, t') \<Rightarrow>
                        (let u = skip_ws t'
                         in if startswith u ''}'' then Some ([(k, v)], tl u)
                            else if startswith u '','' then
                              map_option (map_prod ((#) (k, v)) id) (json_members n (skip_ws (tl u)))
                            else None))))"

definition json_loads :: "str \<Rightarrow> json option" where
  "json_loads s =
     (case json_value (2 * length s + 2) (skip_ws s) of
        None \<Rightarrow> None
      | Some (v, r) \<Rightarrow> if skip_ws r = [] then Some v else None)"

subsection \<open>Writing\<close>

definition hex_digit :: "nat \<Rightarrow> char" where
  "hex_digit n = (if n < 10 then digit_char n else char_of (87 + n))"

definition json_esc :: "char \<Rightarrow> str" where
  "json_esc c =
     (if c = dquote then [bslash, dquote] else if c = bslash then [bslash, bslash]
      else if c = nl then [bslash, CHR ''n''] else if c = CHR 0x0D then [bslash, CHR ''r'']
      else if c = CHR 0x09 then [bslash, CHR ''t''] else if c = CHR 0x0C then [bslash, CHR ''f'']
      else if c = CHR 0x08 then [bslash, CHR ''b'']
      else if code c < 32 \<or> 127 \<le> code c
        then bslash # ''u00'' @ [hex_digit (code c div 16), hex_digit (code c mod 16)]
      else [c])"

definition json_quote :: "str \<Rightarrow> str" where
  "json_quote s = dquote # concat (map json_esc s) @ [dquote]"

text \<open>
  \<open>json.dumps\<close> with the separators between items and after a key, and the way strings are written:
  \<open>json_quote\<close>, or \<open>raw_quote\<close> under \<open>ensure_ascii=False\<close>.
\<close>

definition raw_esc :: "char \<Rightarrow> str" where
  "raw_esc c = (if 127 \<le> code c then [c] else json_esc c)"

definition raw_quote :: "str \<Rightarrow> str" where
  "raw_quote s = dquote # concat (map raw_esc s) @ [dquote]"

fun json_render :: "(str \<Rightarrow> str) \<Rightarrow> str \<Rightarrow> str \<Rightarrow> json \<Rightarrow> str" where
  "json_render qt sep colon JNull = ''null''"
| "json_render qt sep colon (JBool b) = (if b then ''true'' else ''false'')"
| "json_render qt sep colon (JInt i) = int_str i"
| "json_render qt sep colon (JFloat t) = t"
| "json_render qt sep colon (JStr s) = qt s"
| "json_render qt sep colon (JList vs) = ''['' @ join sep (map (json_render qt sep colon) vs) @ '']''"
| "json_render qt sep colon (JObj ms) =
     ''{'' @ join sep (map (\<lambda>(k, v). qt k @ colon @ json_render qt sep colon v) ms) @ ''}''"

text \<open>\<open>json.dumps(v, separators=(',', ':'))\<close>.\<close>

definition json_dumps :: "json \<Rightarrow> str" where
  "json_dumps = json_render json_quote '','' '':''"

subsection \<open>\<open>str()\<close> and truth of a parsed value\<close>

definition repr_char :: "char \<Rightarrow> char \<Rightarrow> str" where
  "repr_char q c =
     (if c = q \<or> c = bslash then [bslash, c]
      else if c = nl then [bslash, CHR ''n''] else if c = CHR 0x0D then [bslash, CHR ''r'']
      else if c = CHR 0x09 then [bslash, CHR ''t'']
      else if code c < 32 \<or> 127 \<le> code c \<and> code c \<le> 160 \<or> code c = 173
        then bslash # CHR ''x'' # [hex_digit (code c div 16), hex_digit (code c mod 16)]
      else [c])"

definition py_repr_str :: "str \<Rightarrow> str" where
  "py_repr_str s =
     (let q = (if CHR 0x27 \<in> set s \<and> dquote \<notin> set s then dquote else CHR 0x27)
      in q # concat (map (repr_char q) s) @ [q])"

fun py_repr :: "json \<Rightarrow> str" where
  "py_repr JNull = ''None''"
| "py_repr (JBool b) = (if b then ''True'' else ''False'')"
| "py_repr (JInt i) = int_str i"
| "py_repr (JFloat t) = t"
| "py_repr (JStr s) = py_repr_str s"
| "py_repr (JList vs) = ''['' @ join '', '' (map py_repr vs) @ '']''"
| "py_repr (JObj ms) = ''{'' @ join '', '' (map (\<lambda>(k, v). py_repr_str k @ '': '' @ py_repr v) ms) @ ''}''"

fun py_str :: "json \<Rightarrow> str" where
  "py_str (JStr s) = s"
| "py_str v = py_repr v"

fun truthy :: "json \<Rightarrow> bool" where
  "truthy JNull = False"
| "truthy (JBool b) = b"
| "truthy (JInt i) = (i \<noteq> 0)"
| "truthy (JFloat t) = (\<exists>c \<in> set (takeWhile (\<lambda>c. c \<noteq> CHR ''e'' \<and> c \<noteq> CHR ''E'') t). c \<notin> set ''-.0'')"
| "truthy (JStr s) = (s \<noteq> [])"
| "truthy (JList vs) = (vs \<noteq> [])"
| "truthy (JObj ms) = (ms \<noteq> [])"

subsection \<open>What is written is read back\<close>

lemma hex_val_digit: "n < 16 \<Longrightarrow> hex_val (hex_digit n) = Some n"
proof (cases "n < 10")
  case False
  assume "n < 16"
  with False have "code (hex_digit n) = 87 + n" by (simp add: hex_digit_def)
  with False \<open>n < 16\<close> show ?thesis by (simp add: hex_val_def is_digit_def)
qed (simp add: hex_digit_def hex_val_def)

lemma json_string_esc:
  "json_string (json_esc c @ t) = map_option (map_prod ((#) c) id) (json_string t)"
proof -
  have lt: "code c < 256"
    using of_char_mod_256 [of c, where ?'a = nat] mod_less_divisor [of 256 "code c"] by linarith
  then have hex: "hex_val (hex_digit (code c div 16)) = Some (code c div 16)"
      "hex_val (hex_digit (code c mod 16)) = Some (code c mod 16)"
    by (auto intro!: hex_val_digit simp: less_mult_imp_div_less)
  have whole: "char_of (16 * (code c div 16) + code c mod 16) = c" by simp
  have zero: "hex_val (CHR ''0'') = Some 0" by (simp add: hex_val_def is_digit_def digit_val_def)
  show ?thesis
  proof (cases "code c < 32 \<or> 127 \<le> code c")
    case True
    then have "c \<noteq> dquote" "c \<noteq> bslash" by auto
    with hex whole zero show ?thesis
      by (simp add: json_esc_def esc_char_def)
  next
    case False
    then show ?thesis by (auto simp: json_esc_def esc_char_def)
  qed
qed

fun json_plain :: "json \<Rightarrow> bool" where
  "json_plain (JFloat t) = False"
| "json_plain (JList vs) = (\<forall>v \<in> set vs. json_plain v)"
| "json_plain (JObj ms) = (distinct (map fst ms) \<and> (\<forall>(k, v) \<in> set ms. json_plain v))"
| "json_plain v = True"

text \<open>What may follow a value in a printed text: nothing, a line end, or one of the delimiters.\<close>

definition json_stop :: "str \<Rightarrow> bool" where
  "json_stop r \<longleftrightarrow> r = [] \<or> hd r = CHR '','' \<or> hd r = CHR '']'' \<or> hd r = CHR ''}'' \<or> hd r = nl"

lemma stop_no_digit: "json_stop r \<Longrightarrow> takeWhile is_digit r = [] \<and> dropWhile is_digit r = r"
  by (cases r) (auto simp: json_stop_def is_digit_def)

lemma nat_str_hd: "hd (nat_str n) = CHR ''0'' \<Longrightarrow> nat_str n = ''0''"
proof (induction n rule: nat_str.induct)
  case (1 n)
  show ?case
  proof (cases "n < 10")
    case True
    with 1(2) show ?thesis by (simp add: nat_str.simps [of n])
  next
    case False
    then have eq: "nat_str n = nat_str (n div 10) @ [digit_char (n mod 10)]"
      by (simp add: nat_str.simps [of n])
    with 1(2) have "hd (nat_str (n div 10)) = CHR ''0''" by simp
    moreover have "nat_str 0 = ''0''" by code_simp
    ultimately have "nat_str (n div 10) = nat_str 0" using 1(1) False by simp
    then have "n div 10 = 0" by (simp add: nat_str_inj)
    with False show ?thesis by simp
  qed
qed

lemma int_digits_nat_str: "int_digits 0 (nat_str n) = Some n"
  using py_nat_nat_str [of n] nat_str_hd_last(1) [of n] by (simp add: py_nat_def)

lemma takeWhile_digits:
  "(\<And>c. c \<in> set ds \<Longrightarrow> is_digit c) \<Longrightarrow> json_stop r \<Longrightarrow>
   takeWhile is_digit (ds @ r) = ds \<and> dropWhile is_digit (ds @ r) = r"
  using stop_no_digit [of r] by (induction ds) auto

lemma stop_no_fraction: "json_stop r \<Longrightarrow> json_frac r = ([], r) \<and> json_exp r = ([], r)"
  by (cases r) (auto simp: json_stop_def json_frac_def json_exp_def split: list.splits)

lemma json_number_nat:
  assumes "json_stop r"
  shows "(if hd (nat_str n @ r) = CHR ''0'' then (''0'', tl (nat_str n @ r))
      else (takeWhile is_digit (nat_str n @ r), dropWhile is_digit (nat_str n @ r))) = (nat_str n, r)"
proof (cases "hd (nat_str n @ r) = CHR ''0''")
  case True
  then have "nat_str n = ''0''" using nat_str_hd [of n] by simp
  then show ?thesis by simp
next
  case False
  then show ?thesis
    using takeWhile_digits [of "nat_str n", OF nat_str_digits assms] by simp
qed

lemma json_number_int:
  assumes "json_stop r"
  shows "json_number (int_str i @ r) = Some (JInt i, r)"
proof (cases "i < 0")
  case True
  then have "int_str i @ r = CHR ''-'' # nat_str (nat (- i)) @ r" by (simp add: int_str_def)
  moreover have "py_int (CHR ''-'' # nat_str (nat (- i))) = Some i"
    using py_int_int_str [of i] True by (simp add: int_str_def)
  ultimately show ?thesis
    unfolding json_number_def
    using json_number_nat [OF assms, of "nat (- i)"] stop_no_fraction [OF assms]
      nat_str_hd_last(1) [of "nat (- i)"]
    by (simp add: Let_def)
next
  case False
  then have eq: "int_str i @ r = nat_str (nat i) @ r" by (simp add: int_str_def)
  have "is_digit (hd (nat_str (nat i)))" by (rule nat_str_hd_last)
  then have "\<not> startswith (nat_str (nat i) @ r) ''-''"
    by (cases "nat_str (nat i)") auto
  moreover have "py_int (nat_str (nat i)) = Some i" using False by simp
  ultimately show ?thesis
    unfolding json_number_def eq
    using json_number_nat [OF assms, of "nat i"] stop_no_fraction [OF assms]
      nat_str_hd_last(1) [of "nat i"]
    by (simp add: Let_def)
qed

lemma json_word_int: "json_stop r \<Longrightarrow> json_word (int_str i @ r) = Some (JInt i, r)"
proof -
  assume "json_stop r"
  have "json_word (int_str i @ r) = json_number (int_str i @ r)"
  proof (cases "i < 0")
    case True
    obtain c cs where c: "nat_str (nat (- i)) = c # cs" "is_digit c"
      using nat_str_hd_last(1) [of "nat (- i)"] by (cases "nat_str (nat (- i))") auto
    then have "c \<noteq> CHR ''I''" by (auto simp: is_digit_def)
    with c(1) True show ?thesis by (simp add: json_word_def int_str_def)
  next
    case False
    obtain c cs where c: "nat_str (nat i) = c # cs" "is_digit c"
      using nat_str_hd_last(1) [of "nat i"] by (cases "nat_str (nat i)") auto
    then have "c \<notin> set ''ntfNI-''" by (auto simp: is_digit_def)
    with c(1) False show ?thesis by (simp add: json_word_def int_str_def)
  qed
  then show ?thesis using json_number_int [OF \<open>json_stop r\<close>] by simp
qed

lemma int_str_hd: "int_str i \<noteq> [] \<and> (is_digit (hd (int_str i)) \<or> hd (int_str i) = CHR ''-'')"
  using nat_str_hd_last(1) by (simp add: int_str_def)

lemma int_str_start: "\<not> json_space (hd (int_str i)) \<and> hd (int_str i) \<notin> set '']},:''"
proof -
  have "is_digit c \<or> c = CHR ''-'' \<Longrightarrow> \<not> json_space c \<and> c \<notin> set '']},:''" for c
    by (auto simp: json_space_def is_digit_def)
  then show ?thesis using int_str_hd by blast
qed

lemma json_space_punct [simp]:
  "\<not> json_space (CHR '','')" "\<not> json_space (CHR '']'')" "\<not> json_space (CHR ''}'')"
  "\<not> json_space (CHR '':'')" "\<not> json_space dquote" "\<not> json_space (CHR ''['')" "\<not> json_space (CHR ''{'')"
  "json_space nl"
  by (simp_all add: json_space_def)

definition blank :: "str \<Rightarrow> bool" where
  "blank s \<longleftrightarrow> (\<forall>c \<in> set s. json_space c)"

lemma blank_simps [simp]: "blank []" "blank (c # s) \<longleftrightarrow> json_space c \<and> blank s"
  by (simp_all add: blank_def)

lemma skip_blank [simp]: "blank s \<Longrightarrow> skip_ws (s @ t) = skip_ws t"
  by (induction s) simp_all

lemma stop_punct [simp]:
  "json_stop (CHR '','' # r)" "json_stop (CHR '']'' # r)" "json_stop (CHR ''}'' # r)" "json_stop []" "json_stop (nl # r)"
  by (simp_all add: json_stop_def)

lemma update_new: "k \<notin> fst ` set d \<Longrightarrow> AList.update k v d = d @ [(k, v)]"
  by (induction d) auto

lemma fold_update_distinct:
  "distinct (map fst (d @ ms)) \<Longrightarrow> fold (\<lambda>(k, v). AList.update k v) ms d = d @ ms"
proof (induction ms arbitrary: d)
  case (Cons kv ms)
  then show ?case
    by (cases kv) (auto simp: update_new)
qed simp

text \<open>
  A printed element: the scanner reads it back and stops behind it. Elements set apart by a comma and
  white space are read back as a list, with white space before the closing bracket.
\<close>

definition reads_back :: "str \<Rightarrow> json \<Rightarrow> bool" where
  "reads_back t v \<longleftrightarrow> t \<noteq> [] \<and> \<not> json_space (hd t) \<and> hd t \<noteq> CHR '']'' \<and>
     (\<forall>n r. json_stop r \<longrightarrow> 2 * length t \<le> n \<longrightarrow> json_value n (t @ r) = Some (v, r))"

lemma skip_reads_back: "reads_back t v \<Longrightarrow> skip_ws (t @ r) = t @ r"
  unfolding reads_back_def by (cases t) auto

lemma reads_back_value: "reads_back t v \<Longrightarrow> json_stop r \<Longrightarrow> 2 * length t \<le> n \<Longrightarrow> json_value n (t @ r) = Some (v, r)"
  unfolding reads_back_def by blast

lemma json_elems_join:
  assumes "list_all2 reads_back ts vs" and "ts \<noteq> []" and "blank sp" and "blank sp'" and "sp' = [] \<or> hd sp' = nl"
    and "2 * length (join (CHR '','' # sp) ts) + 1 \<le> n"
  shows "json_elems n (join (CHR '','' # sp) ts @ sp' @ CHR '']'' # r) = Some (vs, r)"
  using assms
proof (induction ts vs arbitrary: n rule: list_all2_induct)
  case (Cons t ts v vs)
  obtain m where n: "n = Suc m" using Cons.prems(5) by (cases n) auto
  show ?case
  proof (cases ts)
    case Nil
    have "json_stop (sp' @ CHR '']'' # r)" using Cons.prems(4) by (cases sp') auto
    moreover have "2 * length t \<le> m" using Cons.prems(5) by (simp add: Nil n)
    ultimately have "json_value m (t @ sp' @ CHR '']'' # r) = Some (v, sp' @ CHR '']'' # r)"
      by (rule reads_back_value [OF Cons.hyps(1)])
    moreover have "vs = []" using Cons.hyps(2) by (simp add: Nil)
    ultimately show ?thesis using Cons.prems(3) by (simp add: Nil n)
  next
    case (Cons w ws)
    let ?t = "join (CHR '','' # sp) ts @ sp' @ CHR '']'' # r"
    have eq: "join (CHR '','' # sp) (t # ts) = t @ CHR '','' # sp @ join (CHR '','' # sp) ts"
      using Cons by (simp add: join_Cons)
    have len: "2 * length t \<le> m" "2 * length (join (CHR '','' # sp) ts) + 1 \<le> m"
      using Cons.prems(5) unfolding eq n by simp_all
    have "json_value m (t @ CHR '','' # sp @ ?t) = Some (v, CHR '','' # sp @ ?t)"
      using len(1) by (intro reads_back_value [OF Cons.hyps(1)]) simp_all
    moreover have "json_elems m ?t = Some (vs, r)"
      using Cons Cons.prems(2-4) len(2) by (intro Cons.IH) auto
    moreover obtain x where "reads_back w x" using Cons.hyps(2) Cons by (auto simp: list_all2_Cons1)
    then have "skip_ws ?t = ?t"
      using skip_reads_back [of w x] by (cases ws) (simp_all add: Cons)
    ultimately show ?thesis unfolding eq n using Cons.prems(2) by simp
  qed
qed simp

text \<open>
  What a writer promises: a quoted string is read back by the scanner, and its separators are a comma
  or a colon followed by white space.
\<close>

locale json_writer =
  fixes qt :: "str \<Rightarrow> str" and sp :: str and csp :: str
  assumes quote_reads: "\<exists>b. qt s = dquote # b \<and> (\<forall>r. json_string (b @ r) = Some (s, r))"
    and blanks: "blank sp" "blank csp"
begin

abbreviation render :: "json \<Rightarrow> str" where
  "render \<equiv> json_render qt (CHR '','' # sp) (CHR '':'' # csp)"

definition member :: "str \<times> json \<Rightarrow> str" where
  "member kv = qt (fst kv) @ CHR '':'' # csp @ render (snd kv)"

lemma quote_hd: "qt s \<noteq> []" "hd (qt s) = dquote"
  using quote_reads [of s] by auto

lemma members_join:
  assumes "ms \<noteq> []" and "\<And>kv. kv \<in> set ms \<Longrightarrow> reads_back (render (snd kv)) (snd kv)"
    and "2 * length (join (CHR '','' # sp) (map member ms)) + 1 \<le> n"
  shows "json_members n (join (CHR '','' # sp) (map member ms) @ CHR ''}'' # r) = Some (ms, r)"
  using assms
proof (induction ms arbitrary: n)
  case (Cons kv ms)
  obtain m where n: "n = Suc m" using Cons.prems(3) by (cases n) auto
  have kv: "reads_back (render (snd kv)) (snd kv)" using Cons.prems(2) by simp
  obtain b where b: "qt (fst kv) = dquote # b" "\<And>r. json_string (b @ r) = Some (fst kv, r)"
    using quote_reads [of "fst kv"] by blast
  have step: "json_members n (member kv @ u) =
      (case json_value m (render (snd kv) @ u) of None \<Rightarrow> None
       | Some (v, t') \<Rightarrow> (let u = skip_ws t'
           in if startswith u ''}'' then Some ([(fst kv, v)], tl u)
              else if startswith u '','' then
                map_option (map_prod ((#) (fst kv, v)) id) (json_members m (skip_ws (tl u)))
              else None))" for u
    using skip_reads_back [OF kv] b blanks(2) by (simp add: member_def n)
  have len: "2 * length (render (snd kv)) \<le> m"
    using Cons.prems(3) by (cases ms) (simp_all add: join_Cons member_def n)
  show ?case
  proof (cases ms)
    case Nil
    have "json_value m (render (snd kv) @ CHR ''}'' # r) = Some (snd kv, CHR ''}'' # r)"
      using len by (intro reads_back_value [OF kv]) simp_all
    then show ?thesis by (simp add: Nil step)
  next
    case (Cons w ws)
    let ?t = "join (CHR '','' # sp) (map member ms) @ CHR ''}'' # r"
    have eq: "join (CHR '','' # sp) (map member (kv # ms)) = member kv @ CHR '','' # sp @ join (CHR '','' # sp) (map member ms)"
      using Cons by (simp add: join_Cons)
    have "json_value m (render (snd kv) @ CHR '','' # sp @ ?t) = Some (snd kv, CHR '','' # sp @ ?t)"
      using len by (intro reads_back_value [OF kv]) simp_all
    moreover have "2 * length (join (CHR '','' # sp) (map member ms)) + 1 \<le> m"
      using Cons.prems(3) unfolding eq n by simp
    then have "json_members m ?t = Some (ms, r)"
      using Cons Cons.prems(2) by (intro Cons.IH) auto
    moreover have "skip_ws ?t = ?t"
      using quote_hd [of "fst w"] by (cases "qt (fst w)"; cases ws) (simp_all add: Cons member_def)
    ultimately show ?thesis unfolding eq using blanks(1) by (simp add: step)
  qed
qed simp

lemma render_start: "json_plain v \<Longrightarrow> render v \<noteq> [] \<and> \<not> json_space (hd (render v)) \<and> hd (render v) \<noteq> CHR '']''"
  using int_str_start int_str_hd quote_hd by (cases v) (auto simp: json_space_def)

lemma value_render:
  "json_plain v \<Longrightarrow> json_stop r \<Longrightarrow> 2 * length (render v) \<le> n \<Longrightarrow> json_value n (render v @ r) = Some (v, r)"
proof (induction v arbitrary: n r)
  case (JInt i)
  then obtain m where n: "n = Suc m" using int_str_hd [of i] by (cases n) auto
  obtain c cs where c: "int_str i = c # cs" "is_digit c \<or> c = CHR ''-''"
    using int_str_hd [of i] by (cases "int_str i") auto
  then have "c \<notin> set [dquote, CHR ''['', CHR ''{'']" by (auto simp: is_digit_def)
  with c json_word_int [OF JInt(2), of i] show ?case by (simp add: n)
next
  case (JStr s)
  obtain b where b: "qt s = dquote # b" "\<And>r. json_string (b @ r) = Some (s, r)" using quote_reads [of s] by blast
  moreover from this JStr obtain m where "n = Suc m" by (cases n) auto
  ultimately show ?case by simp
next
  case (JList vs)
  obtain m where n: "n = Suc m" using JList.prems(3) by (cases n) auto
  show ?case
  proof (cases "vs = []")
    case False
    let ?t = "join (CHR '','' # sp) (map render vs) @ CHR '']'' # r"
    have rb: "reads_back (render v) v" if "v \<in> set vs" for v
      using that JList.prems(1) JList.IH render_start [of v] by (auto simp: reads_back_def)
    then have "list_all2 reads_back (map render vs) vs" by (simp add: list_all2_map1 list_all2_same)
    from json_elems_join [OF this, of sp "[]" m r] False JList.prems(3) blanks(1)
    have "json_elems m ?t = Some (vs, r)" by (simp add: n)
    moreover obtain w ws where w: "vs = w # ws" using False by (cases vs) auto
    moreover have "skip_ws ?t = ?t" "\<not> startswith ?t '']''"
      using rb [of w] render_start [of w] JList.prems(1) unfolding w
      by (cases ws; cases "render w"; simp add: reads_back_def)+
    ultimately show ?thesis by (simp add: n)
  qed (simp add: n)
next
  case (JObj ms)
  obtain m where n: "n = Suc m" using JObj.prems(3) by (cases n) auto
  have mem: "(\<lambda>(k, v). qt k @ CHR '':'' # csp @ render v) = member"
    by (simp add: member_def fun_eq_iff split_beta)
  show ?case
  proof (cases "ms = []")
    case False
    let ?t = "join (CHR '','' # sp) (map member ms) @ CHR ''}'' # r"
    have "reads_back (render (snd kv)) (snd kv)" if "kv \<in> set ms" for kv
      using that JObj.prems(1) JObj.IH [of kv "snd kv"] render_start [of "snd kv"] by (force simp: reads_back_def snds.simps)
    then have "json_members m ?t = Some (ms, r)"
      using False JObj.prems(3) by (intro members_join) (auto simp: n mem)
    moreover obtain w ws where w: "ms = w # ws" using False by (cases ms) auto
    moreover have "skip_ws ?t = ?t" "\<not> startswith ?t ''}''"
      using quote_hd [of "fst w"] unfolding w by (cases "qt (fst w)"; cases ws; simp add: member_def)+
    moreover have "fold (\<lambda>(k, v). AList.update k v) ms [] = ms"
      using fold_update_distinct [of "[]" ms] JObj.prems(1) by simp
    ultimately show ?thesis by (simp add: n mem)
  qed (simp add: n)
next
  case JNull
  then obtain m where "n = Suc m" by (cases n) auto
  then show ?case by (simp add: json_word_def)
next
  case (JBool b)
  then obtain m where "n = Suc m" by (cases n) (auto split: if_splits)
  then show ?case by (simp add: json_word_def)
qed simp

lemma render_reads_back: "json_plain v \<Longrightarrow> reads_back (render v) v"
  using render_start [of v] value_render [of v] by (simp add: reads_back_def)

lemma loads_render: "json_plain v \<Longrightarrow> json_loads (render v) = Some v"
  using value_render [of v "[]" "2 * length (render v) + 2"] skip_reads_back [OF render_reads_back, of v "[]"]
  by (simp add: json_loads_def)

end

lemma json_string_quote: "json_string (concat (map json_esc s) @ dquote # r) = Some (s, r)"
  by (induction s) (simp_all add: json_string_esc)

lemma json_string_raw: "json_string (concat (map raw_esc s) @ dquote # r) = Some (s, r)"
proof (induction s)
  case (Cons c s)
  show ?case
  proof (cases "127 \<le> code c")
    case True
    then have "c \<noteq> dquote" "c \<noteq> bslash" "\<not> code c < 32" by auto
    with Cons True show ?thesis by (simp add: raw_esc_def)
  qed (use Cons in \<open>simp add: raw_esc_def json_string_esc\<close>)
qed simp

text \<open>The three writers of the program: compact, compact with \<open>ensure_ascii=False\<close>, and the default one.\<close>

interpretation compact: json_writer json_quote "[]" "[]"
  by unfold_locales (auto simp: json_quote_def json_string_quote)

interpretation raw: json_writer raw_quote "[]" "[]"
  by unfold_locales (auto simp: raw_quote_def json_string_raw)

interpretation spaced: json_writer json_quote "'' ''" "'' ''"
  by unfold_locales (auto simp: json_quote_def json_string_quote json_space_def)

lemma json_loads_dumps: "json_plain v \<Longrightarrow> json_loads (json_dumps v) = Some v"
  using compact.loads_render [of v] by (simp add: json_dumps_def)

lemma json_loads_default: "json_plain v \<Longrightarrow> json_loads (json_render json_quote '', '' '': '' v) = Some v"
  by (rule spaced.loads_render)

text \<open>An array written by hand, one element per line, is read back too.\<close>

lemma json_loads_lines:
  assumes "list_all2 reads_back ts vs" "ts \<noteq> []"
  shows "json_loads (CHR ''['' # nl # join (CHR '','' # [nl]) ts @ [nl, CHR '']'']) = Some (JList vs)"
proof -
  let ?j = "join (CHR '','' # [nl]) ts"
  obtain t us where t: "ts = t # us" using assms(2) by (cases ts) auto
  obtain v where v: "reads_back t v" using assms(1) by (auto simp: t list_all2_Cons1)
  have "json_elems (2 * length ?j + 9) (?j @ [nl] @ CHR '']'' # []) = Some (vs, [])"
    using assms by (intro json_elems_join) simp_all
  moreover have "skip_ws (?j @ [nl, CHR '']'']) = ?j @ [nl, CHR '']'']" "\<not> startswith (?j @ [nl, CHR '']'']) '']''"
    using v unfolding t by (cases us; cases t; simp add: reads_back_def)+
  ultimately show ?thesis by (simp add: json_loads_def numeral_eq_Suc)
qed

end
