(* ===== verification/Waivers.thy ===== *)
theory Waivers
  imports Fnmatch PyRegex Json PosixPath
begin

text \<open>
  The waiver set of \<open>cov_waive.py\<close>: the \<open>Waiver\<close> and \<open>Waivers\<close> classes, the Markdown and the
  legacy text loader, matching a coverage point, and the list of stale waivers. The source files
  are an argument \<open>fs\<close> (\<open>None\<close> is an \<open>OSError\<close> on opening), and the compiler of user-written
  regular expressions is an argument \<open>rxc\<close> (\<open>None\<close> is an \<open>re.error\<close>). The loader's messages are
  values of the type \<open>werror\<close>, one constructor per message, holding what the message interpolates.
\<close>

subsection \<open>Data\<close>

definition placeholder :: str where
  "placeholder = ''<MECHANISM>''"

definition waiver_types :: "(str \<times> str) list" where
  "waiver_types = [(''line'', ''v_line''), (''branch'', ''v_branch''), (''toggle'', ''v_toggle'')]"

text \<open>Exactly one of the fields \<open>line\<close>, \<open>txt\<close> and \<open>rx\<close> is set; a regex keeps its source text.\<close>

datatype locator = AtLine int | AtText str | AtRegex str rx

type_synonym origin = "str \<times> nat"

record waiver =
  w_file :: json
  w_at :: locator
  w_pages :: "str set"
  w_sig :: "str option"
  w_reason :: str
  w_src :: origin
  w_hits :: nat

fun locator_str :: "locator \<Rightarrow> str" where
  "locator_str (AtLine n) = int_str n"
| "locator_str (AtText t) = ''/'' @ t @ ''/''"
| "locator_str (AtRegex p r) = ''re/'' @ p @ ''/''"

definition waiver_str :: "waiver \<Rightarrow> str" where
  "waiver_str w = py_str (w_file w) @ '':'' @ locator_str (w_at w)"

datatype werror =
    UnterminatedFence origin
  | MislabelledFence origin str
  | BadJson origin
  | NotAList origin
  | NoWaivers str
  | NotAnObject origin
  | UnknownKeys origin "str list"
  | NeedsFileAndAt origin
  | NoWhy origin
  | StillPlaceholder origin
  | BadRegex origin
  | BadLocator origin
  | UnknownType origin str
  | NoReason origin
  | BadSyntax origin
  | UnknownField origin str

record waivers =
  items :: "waiver list"
  errors :: "werror list"
  srccache :: "(str \<times> str list) list"

definition no_waivers :: waivers where
  "no_waivers = \<lparr>items = [], errors = [], srccache = []\<rparr>"

definition add_errors :: "werror list \<Rightarrow> waivers \<Rightarrow> waivers" where
  "add_errors es wv = wv\<lparr>errors := errors wv @ es\<rparr>"

definition add_item :: "waiver \<Rightarrow> waivers \<Rightarrow> waivers" where
  "add_item w wv = wv\<lparr>items := items wv @ [w]\<rparr>"

subsection \<open>Locators and types, common to both formats\<close>

definition parse_locator :: "(str \<Rightarrow> rx option) \<Rightarrow> origin \<Rightarrow> str \<Rightarrow> werror + locator" where
  "parse_locator rxc wh loc =
     (if startswith loc ''re/'' \<and> endswith loc ''/'' \<and> 4 < length loc then
        (let p = drop 3 (butlast loc)
         in case rxc p of None \<Rightarrow> Inl (BadRegex wh) | Some r \<Rightarrow> Inr (AtRegex p r))
      else if startswith loc ''/'' \<and> endswith loc ''/'' \<and> 2 < length loc then
        Inr (AtText (drop 1 (butlast loc)))
      else
        (case py_int loc of None \<Rightarrow> Inl (BadLocator wh) | Some n \<Rightarrow> Inr (AtLine n)))"

fun parse_types :: "origin \<Rightarrow> str list \<Rightarrow> str set \<times> werror list" where
  "parse_types wh [] = ({}, [])"
| "parse_types wh (t # ts) =
     (let (pages, errs) = parse_types wh ts
      in if t = ''all'' then (set (map snd waiver_types) \<union> pages, errs)
         else (case map_of waiver_types t of
                 Some p \<Rightarrow> (insert p pages, errs)
               | None \<Rightarrow> (pages, UnknownType wh t # errs)))"

subsection \<open>The Markdown loader\<close>

definition waiver_keys :: "str set" where
  "waiver_keys = {''file'', ''at'', ''type'', ''sig'', ''why''}"

definition type_list :: "json \<Rightarrow> str list" where
  "type_list v =
     map strip (case v of JList vs \<Rightarrow> map py_str vs | _ \<Rightarrow> split_char CHR '','' (py_str v))"

text \<open>
  \<open>_add_dict\<close>: one entry gives the messages it causes and, if it is accepted, a waiver; both are
  appended to the set.
\<close>

definition build_waiver :: "(str \<Rightarrow> rx option) \<Rightarrow> origin \<Rightarrow> json \<Rightarrow> werror list \<times> waiver option" where
  "build_waiver rxc wh w =
     (case w of
        JObj ms \<Rightarrow>
          (let extra = filter (\<lambda>k. k \<notin> waiver_keys) (map fst ms);
               get = (\<lambda>k d. case map_of ms k of None \<Rightarrow> d | Some v \<Rightarrow> v);
               fname = get ''file'' JNull; at = get ''at'' JNull; why = get ''why'' JNull
           in if extra \<noteq> [] then ([UnknownKeys wh (sort extra)], None)
              else if \<not> truthy fname \<or> at = JNull then ([NeedsFileAndAt wh], None)
              else if \<not> truthy why then ([NoWhy wh], None)
              else if contains (py_str why) placeholder then ([StillPlaceholder wh], None)
              else
                (case parse_locator rxc wh (py_str at) of
                   Inl e \<Rightarrow> ([e], None)
                 | Inr loc \<Rightarrow>
                     (let (pages, errs) = parse_types wh (type_list (get ''type'' (JStr ''all'')));
                          sg = (case get ''sig'' JNull of JNull \<Rightarrow> None | v \<Rightarrow> Some (py_str v))
                      in (errs, if pages = {} then None
                                else Some \<lparr>w_file = fname, w_at = loc, w_pages = pages, w_sig = sg,
                                  w_reason = py_str why, w_src = wh, w_hits = 0\<rparr>))))
      | _ \<Rightarrow> ([NotAnObject wh], None))"

definition add_built :: "werror list \<times> waiver option \<Rightarrow> waivers \<Rightarrow> waivers" where
  "add_built b wv =
     (let wv1 = add_errors (fst b) wv in case snd b of None \<Rightarrow> wv1 | Some w \<Rightarrow> add_item w wv1)"

definition add_dict :: "(str \<Rightarrow> rx option) \<Rightarrow> json \<Rightarrow> origin \<Rightarrow> waivers \<Rightarrow> waivers" where
  "add_dict rxc w wh wv = add_built (build_waiver rxc wh w) wv"

text \<open>\<open>\s*```(\w*)\s*$\<close> and \<open>\s*```\s*$\<close>, matched from the start of a line.\<close>

definition fence_open_rx :: rx where
  "fence_open_rx = seqs [star space, lit ''```'', Group 1 (star word_char), star space, Eol]"

definition fence_close_rx :: rx where
  "fence_close_rx = seqs [star space, lit ''```'', star space, Eol]"

type_synonym fence = "str \<times> nat \<times> str list"

text \<open>
  The line scan. \<open>cur\<close> is the open fence (label, line number, lines so far), \<open>n\<close> the number of the
  next line. The result is the closed fences, and the line of a fence left open at the end.
\<close>

fun scan_fences :: "fence option \<Rightarrow> nat \<Rightarrow> str list \<Rightarrow> fence list \<times> nat option" where
  "scan_fences None n [] = ([], None)"
| "scan_fences (Some (lang, start, buf)) n [] = ([], Some start)"
| "scan_fences None n (ln # lns) =
     (case re_match fence_open_rx ln of
        Some m \<Rightarrow> scan_fences (Some (group_text m 1, n, [])) (Suc n) lns
      | None \<Rightarrow> scan_fences None (Suc n) lns)"
| "scan_fences (Some (lang, start, buf)) n (ln # lns) =
     (case re_match fence_close_rx ln of
        Some m \<Rightarrow> (let (bs, u) = scan_fences None (Suc n) lns in ((lang, start, buf) # bs, u))
      | None \<Rightarrow> scan_fences (Some (lang, start, buf @ [ln])) (Suc n) lns)"

definition fence_head :: "str list \<Rightarrow> str" where
  "fence_head buf = (case filter (\<lambda>l. l \<noteq> []) (map strip buf) of [] \<Rightarrow> [] | l # ls \<Rightarrow> l)"

text \<open>One closed fence; the counter is \<open>found\<close>.\<close>

definition load_fence ::
    "(str \<Rightarrow> rx option) \<Rightarrow> str \<Rightarrow> fence \<Rightarrow> nat \<times> waivers \<Rightarrow> nat \<times> waivers" where
  "load_fence rxc path f st =
     (case f of (lang, start, buf) \<Rightarrow> case st of (found, wv) \<Rightarrow>
        if lang \<noteq> ''json'' then
          (if startswith (fence_head buf) ''['' \<or> startswith (fence_head buf) ''{''
           then (found, add_errors [MislabelledFence (path, start) lang] wv) else (found, wv))
        else
          (case json_loads (join [nl] buf) of
             None \<Rightarrow> (found, add_errors [BadJson (path, start)] wv)
           | Some (JList ws) \<Rightarrow>
               (found + length ws, fold (\<lambda>w. add_dict rxc w (path, start)) ws wv)
           | Some _ \<Rightarrow> (found, add_errors [NotAList (path, start)] wv)))"

definition load_md :: "(str \<Rightarrow> rx option) \<Rightarrow> str \<Rightarrow> str \<Rightarrow> waivers" where
  "load_md rxc path text =
     (case scan_fences None 1 (split_nl text) of
        (blocks, Some start) \<Rightarrow> add_errors [UnterminatedFence (path, start)] no_waivers
      | (blocks, None) \<Rightarrow>
          (let (found, wv) = fold (load_fence rxc path) blocks (0, no_waivers)
           in if found = 0 \<and> errors wv = [] then add_errors [NoWaivers path] wv else wv))"

subsection \<open>The legacy text loader\<close>

text \<open>\<open>^([^\s:]+):(\d+|re/.+/|/.+/)\s+(\S+)(?:\s+(.*))?$\<close>\<close>

definition txt_line_rx :: rx where
  "txt_line_rx = seqs [Bol, Group 1 (plus (Chr (\<lambda>c. \<not> is_space c \<and> c \<noteq> CHR '':''))), lit '':'',
     Group 2 (alts [plus digit, seqs [lit ''re/'', plus dot, lit ''/''], seqs [lit ''/'', plus dot, lit ''/'']]),
     plus space, Group 3 (plus non_space), opt (Seq (plus space) (Group 4 (star dot))), Eol]"

fun sig_fields :: "origin \<Rightarrow> str list \<Rightarrow> str option \<Rightarrow> str option \<times> werror list" where
  "sig_fields wh [] sg = (sg, [])"
| "sig_fields wh (t # ts) sg =
     (if startswith t ''sig='' then sig_fields wh ts (Some (drop 4 t))
      else (let (s, es) = sig_fields wh ts sg in (s, UnknownField wh t # es)))"

definition build_txt :: "(str \<Rightarrow> rx option) \<Rightarrow> origin \<Rightarrow> str \<Rightarrow> werror list \<times> waiver option" where
  "build_txt rxc wh raw =
     (let (b, _, r) = partition_str ''#'' raw; body = strip b; reason = strip r
      in if body = [] then ([], None)
         else if reason = [] then ([NoReason wh], None)
         else if contains reason placeholder then ([StillPlaceholder wh], None)
         else
           (case re_match txt_line_rx body of
              None \<Rightarrow> ([BadSyntax wh], None)
            | Some m \<Rightarrow>
                (case parse_locator rxc wh (group_text m 2) of
                   Inl e \<Rightarrow> ([e], None)
                 | Inr loc \<Rightarrow>
                     (let (pages, errs) = parse_types wh (split_char CHR '','' (group_text m 3));
                          (sg, es) = sig_fields wh (split_ws (group_text m 4)) None
                      in if pages = {} then (errs, None)
                         else (errs @ es, Some \<lparr>w_file = JStr (group_text m 1), w_at = loc,
                                w_pages = pages, w_sig = sg, w_reason = reason, w_src = wh, w_hits = 0\<rparr>)))))"

definition load_txt_line :: "(str \<Rightarrow> rx option) \<Rightarrow> str \<Rightarrow> nat \<times> str \<Rightarrow> waivers \<Rightarrow> waivers" where
  "load_txt_line rxc path l wv = add_built (build_txt rxc (path, fst l) (snd l)) wv"

definition load_txt :: "(str \<Rightarrow> rx option) \<Rightarrow> str \<Rightarrow> str \<Rightarrow> waivers" where
  "load_txt rxc path text = fold (load_txt_line rxc path) (enumerate 1 (file_lines text)) no_waivers"

text \<open>The constructor: a missing path or file gives an empty set.\<close>

definition load_waivers :: "(str \<Rightarrow> rx option) \<Rightarrow> (str \<Rightarrow> str option) \<Rightarrow> str option \<Rightarrow> waivers" where
  "load_waivers rxc fs path =
     (case path of
        None \<Rightarrow> no_waivers
      | Some p \<Rightarrow>
          (case fs p of
             None \<Rightarrow> no_waivers
           | Some text \<Rightarrow>
               if p = [] then no_waivers
               else if endswith p ''.md'' then load_md rxc p text else load_txt rxc p text))"

subsection \<open>Matching a point\<close>

definition read_lines :: "(str \<Rightarrow> str option) \<Rightarrow> str \<Rightarrow> str list" where
  "read_lines fs path = (case fs path of None \<Rightarrow> [] | Some t \<Rightarrow> split_nl t)"

definition line_of :: "str list \<Rightarrow> int \<Rightarrow> str" where
  "line_of src line = (if 0 < line \<and> line \<le> int (length src) then src ! (nat line - 1) else [])"

type_synonym cache = "(str \<times> str list) list"

definition srcline :: "(str \<Rightarrow> str option) \<Rightarrow> str \<Rightarrow> int \<Rightarrow> cache \<Rightarrow> str \<times> cache" where
  "srcline fs path line c =
     (let c1 = (case map_of c path of Some ls \<Rightarrow> c | None \<Rightarrow> (path, read_lines fs path) # c)
      in (line_of (the (map_of c1 path)) line, c1))"

definition match_loc :: "(str \<Rightarrow> str option) \<Rightarrow> locator \<Rightarrow> str \<Rightarrow> int \<Rightarrow> cache \<Rightarrow> bool \<times> cache" where
  "match_loc fs loc path line c =
     (case loc of
        AtLine n \<Rightarrow> (n = line, c)
      | AtText t \<Rightarrow> (let (l, c1) = srcline fs path line c in (contains l t, c1))
      | AtRegex p r \<Rightarrow> (let (l, c1) = srcline fs path line c in (re_search r l \<noteq> None, c1)))"

text \<open>The loop over the items: the index of the waiver it returns, and the source cache.\<close>

fun match_items :: "(str \<Rightarrow> str option) \<Rightarrow> str \<Rightarrow> int \<Rightarrow> str \<Rightarrow> str \<Rightarrow> waiver list \<Rightarrow> cache \<Rightarrow>
    nat option \<times> cache" where
  "match_items fs path line page sg [] c = (None, c)"
| "match_items fs path line page sg (w # ws) c =
     (let next = (\<lambda>c. let (i, c') = match_items fs path line page sg ws c in (map_option Suc i, c'))
      in if w_file w \<noteq> JStr (basename path) \<or> page \<notin> w_pages w then next c
         else
           (let (ok, c1) = match_loc fs (w_at w) path line c
            in if \<not> ok then next c1
               else if w_sig w \<noteq> None \<and> w_sig w \<noteq> Some [] \<and> \<not> fnmatch sg (the (w_sig w)) then next c1
               else (Some 0, c1)))"

definition match :: "(str \<Rightarrow> str option) \<Rightarrow> str \<Rightarrow> int \<Rightarrow> str \<Rightarrow> str \<Rightarrow> waivers \<Rightarrow> waiver option \<times> waivers" where
  "match fs path line page sg wv =
     (if items wv = [] then (None, wv)
      else
        (case match_items fs path line page sg (items wv) (srccache wv) of
           (None, c) \<Rightarrow> (None, wv\<lparr>srccache := c\<rparr>)
         | (Some i, c) \<Rightarrow>
             (let w = (items wv ! i)\<lparr>w_hits := Suc (w_hits (items wv ! i))\<rparr>
              in (Some w, wv\<lparr>items := (items wv)[i := w], srccache := c\<rparr>))))"

definition stale :: "waivers \<Rightarrow> waiver list" where
  "stale wv = filter (\<lambda>w. w_hits w = 0) (items wv)"

subsection \<open>What a waiver covers\<close>

text \<open>The specification of matching: no cache, no hit counters, no loop.\<close>

definition at_matches :: "(str \<Rightarrow> str option) \<Rightarrow> locator \<Rightarrow> str \<Rightarrow> int \<Rightarrow> bool" where
  "at_matches fs loc path line =
     (let l = line_of (read_lines fs path) line
      in case loc of AtLine n \<Rightarrow> n = line | AtText t \<Rightarrow> contains l t | AtRegex p r \<Rightarrow> re_search r l \<noteq> None)"

definition covers :: "(str \<Rightarrow> str option) \<Rightarrow> waiver \<Rightarrow> str \<Rightarrow> int \<Rightarrow> str \<Rightarrow> str \<Rightarrow> bool" where
  "covers fs w path line page sg \<longleftrightarrow>
     w_file w = JStr (basename path) \<and> page \<in> w_pages w \<and> at_matches fs (w_at w) path line \<and>
     (w_sig w = None \<or> w_sig w = Some [] \<or> fnmatch sg (the (w_sig w)))"

definition cache_ok :: "(str \<Rightarrow> str option) \<Rightarrow> cache \<Rightarrow> bool" where
  "cache_ok fs c \<longleftrightarrow> (\<forall>(p, ls) \<in> set c. ls = read_lines fs p)"

lemma cache_ok_Nil [simp]: "cache_ok fs []"
  by (simp add: cache_ok_def)

lemma cache_ok_lookup: "cache_ok fs c \<Longrightarrow> map_of c p = Some ls \<Longrightarrow> ls = read_lines fs p"
  by (auto simp: cache_ok_def dest!: map_of_SomeD)

lemma srcline_spec:
  "cache_ok fs c \<Longrightarrow>
   fst (srcline fs path line c) = line_of (read_lines fs path) line \<and> cache_ok fs (snd (srcline fs path line c))"
  by (auto simp: srcline_def Let_def dest: cache_ok_lookup split: option.splits)
     (simp add: cache_ok_def)

lemma match_loc_spec:
  "cache_ok fs c \<Longrightarrow>
   fst (match_loc fs loc path line c) = at_matches fs loc path line \<and>
   cache_ok fs (snd (match_loc fs loc path line c))"
  using srcline_spec [of fs c path line]
  by (auto simp: match_loc_def at_matches_def split: locator.splits prod.splits)

fun first_index :: "('a \<Rightarrow> bool) \<Rightarrow> 'a list \<Rightarrow> nat option" where
  "first_index P [] = None"
| "first_index P (x # xs) = (if P x then Some 0 else map_option Suc (first_index P xs))"

lemma first_index_None: "first_index P xs = None \<longleftrightarrow> (\<forall>x \<in> set xs. \<not> P x)"
  by (induction xs) auto

lemma first_index_Some:
  "first_index P xs = Some i \<longleftrightarrow> i < length xs \<and> P (xs ! i) \<and> (\<forall>j < i. \<not> P (xs ! j))"
proof (induction xs arbitrary: i)
  case (Cons x xs)
  show ?case
  proof (cases i)
    case (Suc k)
    have "(\<forall>j < Suc k. \<not> P ((x # xs) ! j)) \<longleftrightarrow> \<not> P x \<and> (\<forall>j < k. \<not> P (xs ! j))"
      by (auto simp: less_Suc_eq_0_disj)
    then show ?thesis using Cons.IH [of k] by (auto simp: Suc)
  qed auto
qed simp

lemma first_index_map:
  "(\<And>x. P (f x) = P x) \<Longrightarrow> first_index P (map f xs) = first_index P xs"
  by (induction xs) auto

lemma match_items_spec:
  "cache_ok fs c \<Longrightarrow>
   fst (match_items fs path line page sg ws c) = first_index (\<lambda>w. covers fs w path line page sg) ws \<and>
   cache_ok fs (snd (match_items fs path line page sg ws c))"
proof (induction ws arbitrary: c)
  case (Cons w ws)
  obtain ok c1 where l: "match_loc fs (w_at w) path line c = (ok, c1)" by fastforce
  with match_loc_spec [OF Cons.prems, of "w_at w" path line]
  have ok: "ok = at_matches fs (w_at w) path line" "cache_ok fs c1" by simp_all
  show ?case
    using Cons.IH [OF Cons.prems] Cons.IH [OF ok(2)] ok
    by (cases "match_items fs path line page sg ws c"; cases "match_items fs path line page sg ws c1")
       (auto simp: l covers_def)
qed simp

lemma match_spec:
  assumes "cache_ok fs (srccache wv)" and "match fs path line page sg wv = (r, wv')"
  defines "i \<equiv> first_index (\<lambda>w. covers fs w path line page sg) (items wv)"
  shows "(r = None \<longleftrightarrow> i = None) \<and> cache_ok fs (srccache wv') \<and> errors wv' = errors wv \<and>
    items wv' = (case i of None \<Rightarrow> items wv
                 | Some k \<Rightarrow> (items wv)[k := (items wv ! k)\<lparr>w_hits := Suc (w_hits (items wv ! k))\<rparr>])"
proof (cases "items wv = []")
  case True
  with assms(1,2) show ?thesis by (auto simp: match_def i_def)
next
  case False
  obtain k c where m: "match_items fs path line page sg (items wv) (srccache wv) = (k, c)" by fastforce
  with match_items_spec [OF assms(1), of path line page sg "items wv"]
  have "k = i" "cache_ok fs c" by (simp_all add: i_def)
  with m False assms(2) show ?thesis
    by (cases k) (auto simp: match_def Let_def)
qed

text \<open>A whole report: every point is offered to the waiver set in turn.\<close>

type_synonym point = "str \<times> int \<times> str \<times> str"

fun match_points :: "(str \<Rightarrow> str option) \<Rightarrow> point list \<Rightarrow> waivers \<Rightarrow> waivers" where
  "match_points fs [] wv = wv"
| "match_points fs ((path, line, page, sg) # ps) wv =
     match_points fs ps (snd (match fs path line page sg wv))"

definition first_for :: "(str \<Rightarrow> str option) \<Rightarrow> waiver list \<Rightarrow> point \<Rightarrow> nat option" where
  "first_for fs ws p =
     (case p of (path, line, page, sg) \<Rightarrow> first_index (\<lambda>w. covers fs w path line page sg) ws)"

lemma covers_hits [simp]: "covers fs (w\<lparr>w_hits := n\<rparr>) path line page sg = covers fs w path line page sg"
  by (simp add: covers_def)

lemma first_index_update_hits:
  "first_index (\<lambda>w. covers fs w path line page sg) (ws[k := (ws ! k)\<lparr>w_hits := n\<rparr>]) =
   first_index (\<lambda>w. covers fs w path line page sg) ws"
proof (induction ws arbitrary: k)
  case (Cons w ws)
  then show ?case by (cases k) auto
qed simp

lemma match_points_spec:
  assumes "cache_ok fs (srccache wv)"
  shows "cache_ok fs (srccache (match_points fs ps wv)) \<and>
    length (items (match_points fs ps wv)) = length (items wv) \<and>
    (\<forall>i < length (items wv).
      items (match_points fs ps wv) ! i =
        (items wv ! i)\<lparr>w_hits := w_hits (items wv ! i) +
           length (filter (\<lambda>p. first_for fs (items wv) p = Some i) ps)\<rparr>)"
  using assms
proof (induction ps arbitrary: wv)
  case (Cons p ps)
  obtain path line page sg where p: "p = (path, line, page, sg)" by (metis prod_cases4)
  obtain r wv1 where m: "match fs path line page sg wv = (r, wv1)" by fastforce
  note sp = match_spec [OF Cons.prems m]
  let ?i = "first_index (\<lambda>w. covers fs w path line page sg) (items wv)"
  have ff: "first_for fs (items wv1) = first_for fs (items wv)"
    using sp by (auto simp: fun_eq_iff first_for_def first_index_update_hits split: option.splits)
  have len: "length (items wv1) = length (items wv)"
    using sp by (simp split: option.splits)
  note ih = Cons.IH [of wv1]
  have "items (match_points fs ps wv1) ! i =
        (items wv ! i)\<lparr>w_hits := w_hits (items wv ! i) +
           length (filter (\<lambda>p. first_for fs (items wv) p = Some i) (p # ps))\<rparr>"
    if "i < length (items wv)" for i
  proof -
    have "items (match_points fs ps wv1) ! i = (items wv1 ! i)\<lparr>w_hits := w_hits (items wv1 ! i) +
           length (filter (\<lambda>p. first_for fs (items wv1) p = Some i) ps)\<rparr>"
      using ih sp that len by simp
    then show ?thesis
      using sp that unfolding ff by (auto simp: p first_for_def nth_list_update split: option.splits)
  qed
  then show ?case using ih sp len by (simp add: p m)
qed simp

subsection \<open>What the loaders guarantee\<close>

definition waiver_ok :: "waiver \<Rightarrow> bool" where
  "waiver_ok w \<longleftrightarrow> w_pages w \<noteq> {} \<and> w_pages w \<subseteq> set (map snd waiver_types) \<and>
     w_reason w \<noteq> [] \<and> \<not> contains (w_reason w) placeholder \<and> w_hits w = 0"

definition set_ok :: "waivers \<Rightarrow> bool" where
  "set_ok wv \<longleftrightarrow> list_all waiver_ok (items wv) \<and> srccache wv = []"

lemma set_ok_none [simp]: "set_ok no_waivers"
  by (simp add: set_ok_def no_waivers_def)

lemma set_ok_built: "set_ok wv \<Longrightarrow> pred_option waiver_ok (snd b) \<Longrightarrow> set_ok (add_built b wv)"
  by (cases b; cases "snd b") (simp_all add: add_built_def set_ok_def add_errors_def add_item_def)

lemma set_ok_errors [simp]: "set_ok (add_errors es wv) = set_ok wv"
  by (simp add: set_ok_def add_errors_def)

lemma parse_types_pages:
  "parse_types wh ts = (pages, errs) \<Longrightarrow> p \<in> pages \<Longrightarrow> p \<in> snd ` set waiver_types"
  by (induction ts arbitrary: pages errs)
     (auto simp: image_iff split: prod.splits if_splits option.splits dest!: map_of_SomeD, force+)

lemma parse_types_complete: "snd (parse_types wh ts) = [] \<Longrightarrow> fst (parse_types wh ts) = {} \<longleftrightarrow> ts = []"
  by (induction ts) (auto simp: waiver_types_def Let_def split: prod.splits if_splits)

text \<open>A value that Python takes for true has a text, so a reason that passes the guard is not empty.\<close>

lemma truthy_text: "truthy v \<Longrightarrow> py_str v \<noteq> []"
  using int_str_hd by (cases v) auto

lemma build_waiver_ok: "pred_option waiver_ok (snd (build_waiver rxc wh w))"
  by (cases w) (auto simp: build_waiver_def Let_def waiver_ok_def split: sum.splits prod.splits
    dest: parse_types_pages truthy_text)

lemma build_txt_ok: "pred_option waiver_ok (snd (build_txt rxc wh raw))"
  by (auto simp: build_txt_def Let_def waiver_ok_def split: sum.splits prod.splits option.splits
    dest: parse_types_pages)

lemma set_ok_add_dict: "set_ok wv \<Longrightarrow> set_ok (add_dict rxc w wh wv)"
  unfolding add_dict_def by (intro set_ok_built build_waiver_ok)

lemma set_ok_load_txt_line: "set_ok wv \<Longrightarrow> set_ok (load_txt_line rxc path l wv)"
  unfolding load_txt_line_def by (intro set_ok_built build_txt_ok)

lemma set_ok_load_fence: "set_ok (snd st) \<Longrightarrow> set_ok (snd (load_fence rxc path f st))"
proof -
  have "set_ok wv \<Longrightarrow> set_ok (fold (\<lambda>w. add_dict rxc w wh) ws wv)" for ws wh wv
    by (induction ws arbitrary: wv) (simp_all add: set_ok_add_dict)
  then show "set_ok (snd st) \<Longrightarrow> ?thesis"
    by (auto simp: load_fence_def split: prod.splits option.splits json.splits)
qed

lemma set_ok_load_md: "set_ok (load_md rxc path text)"
proof -
  have "set_ok (snd st) \<Longrightarrow> set_ok (snd (fold (load_fence rxc path) bs st))" for bs st
    by (induction bs arbitrary: st) (simp_all add: set_ok_load_fence)
  from this [of "(0, no_waivers)"] show ?thesis
    by (auto simp: load_md_def split: prod.splits option.splits) (metis snd_conv)+
qed

lemma set_ok_load_waivers: "set_ok (load_waivers rxc fs path)"
proof -
  have "set_ok wv \<Longrightarrow> set_ok (fold (load_txt_line rxc p) ls wv)" for p ls wv
    by (induction ls arbitrary: wv) (simp_all add: set_ok_load_txt_line)
  then show ?thesis
    by (simp add: load_waivers_def set_ok_load_md load_txt_def split: option.splits)
qed

subsection \<open>Properties\<close>

text \<open>
  C7. A waiver is matched by position: \<open>match\<close> returns the first waiver in file order that
  covers the point, with its hit counter raised by one, and nothing when none covers it; the
  source-line cache makes no difference to the answer.
\<close>

theorem match_first:
  assumes "cache_ok fs (srccache wv)"
  shows "fst (match fs path line page sg wv) =
    map_option (\<lambda>i. (items wv ! i)\<lparr>w_hits := Suc (w_hits (items wv ! i))\<rparr>)
      (first_index (\<lambda>w. covers fs w path line page sg) (items wv))"
proof (cases "items wv = []")
  case False
  with match_items_spec [OF assms, of path line page sg "items wv"] show ?thesis
    by (cases "match_items fs path line page sg (items wv) (srccache wv)")
       (auto simp: match_def Let_def split: option.splits)
qed (simp add: match_def)

definition sample_rtl :: "str \<Rightarrow> str option" where
  "sample_rtl p = (if p = ''rtl/t.v'' then Some (''wire a;'' @ [nl] @ ''assign q = a;'') else None)"

definition sample_waiver :: "str \<Rightarrow> str option \<Rightarrow> waiver" where
  "sample_waiver t sg = \<lparr>w_file = JStr ''t.v'', w_at = AtText t, w_pages = {''v_toggle''}, w_sig = sg,
     w_reason = ''tied off'', w_src = (''waivers_cov.md'', 3), w_hits = 0\<rparr>"

theorem match_first_witness:
  "fst (match sample_rtl ''rtl/t.v'' 2 ''v_toggle'' ''q''
      \<lparr>items = [sample_waiver ''wire'' None, sample_waiver ''assign q'' (Some ''q*'')],
       errors = [], srccache = []\<rparr>) =
    Some ((sample_waiver ''assign q'' (Some ''q*''))\<lparr>w_hits := 1\<rparr>)"
proof -
  define wv where "wv = \<lparr>items = [sample_waiver ''wire'' None, sample_waiver ''assign q'' (Some ''q*'')],
       errors = ([] :: werror list), srccache = []\<rparr>"
  have "cache_ok sample_rtl (srccache wv)" by (simp add: wv_def)
  from match_first [OF this, of "''rtl/t.v''" 2 "''v_toggle''" "''q''"]
  have "fst (match sample_rtl ''rtl/t.v'' 2 ''v_toggle'' ''q'' wv) =
    map_option (\<lambda>i. (items wv ! i)\<lparr>w_hits := Suc (w_hits (items wv ! i))\<rparr>)
      (first_index (\<lambda>w. covers sample_rtl w ''rtl/t.v'' 2 ''v_toggle'' ''q'') (items wv))" .
  moreover have "first_index (\<lambda>w. covers sample_rtl w ''rtl/t.v'' 2 ''v_toggle'' ''q'') (items wv) = Some 1"
    unfolding wv_def by code_simp
  ultimately show ?thesis by (simp add: wv_def sample_waiver_def)
qed

text \<open>
  C23. After a report has offered every coverage point to the loaded waivers, a waiver is stale
  (its hit counter is still zero) exactly when it was not the first covering waiver of any
  point; in particular a waiver that only covers points an earlier one already takes is
  reported stale. The report changes nothing else about the waivers and never their number.
\<close>

theorem stale_iff_never_first:
  "let wv = load_waivers rxc fs path; wv' = match_points fs ps wv in
     length (items wv') = length (items wv) \<and>
     {i. i < length (items wv) \<and> w_hits (items wv' ! i) = 0} =
     {i. i < length (items wv) \<and> Some i \<notin> first_for fs (items wv) ` set ps}"
proof -
  define wv where "wv = load_waivers rxc fs path"
  have ok: "set_ok wv" unfolding wv_def by (rule set_ok_load_waivers)
  then have cache: "cache_ok fs (srccache wv)" by (simp add: set_ok_def)
  have zero: "w_hits (items wv ! i) = 0" if "i < length (items wv)" for i
    using ok that by (auto simp: set_ok_def list_all_length waiver_ok_def)
  have "w_hits (items (match_points fs ps wv) ! i) = 0 \<longleftrightarrow> Some i \<notin> first_for fs (items wv) ` set ps"
    if "i < length (items wv)" for i
    using match_points_spec [OF cache, of ps] that zero [OF that]
    by (auto simp: filter_empty_conv image_iff)
  then have "{i. i < length (items wv) \<and> w_hits (items (match_points fs ps wv) ! i) = 0} =
     {i. i < length (items wv) \<and> Some i \<notin> first_for fs (items wv) ` set ps}"
    by blast
  with match_points_spec [OF cache, of ps] show ?thesis
    unfolding Let_def wv_def [symmetric] by blast
qed

text \<open>
  C24. Whatever the waiver file contains, in either format, every waiver that is loaded names at
  least one page type and only known ones, has a reason (its text is not empty) that is not the
  generated placeholder, and starts with no hits.
\<close>

theorem loaded_waivers_ok: "list_all waiver_ok (items (load_waivers rxc fs path))"
  using set_ok_load_waivers by (simp add: set_ok_def)

text \<open>A document with one block of two entries.\<close>

definition sample_md :: str where
  "sample_md = join [nl] [''Dead points'', ''```json'',
     ''[{'' @ json_quote ''file'' @ '':'' @ json_quote ''t.v'' @ '','' @ json_quote ''at'' @ '':7,''
       @ json_quote ''why'' @ '':'' @ json_quote ''tied'' @ ''},'',
     ''{'' @ json_quote ''file'' @ '':'' @ json_quote ''t.v'' @ '','' @ json_quote ''at'' @ '':8,''
       @ json_quote ''type'' @ '':[],'' @ json_quote ''why'' @ '':'' @ json_quote ''tied'' @ ''}]'',
     ''```'']"

lemma sample_md_loads: "errors (load_md (\<lambda>p. None) ''w.md'' sample_md) = []"
  by code_simp

end
