(* ===== verification/WaiverFold.thy ===== *)
theory WaiverFold
  imports Fnmatch
begin

text \<open>
  Folding bit indices into globs (\<open>_digit_class\<close>, \<open>_glob_literal\<close>, \<open>_combine_bits\<close> of
  \<open>cov_waive.py\<close>): the uncovered bits of a bus become as few \<open>fnmatch\<close> patterns as possible,
  one per common prefix of the decimal index, with the last digits in a character class. What
  the folding needs from the pattern language is stated as the interface \<open>glob_language\<close> and
  discharged for \<^const>\<open>fnmatch\<close>.
\<close>

subsection \<open>The code\<close>

text \<open>\<open>_digit_class\<close>: the loop over \<open>i\<close> and \<open>j\<close> takes maximal runs of consecutive digits.\<close>

fun take_run :: "nat \<Rightarrow> nat list \<Rightarrow> nat list \<times> nat list" where
  "take_run d [] = ([d], [])"
| "take_run d (e # es) =
     (if e = Suc d then (let (r, t) = take_run e es in (d # r, t)) else ([d], e # es))"

lemma take_run_split: "take_run d es = (r, t) \<Longrightarrow> d # es = r @ t \<and> r \<noteq> [] \<and> hd r = d"
  by (induction d es arbitrary: r t rule: take_run.induct) (auto split: if_splits prod.splits)

lemma take_run_length: "take_run d es = (r, t) \<Longrightarrow> length t \<le> length es"
  by (induction d es arbitrary: r t rule: take_run.induct)
     (fastforce split: if_splits prod.splits)+

function class_runs :: "nat list \<Rightarrow> str list" where
  "class_runs [] = []"
| "class_runs (d # ds) =
     (let (r, t) = take_run d ds
      in (if 2 \<le> length r - 1 then [nat_str d @ ''-'' @ nat_str (last r)] else map nat_str r)
         @ class_runs t)"
  by pat_completeness auto
termination
  by (relation "measure length") (auto dest!: take_run_length [OF sym] simp: less_Suc_eq_le)

definition digit_class :: "char list \<Rightarrow> str" where
  "digit_class digits = concat (class_runs (sort (remdups (map digit_val digits))))"

definition glob_literal :: "str \<Rightarrow> str" where
  "glob_literal t = replace_all ''['' ''[[]'' t"

definition bit_name :: "str \<Rightarrow> nat \<Rightarrow> str" where
  "bit_name base b = base @ ''['' @ nat_str b @ '']''"

text \<open>The indices grouped by all but their last digit, and the glob of one group.\<close>

definition bit_groups :: "nat list \<Rightarrow> (str \<times> char list) list" where
  "bit_groups want = sort (group_by (\<lambda>b. butlast (nat_str b)) (\<lambda>b. last (nat_str b)) want)"

definition group_glob :: "str \<Rightarrow> str \<times> char list \<Rightarrow> str" where
  "group_glob base g =
     (let lasts = sort (remdups (snd g));
          cls = (if length lasts = 1 then [hd lasts] else ''['' @ digit_class lasts @ '']'')
      in glob_literal base @ ''[[]'' @ fst g @ cls @ '']'')"

definition bit_globs :: "str \<Rightarrow> nat list \<Rightarrow> str list" where
  "bit_globs base want = map (group_glob base) (bit_groups want)"

definition combine_bits :: "str \<Rightarrow> nat list \<Rightarrow> nat list \<Rightarrow> str list option" where
  "combine_bits base want present =
     (let globs = bit_globs base want;
          hit = filter (\<lambda>b. \<exists>g \<in> set globs. fnmatch (bit_name base b) g) present
      in if set hit \<noteq> set want then None else Some globs)"

subsection \<open>Items of a digit class\<close>

function class_items :: "nat list \<Rightarrow> item list" where
  "class_items [] = []"
| "class_items (d # ds) =
     (let (r, t) = take_run d ds
      in (if 2 \<le> length r - 1 then [Range (digit_char d) (digit_char (last r))]
          else map (\<lambda>n. Single (digit_char n)) r) @ class_items t)"
  by pat_completeness auto
termination
  by (relation "measure length") (auto dest!: take_run_length [OF sym] simp: less_Suc_eq_le)

lemma nat_str_small: "n < 10 \<Longrightarrow> nat_str n = [digit_char n]"
  by (simp add: nat_str.simps)

lemma nat_strs_small: "(\<And>n. n \<in> set ns \<Longrightarrow> n < 10) \<Longrightarrow> concat (map nat_str ns) = map digit_char ns"
  by (induction ns) (auto simp: nat_str_small)

lemma take_run_set: "take_run d es = (r, t) \<Longrightarrow> insert d (set es) = set r \<union> set t"
  by (metis take_run_split list.simps(15) set_append)

lemma take_run_upt: "take_run d es = (r, t) \<Longrightarrow> r = [d..<Suc (last r)] \<and> d \<le> last r"
proof (induction d es arbitrary: r t rule: take_run.induct)
  case (2 d e es)
  show ?case
  proof (cases "e = Suc d")
    case True
    then obtain r' where r': "take_run e es = (r', t)" "r = d # r'"
      using 2(2) by (auto split: prod.splits)
    from 2(1) [OF True r'(1)] True have ih: "r' = [Suc d..<Suc (last r')]" "Suc d \<le> last r'" by auto
    have "r' \<noteq> []" using take_run_split [OF r'(1)] by simp
    then have "last r = last r'" by (simp add: r'(2))
    with ih show ?thesis by (simp add: r'(2) upt_conv_Cons)
  next
    case False
    with 2 show ?thesis by auto
  qed
qed simp

lemma code_digit_le: "m < 10 \<Longrightarrow> n < 10 \<Longrightarrow> digit_char m \<le> digit_char n \<longleftrightarrow> m \<le> n"
  by (simp add: less_eq_char_def code_digit_char)

lemma digit_between:
  assumes "m < 10" "n < 10"
  shows "digit_char m \<le> x \<and> x \<le> digit_char n \<longleftrightarrow> (\<exists>k. m \<le> k \<and> k \<le> n \<and> x = digit_char k)"
proof
  assume "digit_char m \<le> x \<and> x \<le> digit_char n"
  then have "48 + m \<le> code x" "code x \<le> 48 + n"
    using assms by (simp_all add: less_eq_char_def code_digit_char)
  moreover from this have "x = digit_char (code x - 48)"
    by (simp add: digit_char_def)
  ultimately show "\<exists>k. m \<le> k \<and> k \<le> n \<and> x = digit_char k"
    by (intro exI [of _ "code x - 48"]) auto
qed (use assms in \<open>auto simp: code_digit_le\<close>)

lemma class_runs_items:
  "(\<And>d. d \<in> set ds \<Longrightarrow> d < 10) \<Longrightarrow> concat (class_runs ds) = concat (map item_str (class_items ds))"
proof (induction ds rule: class_runs.induct)
  case (2 d ds)
  obtain r t where rt: "take_run d ds = (r, t)" by fastforce
  have all: "\<And>n. n \<in> set r \<union> set t \<Longrightarrow> n < 10"
    using 2(2) take_run_set [OF rt] by auto
  then have ih: "concat (class_runs t) = concat (map item_str (class_items t))"
    using 2(1) [OF rt [symmetric] refl] by blast
  have "concat (map nat_str r) = map digit_char r"
    using all by (intro nat_strs_small) blast
  moreover have "last r < 10" "d < 10"
    using all take_run_split [OF rt] by (simp, metis UnI1 all hd_in_set)
  ultimately show ?case
    using ih rt by (simp add: nat_str_small o_def)
qed simp

lemma class_items_spec:
  "(\<And>d. d \<in> set ds \<Longrightarrow> d < 10) \<Longrightarrow>
   (\<forall>i \<in> set (class_items ds). item_ok i) \<and>
   (\<forall>x. (\<exists>i \<in> set (class_items ds). item_mem i x) \<longleftrightarrow> (\<exists>d \<in> set ds. x = digit_char d))"
proof (induction ds rule: class_items.induct)
  case (2 d ds)
  obtain r t where rt: "take_run d ds = (r, t)" by fastforce
  have set_ds: "set (d # ds) = set r \<union> set t"
    using take_run_set [OF rt] by simp
  have all: "\<And>n. n \<in> set r \<union> set t \<Longrightarrow> n < 10"
    using 2(2) unfolding set_ds by blast
  have ih: "\<forall>i \<in> set (class_items t). item_ok i"
    "\<And>x. (\<exists>i \<in> set (class_items t). item_mem i x) \<longleftrightarrow> (\<exists>d \<in> set t. x = digit_char d)"
    using 2(1) [OF rt [symmetric] refl] all by blast+
  have r: "r = [d..<Suc (last r)]" "d \<le> last r"
    using take_run_upt [OF rt] by auto
  have mem_r: "k \<in> set r \<longleftrightarrow> d \<le> k \<and> k \<le> last r" for k
    by (subst r(1)) auto
  have lt: "d < 10" "last r < 10"
    using all mem_r r(2) by auto
  define hd_items where "hd_items = (if 2 \<le> length r - 1
    then [Range (digit_char d) (digit_char (last r))] else map (\<lambda>n. Single (digit_char n)) r)"
  have "\<forall>i \<in> set hd_items. item_ok i"
    using all lt r(2) by (auto simp: hd_items_def code_digit_le)
  moreover have "(\<exists>i \<in> set hd_items. item_mem i x) \<longleftrightarrow> (\<exists>k \<in> set r. x = digit_char k)" for x
    using digit_between [OF lt, of x] by (auto simp: hd_items_def mem_r)
  moreover have "class_items (d # ds) = hd_items @ class_items t"
    by (simp add: rt hd_items_def)
  ultimately show ?case
    unfolding set_ds using ih by (simp add: bex_Un ball_Un)
qed simp

lemma class_items_ne: "ds \<noteq> [] \<Longrightarrow> class_items ds \<noteq> []"
  by (cases ds) (auto split: prod.splits dest: take_run_split)

subsection \<open>Escaping is character by character\<close>

lemma digit_not_meta:
  "is_digit c \<Longrightarrow> c \<noteq> CHR ''['' \<and> c \<noteq> CHR ''*'' \<and> c \<noteq> CHR ''?'' \<and> c \<noteq> CHR '']''"
  by (auto simp: is_digit_def)

lemma glob_literal_Nil [simp]: "glob_literal [] = []"
  by (simp add: glob_literal_def)

lemma glob_literal_Cons:
  "glob_literal (c # t) = (if c = CHR ''['' then ''[[]'' else [c]) @ glob_literal t"
  by (simp add: glob_literal_def)

lemma glob_literal_append: "glob_literal (s @ t) = glob_literal s @ glob_literal t"
  by (induction s) (simp_all add: glob_literal_Cons)

lemma glob_literal_digits: "(\<And>c. c \<in> set t \<Longrightarrow> is_digit c) \<Longrightarrow> glob_literal t = t"
  by (induction t) (auto simp: glob_literal_Cons dest: digit_not_meta)

lemma glob_literal_digit: "is_digit c \<Longrightarrow> glob_literal [c] = [c]"
  by (rule glob_literal_digits) simp

subsection \<open>What the folding needs of the pattern language\<close>

text \<open>
  \<open>gm name pat\<close> is the matcher. Escaped text stands for itself, a bracketed digit class for one
  of its digits, and both can be read off the front of a pattern.
\<close>

locale glob_language =
  fixes gm :: "str \<Rightarrow> str \<Rightarrow> bool"
  assumes gm_end: "gm n [] \<longleftrightarrow> n = []"
    and gm_literal: "plain_glob t \<Longrightarrow> gm n (glob_literal t @ p) \<longleftrightarrow> (\<exists>m. n = t @ m \<and> gm m p)"
    and gm_class: "ds \<noteq> [] \<Longrightarrow> (\<And>d. d \<in> set ds \<Longrightarrow> is_digit d) \<Longrightarrow>
      gm n (CHR ''['' # digit_class ds @ CHR '']'' # p) \<longleftrightarrow> (\<exists>d \<in> set ds. \<exists>m. n = d # m \<and> gm m p)"
begin

lemma gm_literal_all: "plain_glob t \<Longrightarrow> gm n (glob_literal t) \<longleftrightarrow> n = t"
  using gm_literal [of t n "[]"] by (simp add: gm_end)

lemma gm_group:
  assumes "plain_glob base" and "\<And>c. c \<in> set p \<Longrightarrow> is_digit c"
    and "ls \<noteq> []" and "\<And>c. c \<in> set ls \<Longrightarrow> is_digit c"
  shows "gm n (group_glob base (p, ls)) \<longleftrightarrow>
    (\<exists>d \<in> set ls. n = base @ CHR ''['' # p @ [d, CHR '']''])"
proof -
  define lasts where "lasts = sort (remdups ls)"
  have lasts: "set lasts = set ls" "lasts \<noteq> []"
    using assms(3) by (auto simp: lasts_def simp flip: set_empty)
  have pg: "plain_glob (base @ CHR ''['' # p)"
    using assms(1,2) by (force simp: plain_glob_def dest: digit_not_meta)
  have close: "glob_literal '']'' = '']''" "plain_glob '']''"
    by (simp_all add: glob_literal_def plain_glob_def)
  show ?thesis
  proof (cases "length lasts = 1")
    case True
    then obtain d where d: "lasts = [d]" by (auto simp: length_Suc_conv)
    with lasts(1) have ls: "set ls = {d}" by simp
    then have dd: "is_digit d" using assms(4) by simp
    have pg': "plain_glob (base @ CHR ''['' # p @ [d, CHR '']''])"
      using pg dd by (auto simp: plain_glob_def dest: digit_not_meta)
    have "group_glob base (p, ls) = glob_literal (base @ CHR ''['' # p @ [d, CHR '']''])"
      using dd assms(2)
      by (simp add: group_glob_def Let_def d [unfolded lasts_def] glob_literal_append
          glob_literal_Cons glob_literal_digits digit_not_meta)
    then show ?thesis
      using gm_literal_all [OF pg'] ls by simp
  next
    case False
    have "group_glob base (p, ls) =
        glob_literal (base @ CHR ''['' # p) @ CHR ''['' # digit_class lasts @ CHR '']'' # glob_literal '']''"
      using False assms(2) close(1)
      by (simp add: group_glob_def Let_def flip: lasts_def)
         (simp add: glob_literal_append glob_literal_Cons glob_literal_digits)
    then have "gm n (group_glob base (p, ls)) \<longleftrightarrow>
        (\<exists>m. n = (base @ CHR ''['' # p) @ m \<and> (\<exists>d \<in> set ls. m = d # '']''))"
      using gm_literal [OF pg] gm_class [OF lasts(2)] assms(4)
      by (simp add: lasts(1) gm_literal_all [OF close(2)])
    then show ?thesis by auto
  qed
qed

lemma bit_globs_select:
  assumes "plain_glob base"
  shows "(\<exists>g \<in> set (bit_globs base want). gm n g) \<longleftrightarrow> (\<exists>b \<in> set want. n = bit_name base b)"
proof -
  have group: "gm n (group_glob base g) \<longleftrightarrow>
      (\<exists>b \<in> set want. butlast (nat_str b) = fst g \<and> n = bit_name base b)"
    if "g \<in> set (bit_groups want)" for g
  proof -
    obtain p ls where g: "g = (p, ls)" by fastforce
    with that have ls: "ls = map (\<lambda>b. last (nat_str b)) (filter (\<lambda>b. butlast (nat_str b) = p) want)"
      "ls \<noteq> []"
      by (auto simp: bit_groups_def group_by_mem_iff)
    then obtain b0 where b0: "butlast (nat_str b0) = p"
      by (metis (mono_tags, lifting) filter_False list.map_disc_iff)
    have pd: "c \<in> set p \<Longrightarrow> is_digit c" for c
      using b0 in_set_butlastD nat_str_digits by metis
    have ld: "c \<in> set ls \<Longrightarrow> is_digit c" for c
      using ls(1) nat_str_hd_last(2) by auto
    have name: "bit_name base b = base @ CHR ''['' # butlast (nat_str b) @ [last (nat_str b), CHR '']'']" for b
      unfolding bit_name_def
      by (metis append.assoc append_Cons append_Nil append_butlast_last_id nat_str_ne)
    have "gm n (group_glob base (p, ls)) \<longleftrightarrow> (\<exists>d \<in> set ls. n = base @ CHR ''['' # p @ [d, CHR '']''])"
      by (rule gm_group) (use assms pd ls(2) ld in auto)
    then show ?thesis
      unfolding g fst_conv name by (auto simp: ls(1))
  qed
  have cover: "\<exists>g \<in> set (bit_groups want). butlast (nat_str b) = fst g" if "b \<in> set want" for b
  proof -
    let ?p = "butlast (nat_str b)"
    let ?ls = "map (\<lambda>b. last (nat_str b)) (filter (\<lambda>b. butlast (nat_str b) = ?p) want)"
    have "?ls \<noteq> []" using that by (auto simp: filter_empty_conv)
    then have "(?p, ?ls) \<in> set (bit_groups want)"
      by (simp add: bit_groups_def group_by_mem_iff)
    then show ?thesis by force
  qed
  show ?thesis
    unfolding bit_globs_def using group cover by fastforce
qed

end

subsection \<open>\<open>fnmatch\<close> provides it\<close>

lemma translate_literal:
  "plain_glob t \<Longrightarrow> translate_glob (glob_literal t @ p) = map (\<lambda>c. GOne (\<lambda>x. x = c)) t @ translate_glob p"
proof (induction t)
  case (Cons c t)
  then have "plain_glob t" by (simp add: plain_glob_def)
  with Cons show ?case
    using translate_open by (auto simp: glob_literal_Cons plain_glob_def)
qed simp

lemma gmatch_literal: "gmatch (map (\<lambda>c. GOne (\<lambda>x. x = c)) t @ ts) n \<longleftrightarrow> (\<exists>m. n = t @ m \<and> gmatch ts m)"
proof (induction t arbitrary: n)
  case (Cons c t)
  then show ?case by (cases n) auto
qed simp

lemma translate_digit_class:
  assumes "ds \<noteq> []" and "\<And>d. d \<in> set ds \<Longrightarrow> is_digit d"
  shows "translate_glob (CHR ''['' # digit_class ds @ CHR '']'' # p) =
    GOne (\<lambda>x. x \<in> set ds) # translate_glob p"
proof -
  define ns where "ns = sort (remdups (map digit_val ds))"
  have ns: "set ns = digit_val ` set ds" "ns \<noteq> []"
    using assms(1) by (auto simp: ns_def simp flip: set_empty)
  have lt: "n < 10" if "n \<in> set ns" for n
    using assms(2) that by (auto simp: ns(1) digit_val_less)
  have "digit_class ds = concat (map item_str (class_items ns))"
    unfolding digit_class_def ns_def [symmetric] by (rule class_runs_items) (rule lt)
  moreover have spec: "(\<forall>i \<in> set (class_items ns). item_ok i) \<and>
      (\<forall>x. (\<exists>i \<in> set (class_items ns). item_mem i x) \<longleftrightarrow> (\<exists>d \<in> set ns. x = digit_char d))"
    by (rule class_items_spec) (rule lt)
  moreover have "(\<exists>d \<in> set ns. x = digit_char d) \<longleftrightarrow> x \<in> set ds" for x
    using assms(2) by (auto simp: ns(1))
  moreover have "translate_glob (CHR ''['' # concat (map item_str (class_items ns)) @ CHR '']'' # p) =
      GOne (\<lambda>x. \<exists>i \<in> set (class_items ns). item_mem i x) # translate_glob p"
    by (rule translate_items) (use spec class_items_ne [OF ns(2)] in auto)
  ultimately show ?thesis
    by simp
qed

interpretation glob: glob_language fnmatch
proof
  show "fnmatch n [] \<longleftrightarrow> n = []" for n
    by (simp add: fnmatch_def)
  show "fnmatch n (glob_literal t @ p) \<longleftrightarrow> (\<exists>m. n = t @ m \<and> fnmatch m p)" if "plain_glob t" for t n p
    using that by (simp add: fnmatch_def translate_literal gmatch_literal)
  show "fnmatch n (CHR ''['' # digit_class ds @ CHR '']'' # p) \<longleftrightarrow>
      (\<exists>d \<in> set ds. \<exists>m. n = d # m \<and> fnmatch m p)"
    if "ds \<noteq> []" "\<And>d. d \<in> set ds \<Longrightarrow> is_digit d" for ds n p
    using translate_digit_class [OF that] by (cases n) (auto simp: fnmatch_def)
qed

subsection \<open>The folding is exact\<close>

lemma bit_name_inj: "bit_name base a = bit_name base b \<longleftrightarrow> a = b"
  by (simp add: bit_name_def nat_str_inj)

lemma combine_bits_spec:
  assumes "plain_glob base" and "set want \<subseteq> set present"
  shows "combine_bits base want present = Some (bit_globs base want) \<and>
    (\<forall>name. (\<exists>g \<in> set (bit_globs base want). fnmatch name g) \<longleftrightarrow> (\<exists>b \<in> set want. name = bit_name base b))"
proof -
  have sel: "(\<exists>g \<in> set (bit_globs base want). fnmatch name g) \<longleftrightarrow>
      (\<exists>b \<in> set want. name = bit_name base b)" for name
    using glob.bit_globs_select [OF assms(1)] .
  then have "set (filter (\<lambda>b. \<exists>g \<in> set (bit_globs base want). fnmatch (bit_name base b) g) present) = set want"
    using assms(2) by (auto simp: bit_name_inj)
  with sel show ?thesis
    by (simp add: combine_bits_def Let_def)
qed

text \<open>
  C11. Folding uncovered bits into globs is exact: for a signal name without wildcard
  characters of its own, \<open>_combine_bits\<close> never falls back, and the globs it returns match the
  names of the wanted bits and no other string at all, whatever bits the signal has.
\<close>

theorem combine_bits_exact:
  assumes "plain_glob base" and "set want \<subseteq> set present"
  shows "\<exists>globs. combine_bits base want present = Some globs \<and>
    (\<forall>name. (\<exists>g \<in> set globs. fnmatch name g) \<longleftrightarrow> (\<exists>b \<in> set want. name = bit_name base b))"
  using combine_bits_spec [OF assms] by blast

theorem combine_bits_exact_witness:
  "\<exists>globs. combine_bits ''tdata1_or[3]'' [8, 3, 9, 31, 10] [0, 3, 8, 9, 10, 11, 31] = Some globs \<and>
    (\<forall>name. (\<exists>g \<in> set globs. fnmatch name g) \<longleftrightarrow>
      (\<exists>b \<in> set [8, 3, 9, 31, 10]. name = bit_name ''tdata1_or[3]'' b))"
  by (rule combine_bits_exact) (simp_all add: plain_glob_def)

text \<open>
  Even for a name with wildcards, where the globs could catch more, \<open>_combine_bits\<close> checks
  its result: what it returns selects a present bit exactly when the bit is wanted, and every
  wanted bit is present.
\<close>

lemma combine_bits_checked:
  assumes "combine_bits base want present = Some globs"
  shows "set want \<subseteq> set present \<and>
    (\<forall>b \<in> set present. (\<exists>g \<in> set globs. fnmatch (bit_name base b) g) \<longleftrightarrow> b \<in> set want)"
  using assms by (auto simp: combine_bits_def Let_def split: if_splits)

end
