(* ===== verification/WaiverSuggest.thy ===== *)
theory WaiverSuggest
  imports Waivers WaiverFold
begin

text \<open>
  The authoring helpers of \<open>cov_waive.py\<close>: the literal anchor of a source line, the generator of
  ready-to-paste waiver entries with its command-line printer, the linter, and the two small
  file helpers. A coverage database is the dictionary \<open>cov_report.parse\<close> returns: a point key
  with its page, path and count. A signal name holds no newline, so \<open>^(.*)\[\d+\]$\<close> splits it at
  its last opening bracket.
\<close>

type_synonym points = "(str \<times> str \<times> str \<times> int) list"

subsection \<open>Point keys\<close>

text \<open>\<open>dict(f.split('\x02', 1) for f in key.split('\x01') if '\x02' in f)\<close>\<close>

definition key_fields :: "str \<Rightarrow> (str \<times> str) list" where
  "key_fields key =
     fold (\<lambda>f d. case cut [CHR 0x02] f of None \<Rightarrow> d | Some (k, v) \<Rightarrow> AList.update k v d)
       (split_char (CHR 0x01) key) []"

definition get_or :: "str \<Rightarrow> str \<Rightarrow> (str \<times> str) list \<Rightarrow> str" where
  "get_or k dflt d = (case map_of d k of None \<Rightarrow> dflt | Some v \<Rightarrow> v)"

text \<open>\<open>int(t or 0)\<close>\<close>

definition int_or_0 :: "str \<Rightarrow> int res" where
  "int_or_0 t =
     (if t = [] then Inr 0 else case py_int t of None \<Rightarrow> Inl (ValueError t) | Some i \<Rightarrow> Inr i)"

type_synonym rec5 = "str \<times> str \<times> int \<times> str \<times> int"

definition records_from_report :: "points \<Rightarrow> rec5 list res" where
  "records_from_report pts =
     map_res (\<lambda>(key, page, path, cnt).
       let d = key_fields key
       in bind_res (int_or_0 (get_or ''l'' [] d))
            (\<lambda>ln. Inr (before ''/'' page, path, ln, get_or ''o'' [] d, cnt))) pts"

subsection \<open>The anchor of a line\<close>

definition uses :: "str list \<Rightarrow> str \<Rightarrow> nat" where
  "uses src cand = length (filter (\<lambda>l. contains l cand) src)"

text \<open>The shortest leading slice that occurs on one line only, extended to a word boundary.\<close>

definition pick_anchor :: "str list \<Rightarrow> str \<Rightarrow> str \<Rightarrow> str option" where
  "pick_anchor src txt want =
     (let lo = (if want \<noteq> [] \<and> contains txt want
                then max 12 (length (before want txt) + length want) else 12)
      in case List.find (\<lambda>n. uses src (take n txt) = 1) [lo..<length txt + 1] of
           Some n \<Rightarrow> Some (take n txt @ takeWhile is_word (drop n txt))
         | None \<Rightarrow> if uses src txt = 1 then Some txt else None)"

definition src_anchor :: "(str \<Rightarrow> str option) \<Rightarrow> str \<Rightarrow> int \<Rightarrow> str \<Rightarrow> str option" where
  "src_anchor fs path line want =
     (case fs path of
        None \<Rightarrow> None
      | Some text \<Rightarrow>
          (let src = split_nl text
           in if \<not> (1 \<le> line \<and> line \<le> int (length src)) then None
              else
                (let txt = strip (before ''//'' (src ! (nat line - 1)))
                 in if txt = [] then None else pick_anchor src txt want)))"

subsection \<open>Suggested entries\<close>

record entry =
  e_file :: str
  e_at :: str
  e_type :: str
  e_sig :: str
  e_why :: str
  e_folded :: "(nat \<times> nat) option"

definition stub_reason :: str where
  "stub_reason = ''unreachable: '' @ placeholder @ '' ''"

definition bit_split :: "str \<Rightarrow> (str \<times> str) option" where
  "bit_split sg =
     (if \<not> endswith sg '']'' then None
      else (case rcut ''['' (butlast sg) of
              None \<Rightarrow> None
            | Some (b, ds) \<Rightarrow> if ds \<noteq> [] \<and> list_all is_digit ds then Some (b, ds) else None))"

definition sig_base :: "str \<Rightarrow> str" where
  "sig_base sg = (case bit_split sg of None \<Rightarrow> sg | Some (b, ds) \<Rightarrow> b)"

definition bit_index :: "str \<Rightarrow> str \<Rightarrow> nat option" where
  "bit_index base sg =
     (case bit_split sg of None \<Rightarrow> None | Some (b, ds) \<Rightarrow> if b = base then py_nat ds else None)"

definition rev_type :: "str \<Rightarrow> str" where
  "rev_type page = (case map_of (map prod.swap waiver_types) page of None \<Rightarrow> page | Some t \<Rightarrow> t)"

type_synonym hit = "(str \<times> str \<times> str) \<times> int"

text \<open>The accumulation over the records at the wanted location.\<close>

definition at_hint :: "str \<Rightarrow> str \<Rightarrow> bool" where
  "at_hint file_hint path \<longleftrightarrow> endswith path (''/'' @ file_hint) \<or> basename path = file_hint"

definition hit_step :: "str \<Rightarrow> str \<Rightarrow> str option \<Rightarrow> rec5 \<Rightarrow> hit list \<Rightarrow> hit list res" where
  "hit_step file_hint line kind r acc =
     (case r of (page, path, ln, sg, cnt) \<Rightarrow>
       if \<not> at_hint file_hint path then Inr acc
       else
         (case py_int line of
            None \<Rightarrow> Inl (ValueError line)
          | Some n \<Rightarrow>
              if ln \<noteq> n then Inr acc
              else if kind \<noteq> None \<and> kind \<noteq> Some [] \<and> map_of waiver_types (the kind) \<noteq> Some page then Inr acc
              else Inr (AList.update (page, path, sg)
                     (max (case map_of acc (page, path, sg) of None \<Rightarrow> 0 | Some c \<Rightarrow> c) cnt) acc)))"

definition gather :: "str \<Rightarrow> str \<Rightarrow> str option \<Rightarrow> rec5 list \<Rightarrow> hit list res" where
  "gather file_hint line kind records = fold_res (hit_step file_hint line kind) records []"

definition mk_entry :: "str \<Rightarrow> str \<Rightarrow> str \<Rightarrow> str \<Rightarrow> (nat \<times> nat) option \<Rightarrow> entry" where
  "mk_entry at page path sg folded =
     \<lparr>e_file = basename path, e_at = at, e_type = rev_type page, e_sig = sg, e_why = stub_reason,
      e_folded = folded\<rparr>"

text \<open>One group of \<open>bybase\<close>: the plain names first, then the folded bits.\<close>

definition group_entries :: "str \<Rightarrow> (str \<times> str \<times> str) \<times> (str \<times> int) list \<Rightarrow> entry list" where
  "group_entries at g =
     (case g of ((page, path, base), members) \<Rightarrow>
        let present = map (\<lambda>(sg, cnt). the (bit_index base sg)) (filter (\<lambda>(sg, cnt). bit_index base sg \<noteq> None) members);
            want = map (\<lambda>(sg, cnt). the (bit_index base sg)) (filter (\<lambda>(sg, cnt). bit_index base sg \<noteq> None \<and> cnt = 0) members);
            plain = map fst (filter (\<lambda>(sg, cnt). bit_index base sg = None \<and> cnt = 0) members);
            globs = (case combine_bits base (sort want) (sort present) of
                       Some gs \<Rightarrow> gs
                     | None \<Rightarrow> map (\<lambda>b. glob_literal base @ ''[[]'' @ nat_str b @ '']'') (sort want))
        in map (\<lambda>sg. mk_entry at page path (glob_literal sg) None) (sort plain) @
           (if want = [] then []
            else map (\<lambda>gl. mk_entry at page path gl (Some (length want, length globs))) globs))"

fun hit_group :: "hit \<Rightarrow> str \<times> str \<times> str" where
  "hit_group ((page, path, sg), cnt) = (page, path, sig_base sg)"

fun hit_member :: "hit \<Rightarrow> str \<times> int" where
  "hit_member ((page, path, sg), cnt) = (sg, cnt)"

definition by_base :: "hit list \<Rightarrow> ((str \<times> str \<times> str) \<times> (str \<times> int) list) list" where
  "by_base hits = sort_key fst (group_by hit_group hit_member hits)"

definition suggest_entries :: "(str \<Rightarrow> str option) \<Rightarrow> rec5 list \<Rightarrow> str \<Rightarrow> str \<Rightarrow> str option \<Rightarrow>
    (entry list \<times> nat \<times> bool) res" where
  "suggest_entries fs records file_hint line kind =
     bind_res (gather file_hint line kind records)
       (\<lambda>hits.
          if hits = [] then Inr ([], 0, True)
          else
            (let live = filter (\<lambda>h. snd h = 0) hits; skipped = length hits - length live
             in if live = [] then Inr ([], length hits, True)
                else
                  (let (page, path, sg) = fst (hd live);
                       anchor = src_anchor fs path (the (py_int line)) (before ''['' sg);
                       at = (case anchor of Some a \<Rightarrow> ''/'' @ a @ ''/'' | None \<Rightarrow> line)
                   in Inr (concat (map (group_entries at) (by_base hits)), skipped, anchor \<noteq> None))))"

subsection \<open>The command-line printer\<close>

definition entry_json :: "entry \<Rightarrow> json" where
  "entry_json e = JObj [(''file'', JStr (e_file e)), (''at'', JStr (e_at e)), (''type'', JStr (e_type e)),
     (''sig'', JStr (e_sig e)), (''why'', JStr (e_why e))]"

definition entry_lines :: "entry \<Rightarrow> str list" where
  "entry_lines e =
     json_dumps (entry_json e) #
     (case e_folded e of
        Some (bits, gl) \<Rightarrow>
          if gl < bits then [''#   ^ '' @ nat_str bits @ '' bit(s) folded into '' @ nat_str gl @
            '' glob(s); verified to match those bits only''] else []
      | None \<Rightarrow> [])"

definition suggest :: "(str \<Rightarrow> str option) \<Rightarrow> points \<Rightarrow> str \<Rightarrow> str \<Rightarrow> str option \<Rightarrow> (str list \<times> nat) res" where
  "suggest fs pts file_hint line kind =
     bind_res (records_from_report pts) (\<lambda>records.
     bind_res (suggest_entries fs records file_hint line kind) (\<lambda>(entries, skipped, literal).
       if entries = [] then
         Inr ([if skipped \<noteq> 0
               then ''# every point at '' @ file_hint @ '':'' @ line @ '' is already COVERED -- nothing to waive here.''
               else ''no coverage point at '' @ file_hint @ '':'' @ line], 1)
       else
         Inr ((if literal then []
               else [''# NOTE: no unique text on that line -- falling back to a line number,'',
                     ''#       which will go stale if the file is edited above this point.'']) @
              concat (map entry_lines entries) @
              (if skipped = 0 then []
               else [''# '' @ nat_str skipped @ '' point(s) at this location are already COVERED and were skipped.'',
                     ''# Do NOT widen the sig glob to swallow them -- --lint would call that BROAD.'']), 0)))"

subsection \<open>The linter\<close>

type_synonym lkey = "str \<times> int \<times> str \<times> str"

definition lint_points :: "points \<Rightarrow> (lkey \<times> int) list res" where
  "lint_points pts =
     fold_res (\<lambda>(key, page, path, cnt) acc.
       let d = key_fields key
       in bind_res (int_or_0 (get_or ''l'' [] d))
            (\<lambda>ln. let k = (path, ln, page, get_or ''o'' [] d)
                  in Inr (AList.update k (max (case map_of acc k of None \<Rightarrow> 0 | Some c \<Rightarrow> c) cnt) acc)))
       pts []"

text \<open>The inner loop for one waiver: (matched, covered), with the source cache passed through.\<close>

fun lint_waiver :: "(str \<Rightarrow> str option) \<Rightarrow> waiver \<Rightarrow> (lkey \<times> int) list \<Rightarrow> cache \<Rightarrow> (nat \<times> nat) \<times> cache" where
  "lint_waiver fs w [] c = ((0, 0), c)"
| "lint_waiver fs w (((path, ln, page, sg), cnt) # ps) c =
     (if w_file w \<noteq> JStr (basename path) \<or> page \<notin> w_pages w then lint_waiver fs w ps c
      else
        (let (ok, c1) = match_loc fs (w_at w) path ln c;
             ((m, k), c2) = lint_waiver fs w ps c1
         in if \<not> ok \<or> w_sig w \<noteq> None \<and> w_sig w \<noteq> Some [] \<and> \<not> fnmatch sg (the (w_sig w))
            then ((m, k), c2)
            else ((Suc m, if cnt \<noteq> 0 then Suc k else k), c2)))"

datatype verdict = Stale | Broad nat nat | Fine nat

definition verdict_of :: "nat \<times> nat \<Rightarrow> verdict" where
  "verdict_of mk = (if fst mk = 0 then Stale else if snd mk \<noteq> 0 then Broad (fst mk) (snd mk) else Fine (fst mk))"

definition verdict_line :: "waiver \<Rightarrow> verdict \<Rightarrow> str" where
  "verdict_line w v =
     (case v of
        Stale \<Rightarrow> ''STALE   '' @ ljust 52 (waiver_str w) @ '' matches nothing''
      | Broad m c \<Rightarrow> ''BROAD   '' @ ljust 52 (waiver_str w) @ '' matches '' @ nat_str m @ '' point(s), '' @
          nat_str c @ '' ALREADY COVERED''
      | Fine m \<Rightarrow> ''ok      '' @ ljust 52 (waiver_str w) @ '' matches '' @ nat_str m @ '' uncovered point(s)'')"

fun lint_items :: "(str \<Rightarrow> str option) \<Rightarrow> (lkey \<times> int) list \<Rightarrow> waiver list \<Rightarrow> cache \<Rightarrow> verdict list" where
  "lint_items fs acc [] c = []"
| "lint_items fs acc (w # ws) c =
     (let (mk, c1) = lint_waiver fs w acc c in verdict_of mk # lint_items fs acc ws c1)"

definition lint :: "(str \<Rightarrow> str option) \<Rightarrow> waivers \<Rightarrow> points \<Rightarrow> (str list \<times> nat) res" where
  "lint fs wv pts =
     bind_res (lint_points pts) (\<lambda>acc.
       let vs = lint_items fs acc (items wv) (srccache wv)
       in Inr (map2 verdict_line (items wv) vs,
               length (filter (\<lambda>v. case v of Fine _ \<Rightarrow> False | _ \<Rightarrow> True) vs)))"

subsection \<open>File helpers\<close>

definition default_path :: "(str \<Rightarrow> bool) \<Rightarrow> str \<Rightarrow> str \<Rightarrow> str" where
  "default_path exists cwd start =
     (let run = path_join (path_join (dirname (abspath cwd start)) ''..'') ''run'';
          md = path_join run ''waivers_cov.md''
      in if exists md then md else path_join run ''waivers_cov.txt'')"

text \<open>
  \<open>check_fresh\<close>: the names its warning lists (at most four) and whether more files are newer.
  Modification times are numbers; \<open>None\<close> for a path that does not exist.
\<close>

definition check_fresh :: "(str \<Rightarrow> nat option) \<Rightarrow> str list \<Rightarrow> str list \<Rightarrow> (str list \<times> bool) option" where
  "check_fresh mtime dats rtl_paths =
     (if dats = [] \<or> rtl_paths = [] then None
      else
        (let oldest = Min ((the \<circ> mtime) ` set dats);
             newer = filter (\<lambda>p. case mtime p of None \<Rightarrow> False | Some t \<Rightarrow> oldest < t) rtl_paths
         in if newer = [] then None
            else Some (take 4 (sort (map basename newer)), 4 < length newer)))"

subsection \<open>The anchor is unique\<close>

lemma filter_one_index:
  assumes "length (filter P xs) = 1" and "i < length xs" and "j < length xs" and "P (xs ! i)" and "P (xs ! j)"
  shows "i = j"
proof -
  have "card {k. k < length xs \<and> P (xs ! k)} = 1"
    using assms(1) by (simp add: length_filter_conv_card)
  then obtain x where x: "{k. k < length xs \<and> P (xs ! k)} = {x}"
    by (rule card_1_singletonE)
  have "i \<in> {k. k < length xs \<and> P (xs ! k)}" "j \<in> {k. k < length xs \<and> P (xs ! k)}"
    using assms(2-5) by simp_all
  then show ?thesis unfolding x by simp
qed

lemma uses_one_index:
  assumes "uses src cand = 1" and "contains a cand" and "i < length src" and "j < length src"
    and "contains (src ! i) a" and "contains (src ! j) a"
  shows "i = j"
proof (rule filter_one_index)
  show "length (filter (\<lambda>l. contains l cand) src) = 1" using assms(1) by (simp add: uses_def)
  show "contains (src ! i) cand" by (rule contains_trans [OF assms(5,2)])
  show "contains (src ! j) cand" by (rule contains_trans [OF assms(6,2)])
qed (rule assms)+

lemma pick_anchor_cases:
  assumes "pick_anchor src full want = Some a" and "full \<noteq> []"
  obtains cand where "a \<noteq> []" "contains a cand" "contains full a" "uses src cand = 1"
proof -
  define lo where "lo = (if want \<noteq> [] \<and> contains full want
      then max 12 (length (before want full) + length want) else (12::nat))"
  have a: "(case List.find (\<lambda>n. uses src (take n full) = 1) [lo..<length full + 1] of
           Some n \<Rightarrow> Some (take n full @ takeWhile is_word (drop n full))
         | None \<Rightarrow> if uses src full = 1 then Some full else None) = Some a"
    using assms(1) unfolding pick_anchor_def Let_def lo_def .
  show thesis
  proof (cases "List.find (\<lambda>n. uses src (take n full) = 1) [lo..<length full + 1]")
    case None
    with a have "a = full" "uses src full = 1" by (auto split: if_splits)
    with that [of full] assms(2) show thesis by simp
  next
    case (Some n)
    then have n: "lo \<le> n" "n \<le> length full" "uses src (take n full) = 1"
      by (auto simp: find_Some_iff simp del: upt_Suc)
    from Some a have aeq: "a = take n full @ takeWhile is_word (drop n full)" by simp
    have "full = a @ dropWhile is_word (drop n full)"
      unfolding aeq by (metis append.assoc append_take_drop_id takeWhile_dropWhile_id)
    then have "contains full a" using contains_append [of "[]" a] by (metis append_Nil)
    moreover have "contains a (take n full)"
      unfolding aeq using contains_append [of "[]"] by (metis append_Nil)
    moreover have "a \<noteq> []"
      unfolding aeq using n assms(2) by (auto simp: lo_def split: if_splits)
    ultimately show thesis using that [of "take n full"] n(3) by blast
  qed
qed

lemma src_anchor_cases:
  assumes "src_anchor fs path line want = Some a"
  obtains cand where "1 \<le> line" "line \<le> int (length (read_lines fs path))"
    "contains (read_lines fs path ! (nat line - 1)) a" "a \<noteq> []" "contains a cand"
    "uses (read_lines fs path) cand = 1"
proof -
  obtain body where body: "fs path = Some body"
    using assms by (auto simp: src_anchor_def split: option.splits)
  define src where "src = split_nl body"
  define full where "full = strip (before ''//'' (src ! (nat line - 1)))"
  have eq: "src_anchor fs path line want =
      (if \<not> (1 \<le> line \<and> line \<le> int (length src)) then None
       else if full = [] then None else pick_anchor src full want)"
    unfolding src_anchor_def body option.case Let_def src_def full_def ..
  with assms have r: "1 \<le> line" "line \<le> int (length src)" "full \<noteq> []" "pick_anchor src full want = Some a"
    by (auto split: if_splits)
  obtain v where "src ! (nat line - 1) = before ''//'' (src ! (nat line - 1)) @ v"
    using before_prefix by blast
  then have "contains (src ! (nat line - 1)) (before ''//'' (src ! (nat line - 1)))"
    using contains_append [of "[]"] by (metis append_Nil)
  from contains_trans [OF this strip_infix] have infix_full: "contains (src ! (nat line - 1)) full"
    unfolding full_def .
  obtain cand where c: "a \<noteq> []" "contains a cand" "contains full a" "uses src cand = 1"
    using pick_anchor_cases [OF r(4,3)] by blast
  from that r(1,2) contains_trans [OF infix_full c(3)] c(1,2,4) show thesis
    by (simp add: read_lines_def body src_def)
qed

lemma anchor_exact:
  assumes "src_anchor fs path line want = Some a"
  shows "at_matches fs (AtText a) path l \<longleftrightarrow> l = line"
proof -
  define src where "src = read_lines fs path"
  obtain cand where r: "1 \<le> line" "line \<le> int (length src)" and here: "contains (src ! (nat line - 1)) a"
    and a: "a \<noteq> []" "contains a cand" "uses src cand = 1"
    using src_anchor_cases [OF assms] unfolding src_def by blast
  have out: "\<not> contains [] a" using a(1) by (simp add: contains_iff)
  have key: "at_matches fs (AtText a) path l \<longleftrightarrow>
      0 < l \<and> l \<le> int (length src) \<and> contains (src ! (nat l - 1)) a"
    using out by (auto simp: at_matches_def line_of_def src_def Let_def)
  show ?thesis
  proof
    assume "at_matches fs (AtText a) path l"
    with key have l: "0 < l" "l \<le> int (length src)" "contains (src ! (nat l - 1)) a" by auto
    have "nat l - 1 = nat line - 1"
      by (rule uses_one_index [OF a(3,2) _ _ l(3) here]) (use l r in linarith)+
    with l r show "l = line" by linarith
  next
    assume "l = line"
    with key here r show "at_matches fs (AtText a) path l" by simp
  qed
qed

text \<open>
  C22. The literal anchor the generator proposes for a line is exact: as a waiver locator in that
  file it selects the line it was made for, and no other line.
\<close>

theorem anchor_selects_its_line:
  assumes "src_anchor fs path line want = Some a"
  shows "at_matches fs (AtText a) path l \<longleftrightarrow> l = line"
  using assms by (rule anchor_exact)

theorem anchor_selects_its_line_witness:
  "at_matches sample_rtl (AtText ''assign q = a'') ''rtl/t.v'' 2 \<and>
    \<not> at_matches sample_rtl (AtText ''assign q = a'') ''rtl/t.v'' 1"
proof -
  have "src_anchor sample_rtl ''rtl/t.v'' 2 ''q'' = Some ''assign q = a''" by code_simp
  from anchor_selects_its_line [OF this] show ?thesis by simp
qed

subsection \<open>The linter counts what a waiver covers\<close>

lemma lint_waiver_spec:
  "cache_ok fs c \<Longrightarrow>
   fst (lint_waiver fs w ps c) =
     (length (filter (\<lambda>((path, ln, page, sg), cnt). covers fs w path ln page sg) ps),
      length (filter (\<lambda>((path, ln, page, sg), cnt). covers fs w path ln page sg \<and> cnt \<noteq> 0) ps)) \<and>
   cache_ok fs (snd (lint_waiver fs w ps c))"
proof (induction fs w ps c rule: lint_waiver.induct)
  case (2 fs w path ln page sg cnt ps c)
  obtain ok c1 where l: "match_loc fs (w_at w) path ln c = (ok, c1)" by fastforce
  with match_loc_spec [OF 2(3), of "w_at w" path ln]
  have ok: "ok = at_matches fs (w_at w) path ln" "cache_ok fs c1" by simp_all
  obtain m k c2 where r: "lint_waiver fs w ps c1 = ((m, k), c2)" by (metis prod.exhaust)
  show ?case
  proof (cases "w_file w \<noteq> JStr (basename path) \<or> page \<notin> w_pages w")
    case True
    with 2(1) [OF True 2(3)] show ?thesis by (auto simp: covers_def)
  next
    case False
    with 2(2) [OF False l [symmetric] refl ok(2)] show ?thesis
      by (auto simp: l r ok(1) covers_def)
  qed
qed simp

lemma lint_items_spec:
  "cache_ok fs c \<Longrightarrow>
   lint_items fs acc ws c =
     map (\<lambda>w. verdict_of
       (length (filter (\<lambda>((path, ln, page, sg), cnt). covers fs w path ln page sg) acc),
        length (filter (\<lambda>((path, ln, page, sg), cnt). covers fs w path ln page sg \<and> cnt \<noteq> 0) acc))) ws"
proof (induction ws arbitrary: c)
  case (Cons w ws)
  obtain mk c1 where l: "lint_waiver fs w acc c = (mk, c1)" by fastforce
  with lint_waiver_spec [OF Cons.prems, of w acc] Cons.IH [of c1] show ?case by simp
qed simp

text \<open>
  C26. The linter's exit status: \<open>lint\<close> reports no problem exactly when every waiver covers at
  least one point of the accumulated database and none of the points it covers has been hit.
\<close>

theorem lint_clean_iff:
  assumes "cache_ok fs (srccache wv)" and "lint_points pts = Inr acc" and "lint fs wv pts = Inr (out, bad)"
  shows "bad = 0 \<longleftrightarrow> (\<forall>w \<in> set (items wv).
    (\<exists>((path, ln, page, sg), cnt) \<in> set acc. covers fs w path ln page sg) \<and>
    (\<forall>((path, ln, page, sg), cnt) \<in> set acc. covers fs w path ln page sg \<longrightarrow> cnt = 0))"
proof -
  define cov where "cov = (\<lambda>w ((path, ln, page, sg), cnt :: int). covers fs w path ln page sg)"
  have covw: "(\<lambda>((path, ln, page, sg), cnt). covers fs w path ln page sg) = cov w"
    "(\<lambda>((path, ln, page, sg), cnt). covers fs w path ln page sg \<and> cnt \<noteq> 0) =
      (\<lambda>p. cov w p \<and> snd p \<noteq> 0)" for w
    by (auto simp: cov_def fun_eq_iff)
  have vs: "lint_items fs acc (items wv) (srccache wv) =
      map (\<lambda>w. verdict_of (length (filter (cov w) acc), length (filter (\<lambda>p. cov w p \<and> snd p \<noteq> 0) acc))) (items wv)"
    using lint_items_spec [OF assms(1), of acc "items wv"] unfolding covw .
  have fine: "(case verdict_of (length (filter P acc), length (filter Q acc)) of Fine _ \<Rightarrow> False | _ \<Rightarrow> True) \<longleftrightarrow>
      \<not> ((\<exists>p \<in> set acc. P p) \<and> (\<forall>p \<in> set acc. \<not> Q p))" for P Q
    by (auto simp: verdict_of_def filter_empty_conv)
  have "bad = length (filter (\<lambda>v. case v of Fine _ \<Rightarrow> False | _ \<Rightarrow> True) (lint_items fs acc (items wv) (srccache wv)))"
    using assms(2,3) by (simp add: lint_def Let_def)
  then have "bad = 0 \<longleftrightarrow> (\<forall>w \<in> set (items wv). (\<exists>p \<in> set acc. cov w p) \<and> (\<forall>p \<in> set acc. cov w p \<longrightarrow> snd p = 0))"
    unfolding vs by (auto simp: filter_map filter_empty_conv o_def fine)
  then show ?thesis
    by (simp add: cov_def split_beta)
qed

subsection \<open>Entries as waivers\<close>

text \<open>The waiver the loader builds from a printed entry once its reason has been filled in.\<close>

definition entry_waiver :: "(str \<Rightarrow> rx option) \<Rightarrow> str \<Rightarrow> origin \<Rightarrow> entry \<Rightarrow> waiver option" where
  "entry_waiver rxc why wh e = snd (build_waiver rxc wh (entry_json (e\<lparr>e_why := why\<rparr>)))"

definition known_page :: "str \<Rightarrow> bool" where
  "known_page page \<longleftrightarrow> page \<in> set (map snd waiver_types)"

text \<open>
  A signal name as Verilator writes it: not empty, no wildcard characters, a final bit index in
  plain decimal.
\<close>

definition clean_sig :: "str \<Rightarrow> bool" where
  "clean_sig sg \<longleftrightarrow> sg \<noteq> [] \<and> plain_glob sg \<and>
     (case bit_split sg of None \<Rightarrow> True | Some (b, ds) \<Rightarrow> \<exists>n. ds = nat_str n)"

lemma bit_split_Some: "bit_split sg = Some (b, ds) \<Longrightarrow> sg = b @ ''['' @ ds @ '']''"
proof -
  assume "bit_split sg = Some (b, ds)"
  then have e: "endswith sg '']''" and r: "rcut ''['' (butlast sg) = Some (b, ds)"
    by (auto simp: bit_split_def split: if_splits option.splits)
  from e obtain t where t: "sg = t @ '']''" by (auto simp: endswith_iff)
  with rcut_Some [OF r] show ?thesis by simp
qed

lemma clean_base: "clean_sig sg \<Longrightarrow> plain_glob (sig_base sg)"
  by (auto simp: clean_sig_def sig_base_def plain_glob_def dest!: bit_split_Some split: option.splits)

lemma clean_index:
  "clean_sig sg \<Longrightarrow> bit_index (sig_base sg) sg = None \<and> sg = sig_base sg \<or>
     (\<exists>n. bit_index (sig_base sg) sg = Some n \<and> sg = bit_name (sig_base sg) n)"
  by (auto simp: clean_sig_def sig_base_def bit_index_def bit_name_def dest!: bit_split_Some
      split: option.splits)

lemma rev_type_known:
  "known_page page \<Longrightarrow> strip (rev_type page) = rev_type page \<and> CHR '','' \<notin> set (rev_type page) \<and>
     parse_types wh [rev_type page] = ({page}, [])"
  by (auto simp: known_page_def rev_type_def waiver_types_def strip_def lstrip_def rstrip_def
      lstrip_by_def rstrip_by_def is_space_def)

text \<open>An anchor in slashes, or the line number, selects the line it was made for.\<close>

lemma strip_Cons: "\<not> is_space c \<Longrightarrow> \<exists>r'. strip (c # r) = c # r'"
  by (cases "\<forall>x \<in> set r. is_space x")
     (auto simp: strip_def lstrip_def rstrip_def lstrip_by_def rstrip_by_def dropWhile_append
       intro: rev_rev_ident [symmetric])

lemma py_int_no_slash: "py_int t = Some n \<Longrightarrow> \<not> startswith t ''/'' \<and> \<not> startswith t ''re/''"
proof
  assume n: "py_int t = Some n"
  have start: "c = CHR ''-'' \<or> c = CHR ''+'' \<or> is_digit c" if "strip t = c # r" for c r
    using n that by (auto simp: py_int_def py_nat_def split: if_splits)
  show "\<not> startswith t ''/''"
  proof
    assume "startswith t ''/''"
    then obtain r where t: "t = CHR ''/'' # r" by (auto simp: startswith_iff)
    then have "\<exists>r'. strip t = CHR ''/'' # r'"
      unfolding t by (intro strip_Cons) (simp add: is_space_def)
    with start show False by (auto simp: is_digit_def)
  qed
  show "\<not> startswith t ''re/''"
  proof
    assume "startswith t ''re/''"
    then obtain r where t: "t = CHR ''r'' # r" by (auto simp: startswith_iff)
    then have "\<exists>r'. strip t = CHR ''r'' # r'"
      unfolding t by (intro strip_Cons) (simp add: is_space_def)
    with start show False by (auto simp: is_digit_def)
  qed
qed

definition entry_ok :: "str \<Rightarrow> str \<Rightarrow> str \<Rightarrow> entry \<Rightarrow> bool" where
  "entry_ok at page path e \<longleftrightarrow>
     e_file e = basename path \<and> e_at e = at \<and> e_type e = rev_type page \<and> e_sig e \<noteq> []"

lemma glob_literal_ne: "t \<noteq> [] \<Longrightarrow> glob_literal t \<noteq> []"
  by (cases t) (auto simp: glob_literal_Cons)

lemma group_entries_ok:
  assumes "\<And>s c. (s, c) \<in> set members \<Longrightarrow> s \<noteq> []"
  shows "e \<in> set (group_entries at ((page, path, base), members)) \<Longrightarrow> entry_ok at page path e"
proof -
  have ne: "g \<noteq> []" if "combine_bits base w p = Some gs" "g \<in> set gs" for g gs w p
    using that by (auto simp: combine_bits_def Let_def bit_globs_def group_glob_def split: if_splits)
  show "e \<in> set (group_entries at ((page, path, base), members)) \<Longrightarrow> ?thesis"
    using assms
    by (auto simp: group_entries_def Let_def entry_ok_def mk_entry_def glob_literal_ne
        split: option.splits if_splits dest: ne)
qed

lemma fnmatch_literal: "plain_glob t \<Longrightarrow> fnmatch n (glob_literal t) \<longleftrightarrow> n = t"
  by (rule glob.gm_literal_all)

text \<open>The bits of a signal that no instance hit, by index and by name.\<close>

definition unhit_bits :: "str \<Rightarrow> (str \<times> int) list \<Rightarrow> nat list" where
  "unhit_bits base members =
     map (\<lambda>(sg, cnt). the (bit_index base sg)) (filter (\<lambda>(sg, cnt). bit_index base sg \<noteq> None \<and> cnt = 0) members)"

lemma unhit_bit_names:
  assumes "\<And>s c. (s, c) \<in> set members \<Longrightarrow> clean_sig s \<and> sig_base s = base"
  shows "(\<exists>b \<in> set (unhit_bits base members). sg = bit_name base b) \<longleftrightarrow> (sg, 0) \<in> set members \<and> bit_index base sg \<noteq> None"
proof
  assume "\<exists>b \<in> set (unhit_bits base members). sg = bit_name base b"
  then obtain s b where s: "(s, 0) \<in> set members" "bit_index base s = Some b" "sg = bit_name base b"
    by (auto simp: unhit_bits_def)
  with assms [OF s(1)] clean_index [of s] have "s = sg" by auto
  with s show "(sg, 0) \<in> set members \<and> bit_index base sg \<noteq> None" by simp
next
  assume a: "(sg, 0) \<in> set members \<and> bit_index base sg \<noteq> None"
  then obtain n where n: "bit_index base sg = Some n" by blast
  with a assms [of sg 0] clean_index [of sg] have "sg = bit_name base n" by auto
  moreover have "n \<in> set (unhit_bits base members)" using a n by (force simp: unhit_bits_def)
  ultimately show "\<exists>b \<in> set (unhit_bits base members). sg = bit_name base b" by blast
qed

lemma group_entries_select:
  assumes "\<And>s c. (s, c) \<in> set members \<Longrightarrow> clean_sig s \<and> sig_base s = base"
  shows "(\<exists>e \<in> set (group_entries at ((page, path, base), members)). fnmatch sg (e_sig e)) \<longleftrightarrow>
    (sg, 0) \<in> set members"
proof -
  define present where "present = map (\<lambda>(sg, cnt). the (bit_index base sg))
    (filter (\<lambda>(sg, cnt). bit_index base sg \<noteq> None) members)"
  define want where "want = unhit_bits base members"
  define plain where "plain = map fst (filter (\<lambda>(sg, cnt). bit_index base sg = None \<and> cnt = (0 :: int)) members)"
  have sub: "set (sort want) \<subseteq> set (sort present)"
    by (auto simp: want_def unhit_bits_def present_def)
  have mem_plain: "s \<in> set plain \<longleftrightarrow> (s, 0) \<in> set members \<and> bit_index base s = None" for s
    by (auto simp: plain_def intro!: image_eqI [where x = "(s, 0)"])
  have plain_sel: "(\<exists>s \<in> set plain. fnmatch sg (glob_literal s)) \<longleftrightarrow> (\<exists>s \<in> set plain. sg = s)"
    using assms fnmatch_literal unfolding mem_plain Bex_def clean_sig_def by blast
  have mem_want: "(\<exists>b \<in> set want. sg = bit_name base b) \<longleftrightarrow> (sg, 0) \<in> set members \<and> bit_index base sg \<noteq> None"
    unfolding want_def by (rule unhit_bit_names) (rule assms)
  have want_sel: "want \<noteq> [] \<Longrightarrow> \<exists>gs. combine_bits base (sort want) (sort present) = Some gs \<and>
      ((\<exists>g \<in> set gs. fnmatch sg g) \<longleftrightarrow> (\<exists>b \<in> set want. sg = bit_name base b))"
  proof -
    assume "want \<noteq> []"
    then obtain s c where "(s, c) \<in> set members" by (auto simp: want_def unhit_bits_def filter_empty_conv)
    with assms clean_base have "plain_glob base" by metis
    from combine_bits_spec [OF this sub] show ?thesis by simp
  qed
  have eq: "group_entries at ((page, path, base), members) =
      map (\<lambda>sg. mk_entry at page path (glob_literal sg) None) (sort plain) @
      (let globs = (case combine_bits base (sort want) (sort present) of
                       Some gs \<Rightarrow> gs
                     | None \<Rightarrow> map (\<lambda>b. glob_literal base @ ''[[]'' @ nat_str b @ '']'') (sort want))
       in if want = [] then []
          else map (\<lambda>gl. mk_entry at page path gl (Some (length want, length globs))) globs)"
    unfolding group_entries_def prod.case Let_def want_def unhit_bits_def present_def plain_def ..
  have sig: "e_sig (mk_entry at page path g f) = g" for g f
    by (simp add: mk_entry_def)
  show ?thesis
  proof (cases "want = []")
    case True
    have "(\<exists>e \<in> set (group_entries at ((page, path, base), members)). fnmatch sg (e_sig e)) \<longleftrightarrow>
        (\<exists>s \<in> set plain. fnmatch sg (glob_literal s))"
      unfolding eq by (simp add: True sig)
    with plain_sel mem_plain mem_want True show ?thesis by auto
  next
    case False
    with want_sel obtain gs where gs: "combine_bits base (sort want) (sort present) = Some gs"
      "(\<exists>g \<in> set gs. fnmatch sg g) \<longleftrightarrow> (\<exists>b \<in> set want. sg = bit_name base b)" by blast
    have "(\<exists>e \<in> set (group_entries at ((page, path, base), members)). fnmatch sg (e_sig e)) \<longleftrightarrow>
        (\<exists>s \<in> set plain. fnmatch sg (glob_literal s)) \<or> (\<exists>g \<in> set gs. fnmatch sg g)"
      unfolding eq by (simp add: False sig gs(1) bex_Un)
    with plain_sel mem_plain mem_want gs(2) show ?thesis by auto
  qed
qed

lemma entry_waiver_covers:
  assumes "entry_ok at page path e" and "known_page page" and "basename path \<noteq> []"
    and "why \<noteq> []" and "\<not> contains why placeholder" and "parse_locator rxc wh at = Inr loc"
  shows "(\<exists>w. entry_waiver rxc why wh e = Some w \<and> covers fs w P n pg sg) \<longleftrightarrow>
    basename P = basename path \<and> pg = page \<and> at_matches fs loc P n \<and> fnmatch sg (e_sig e)"
proof -
  have keys: "filter (\<lambda>k. k \<notin> waiver_keys) [''file'', ''at'', ''type'', ''sig'', ''why''] = []"
    by (simp add: waiver_keys_def)
  have ty: "type_list (JStr (rev_type page)) = [rev_type page]"
    using rev_type_known [OF assms(2)] by (simp add: type_list_def split_char_no_sep)
  have "entry_waiver rxc why wh e = Some \<lparr>w_file = JStr (basename path), w_at = loc, w_pages = {page},
      w_sig = Some (e_sig e), w_reason = why, w_src = wh, w_hits = 0\<rparr>"
    using assms keys ty rev_type_known [OF assms(2)]
    by (simp add: entry_waiver_def build_waiver_def entry_json_def entry_ok_def Let_def)
  then show ?thesis
    using assms(1) by (auto simp: covers_def entry_ok_def)
qed

lemma gather_distinct: "gather hint line kind records = Inr hits \<Longrightarrow> distinct (map fst hits)"
  unfolding gather_def
  by (erule fold_res_inv [where Q = "\<lambda>h. distinct (map fst h)", rotated -1])
     (auto split: if_splits option.splits prod.splits simp: hit_step_def distinct_update)

lemma by_base_mem:
  "(k, ms) \<in> set (by_base hits) \<longleftrightarrow> ms = map hit_member (filter (\<lambda>h. hit_group h = k) hits) \<and> ms \<noteq> []"
  unfolding by_base_def set_sort group_by_mem_iff ..

lemma locator_of_at:
  assumes "py_int line = Some n"
    and "anchor = None \<or> (\<exists>a want. anchor = Some a \<and> src_anchor fs path n want = Some a)"
  shows "\<exists>loc. parse_locator rxc wh (case anchor of Some a \<Rightarrow> ''/'' @ a @ ''/'' | None \<Rightarrow> line) = Inr loc \<and>
    at_matches fs loc path n"
proof (cases anchor)
  case None
  with assms(1) py_int_no_slash [OF assms(1)] show ?thesis
    by (simp add: parse_locator_def at_matches_def)
next
  case (Some a)
  with assms(2) obtain want where a: "src_anchor fs path n want = Some a" by auto
  obtain cand where r: "1 \<le> n" "n \<le> int (length (read_lines fs path))"
    "contains (read_lines fs path ! (nat n - 1)) a" "a \<noteq> []"
    using src_anchor_cases [OF a] by metis
  then have "parse_locator rxc wh (''/'' @ a @ ''/'') = Inr (AtText a)"
    by (simp add: parse_locator_def endswith_iff)
  with r Some show ?thesis by (simp add: at_matches_def line_of_def)
qed

text \<open>The hits of one file, on known pages and under clean names.\<close>

definition hits_in :: "str \<Rightarrow> hit list \<Rightarrow> bool" where
  "hits_in P hits \<longleftrightarrow> (\<forall>((page, path, sg), c) \<in> set hits. path = P \<and> known_page page \<and> clean_sig sg)"

lemma group_entries_cover:
  assumes "g \<in> set (by_base hits)" and "hits_in P hits" and "basename P \<noteq> []" and "why \<noteq> []" and "\<not> contains why placeholder"
    and "parse_locator rxc wh at = Inr loc" and "at_matches fs loc P n"
  shows "(\<exists>e \<in> set (group_entries at g). \<exists>w. entry_waiver rxc why wh e = Some w \<and> covers fs w P n page sg) \<longleftrightarrow>
    fst (fst g) = page \<and> (sg, 0) \<in> set (snd g)"
proof -
  obtain page' path' base ms where g: "g = ((page', path', base), ms)" by (metis prod.exhaust)
  have ms: "ms = map hit_member (filter (\<lambda>h. hit_group h = (page', path', base)) hits)" "ms \<noteq> []"
    using assms(1) unfolding g by_base_mem by auto
  have mem: "clean_sig s \<and> sig_base s = base \<and> path' = P \<and> known_page page'" if "(s, x) \<in> set ms" for s x
    using that assms(2) unfolding ms(1) hits_in_def by fastforce
  then have kn: "path' = P" "known_page page'" using ms(2) by (cases ms; fastforce)+
  have cl: "clean_sig s \<and> sig_base s = base" if "(s, x) \<in> set ms" for s x using mem that by blast
  have ok: "entry_ok at page' P e" if "e \<in> set (group_entries at g)" for e
    using that cl unfolding g kn(1) by (intro group_entries_ok) (auto simp: clean_sig_def)
  have "(\<exists>e \<in> set (group_entries at g). \<exists>w. entry_waiver rxc why wh e = Some w \<and> covers fs w P n page sg) \<longleftrightarrow>
      page' = page \<and> (\<exists>e \<in> set (group_entries at g). fnmatch sg (e_sig e))"
    using entry_waiver_covers [OF ok kn(2) assms(3-6), where fs = fs] assms(7) by auto
  also have "(\<exists>e \<in> set (group_entries at g). fnmatch sg (e_sig e)) \<longleftrightarrow> (sg, 0) \<in> set ms"
    unfolding g by (rule group_entries_select) (rule cl)
  finally show ?thesis by (simp add: g)
qed

lemma by_base_unhit:
  assumes "hits_in P hits"
  shows "(\<exists>g \<in> set (by_base hits). fst (fst g) = page \<and> (sg, 0) \<in> set (snd g)) \<longleftrightarrow> ((page, P, sg), 0) \<in> set hits"
proof
  assume "\<exists>g \<in> set (by_base hits). fst (fst g) = page \<and> (sg, 0) \<in> set (snd g)"
  then obtain path' base ms where "((page, path', base), ms) \<in> set (by_base hits)" "(sg, 0) \<in> set ms"
    by (metis prod.collapse)
  then have "((page, path', sg), 0) \<in> set hits" by (auto simp: by_base_mem)
  with assms show "((page, P, sg), 0) \<in> set hits" by (fastforce simp: hits_in_def)
next
  assume h: "((page, P, sg), 0) \<in> set hits"
  define ms where "ms = map hit_member (filter (\<lambda>h. hit_group h = (page, P, sig_base sg)) hits)"
  have "(sg, 0) \<in> set ms" using h unfolding ms_def by force
  moreover from this have "ms \<noteq> []" by auto
  then have "((page, P, sig_base sg), ms) \<in> set (by_base hits)"
    unfolding by_base_mem ms_def by (intro conjI refl)
  ultimately show "\<exists>g \<in> set (by_base hits). fst (fst g) = page \<and> (sg, 0) \<in> set (snd g)" by force
qed

text \<open>The entries come from the groups, under a locator that loads and selects the line.\<close>

lemma suggested_entries:
  assumes "suggest_entries fs records hint line kind = Inr (es, skipped, uniq)"
    and "gather hint line kind records = Inr hits" and "py_int line = Some n" and "hits_in P hits"
    and "filter (\<lambda>h. snd h = 0) hits \<noteq> []"
  shows "\<exists>at loc. es = concat (map (group_entries at) (by_base hits)) \<and> parse_locator rxc wh at = Inr loc \<and> at_matches fs loc P n"
proof -
  let ?live = "filter (\<lambda>h. snd h = 0) hits"
  obtain page0 path0 sg0 where l0: "fst (hd ?live) = (page0, path0, sg0)" by (metis prod_cases3)
  have "hd ?live \<in> set hits" using assms(5) hd_in_set [of ?live] by simp
  with l0 assms(4) have path: "path0 = P" by (fastforce simp: hits_in_def)
  define anchor where "anchor = src_anchor fs P n (before ''['' sg0)"
  define at where "at = (case anchor of Some a \<Rightarrow> ''/'' @ a @ ''/'' | None \<Rightarrow> line)"
  have "hits \<noteq> []" using assms(5) by auto
  then have "es = concat (map (group_entries at) (by_base hits))"
    using assms(1,2,3,5) l0 path unfolding at_def anchor_def
    by (auto simp: suggest_entries_def Let_def split: if_splits)
  moreover obtain loc where "parse_locator rxc wh at = Inr loc" "at_matches fs loc P n"
    using locator_of_at [OF assms(3), of anchor fs P rxc wh] unfolding anchor_def at_def
    by (cases "src_anchor fs P n (before ''['' sg0)") auto
  ultimately show ?thesis by blast
qed

lemma suggest_entries_select:
  assumes "suggest_entries fs records hint line kind = Inr (es, skipped, uniq)"
    and "gather hint line kind records = Inr hits" and "py_int line = Some n"
    and "\<forall>((page, path, sg), c) \<in> set hits. path = P \<and> known_page page \<and> clean_sig sg"
    and "basename P \<noteq> []" and "why \<noteq> []" and "\<not> contains why placeholder"
    and "((page, P, sg), c) \<in> set hits"
  shows "(\<exists>e \<in> set es. \<exists>w. entry_waiver rxc why wh e = Some w \<and> covers fs w P n page sg) \<longleftrightarrow> c = 0"
proof (cases "filter (\<lambda>h. snd h = 0) hits = []")
  case True
  then have "es = []" "c \<noteq> 0"
    using assms(1,2,8) by (auto simp: suggest_entries_def Let_def filter_empty_conv split: if_splits)
  then show ?thesis by simp
next
  case False
  have hits: "hits_in P hits" using assms(4) by (simp add: hits_in_def)
  from suggested_entries [OF assms(1-3) hits False, of rxc wh] obtain at loc
    where es: "es = concat (map (group_entries at) (by_base hits))" and loc: "parse_locator rxc wh at = Inr loc" "at_matches fs loc P n"
    by blast
  have "(\<exists>e \<in> set es. \<exists>w. entry_waiver rxc why wh e = Some w \<and> covers fs w P n page sg) \<longleftrightarrow>
      (\<exists>g \<in> set (by_base hits). fst (fst g) = page \<and> (sg, 0) \<in> set (snd g))"
    unfolding es using group_entries_cover [OF _ hits assms(5-7) loc] by simp
  also have "\<dots> \<longleftrightarrow> ((page, P, sg), 0) \<in> set hits" by (rule by_base_unhit [OF hits])
  also have "\<dots> \<longleftrightarrow> c = 0"
    using assms(8) gather_distinct [OF assms(2)] by (auto dest: eq_key_imp_eq_value)
  finally show ?thesis .
qed

text \<open>
  C1. The generator is exact. When the points found at a location lie in one file, on known
  pages and under signal names as Verilator writes them, the waivers loaded from the suggested
  entries (with any reason filled in) cover a point there if and only if no instance has hit
  it: a covered point is never waived, and an uncovered one never left out.
\<close>

theorem suggest_entries_exact:
  assumes "suggest_entries fs records hint line kind = Inr (es, skipped, uniq)"
    and "gather hint line kind records = Inr hits" and "py_int line = Some n"
    and "\<forall>((page, path, sg), c) \<in> set hits. path = P \<and> known_page page \<and> clean_sig sg"
    and "basename P \<noteq> []" and "why \<noteq> []" and "\<not> contains why placeholder"
    and "((page, P, sg), c) \<in> set hits"
  shows "(\<exists>e \<in> set es. \<exists>w. entry_waiver rxc why wh e = Some w \<and> covers fs w P n page sg) \<longleftrightarrow> c = 0"
  using assms by (rule suggest_entries_select)

definition sample_records :: "rec5 list" where
  "sample_records = [(''v_toggle'', ''rtl/t.v'', 2, ''q[0]'', 0), (''v_toggle'', ''rtl/t.v'', 2, ''q[1]'', 5),
     (''v_toggle'', ''rtl/t.v'', 2, ''q[2]'', 0)]"

definition sample_entry :: entry where
  "sample_entry = mk_entry ''/assign q = a/'' ''v_toggle'' ''rtl/t.v'' ''q[[][02]]'' (Some (2, 1))"

lemma sample_suggestion: "suggest_entries sample_rtl sample_records ''t.v'' ''2'' None = Inr ([sample_entry], 1, True)"
  by code_simp

theorem suggest_entries_exact_witness:
  "(\<exists>w. entry_waiver (\<lambda>p. None) ''tied'' (''w.md'', 1) sample_entry = Some w \<and>
     covers sample_rtl w ''rtl/t.v'' 2 ''v_toggle'' ''q[2]'') \<and>
   \<not> (\<exists>w. entry_waiver (\<lambda>p. None) ''tied'' (''w.md'', 1) sample_entry = Some w \<and>
     covers sample_rtl w ''rtl/t.v'' 2 ''v_toggle'' ''q[1]'')"
proof -
  let ?hits = "[((''v_toggle'', ''rtl/t.v'', ''q[0]''), 0), ((''v_toggle'', ''rtl/t.v'', ''q[1]''), 5),
      ((''v_toggle'', ''rtl/t.v'', ''q[2]''), 0)] :: hit list"
  have g: "gather ''t.v'' ''2'' None sample_records = Inr ?hits" by code_simp
  have n: "py_int ''2'' = Some 2" "\<not> contains ''tied'' placeholder" by code_simp+
  have b: "basename ''rtl/t.v'' \<noteq> []" by code_simp
  have ds: "bit_split ''q[0]'' = Some (''q'', nat_str 0)" "bit_split ''q[1]'' = Some (''q'', nat_str 1)"
    "bit_split ''q[2]'' = Some (''q'', nat_str 2)" by code_simp+
  have h: "\<forall>((page, path, sg), c) \<in> set ?hits. path = ''rtl/t.v'' \<and> known_page page \<and> clean_sig sg"
    using ds by (auto simp: known_page_def waiver_types_def clean_sig_def plain_glob_def)
  note exact = suggest_entries_exact [OF sample_suggestion g n(1) h b _ n(2), where rxc = "\<lambda>p. None" and wh = "(''w.md'', 1)"]
  show ?thesis
    using exact [of "''v_toggle''" "''q[2]''" 0] exact [of "''v_toggle''" "''q[1]''" 5] by simp
qed

definition sample_points :: points where
  "sample_points = [(''l'' @ [CHR 0x02] @ ''2'' @ [CHR 0x01] @ ''o'' @ [CHR 0x02] @ ''q'', ''v_toggle'', ''rtl/t.v'', 0)]"

definition sample_set :: waivers where
  "sample_set = \<lparr>items = [sample_waiver ''assign'' (Some ''q''), sample_waiver ''wire'' None], errors = [], srccache = []\<rparr>"

theorem lint_clean_iff_witness: "\<exists>out bad. lint sample_rtl sample_set sample_points = Inr (out, bad) \<and> bad \<noteq> 0"
proof -
  have a: "lint_points sample_points = Inr [((''rtl/t.v'', 2, ''v_toggle'', ''q''), 0)]" by code_simp
  then obtain out bad where l: "lint sample_rtl sample_set sample_points = Inr (out, bad)"
    by (simp add: lint_def Let_def)
  have c: "cache_ok sample_rtl (srccache sample_set)" by (simp add: sample_set_def)
  have "sample_waiver ''wire'' None \<in> set (items sample_set)" by (simp add: sample_set_def)
  moreover have "\<not> covers sample_rtl (sample_waiver ''wire'' None) ''rtl/t.v'' 2 ''v_toggle'' ''q''" by code_simp
  ultimately have "bad \<noteq> 0" using lint_clean_iff [OF c a l] by auto
  with l show ?thesis by blast
qed

text \<open>
  C27. A suggested entry survives printing: the JSON line that \<open>--suggest\<close> prints is read back
  as the same entry, and the loader refuses it, with the placeholder message and no waiver,
  until its reason has been edited.
\<close>

theorem suggested_line_rejected_as_is:
  assumes "suggest_entries fs records hint line kind = Inr (es, skipped, uniq)"
    and "e \<in> set es" and "e_file e \<noteq> []"
  shows "json_loads (hd (entry_lines e)) = Some (entry_json e) \<and>
    build_waiver rxc wh (entry_json e) = ([StillPlaceholder wh], None)"
proof
  have "json_plain (entry_json e)" by (simp add: entry_json_def)
  then show "json_loads (hd (entry_lines e)) = Some (entry_json e)"
    by (simp add: entry_lines_def json_loads_dumps)
  have mk: "e_why (mk_entry at page path sg f) = stub_reason" for at page path sg f
    by (simp add: mk_entry_def)
  obtain hits at where "es = [] \<or> es = concat (map (group_entries at) (by_base hits))"
    using assms(1) by (auto simp: suggest_entries_def bind_res_Inr_iff Let_def split: if_splits prod.splits)
  with assms(2) obtain g where "e \<in> set (group_entries at g)" by (auto simp del: split_paired_Ex)
  then have "e_why e = stub_reason"
    by (auto simp: group_entries_def Let_def mk split: prod.splits option.splits if_splits)
  moreover have "contains stub_reason placeholder" "stub_reason \<noteq> []" by code_simp+
  ultimately show "build_waiver rxc wh (entry_json e) = ([StillPlaceholder wh], None)"
    using assms(3) by (simp add: build_waiver_def entry_json_def waiver_keys_def)
qed

theorem suggested_line_rejected_as_is_witness:
  "json_loads (hd (entry_lines sample_entry)) = Some (entry_json sample_entry) \<and>
    build_waiver (\<lambda>p. None) (''w.md'', 1) (entry_json sample_entry) = ([StillPlaceholder (''w.md'', 1)], None)"
  by (rule suggested_line_rejected_as_is [OF sample_suggestion]) (simp, code_simp)

end
