(* ===== verification/CovReport.thy ===== *)
theory CovReport
  imports WaiverSuggest Complex_Main
begin

text \<open>
  \<open>cov_report.py\<close>: reading Verilator's coverage databases, folding the two directions of a toggle
  and naming points by column, accumulating instances into source locations, applying the
  waivers, and the report. The databases are the texts of the files \<open>glob\<close> finds, in its order;
  the report is a record of what the tables print, with every percentage as its pair of numbers
  (hit, found). A point key holds no newline, since it is part of one line of a database.
\<close>

definition pages :: "str list" where
  "pages = [''v_line'', ''v_branch'', ''v_toggle'']"

subsection \<open>Reading the databases\<close>

abbreviation x01 :: char where "x01 \<equiv> CHR 0x01"
abbreviation x02 :: char where "x02 \<equiv> CHR 0x02"

type_synonym pval = "str \<times> str \<times> int"

text \<open>One line: the key, page, path and count of a point under one of the wanted paths.\<close>

definition parse_line :: "str list \<Rightarrow> str \<Rightarrow> (str \<times> pval) option" where
  "parse_line pats l =
     (if \<not> startswith l (''C '' @ [CHR 0x27]) then None
      else
        (let (key, _, cnt) = rpartition_str (CHR 0x27 # '' '') (drop 3 l)
         in case py_int cnt of
              None \<Rightarrow> None
            | Some c \<Rightarrow>
                (let d = key_fields key; path = get_or ''f'' [] d
                 in if \<not> (\<exists>pat \<in> set pats. contains path pat) then None
                    else Some (key, before ''/'' (get_or ''page'' [] d), path, c))))"

definition add_point :: "str \<times> pval \<Rightarrow> points \<Rightarrow> points" where
  "add_point p pts =
     (case p of (key, page, path, c) \<Rightarrow>
        AList.update key
          (page, path, case map_of pts key of None \<Rightarrow> c | Some (pg, pa, c0) \<Rightarrow> max c0 c) pts)"

definition parse_raw :: "str list \<Rightarrow> str list \<Rightarrow> points" where
  "parse_raw pats dats = fold add_point (List.map_filter (parse_line pats) (concat (map file_lines dats))) []"

text \<open>\<open>_DIR.sub('', key)\<close>: the pattern \<open>:(?:0->1|1->0)(?=\x01|$)\<close> matches at the end of a field.\<close>

definition strip_dir :: "str \<Rightarrow> str" where
  "strip_dir f = (if endswith f '':0->1'' \<or> endswith f '':1->0'' then take (length f - 5) f else f)"

definition base_key :: "str \<Rightarrow> str" where
  "base_key key = join [x01] (map strip_dir (split_char x01 key))"

definition fold_dir :: "str \<times> pval \<Rightarrow> points \<Rightarrow> points" where
  "fold_dir p pts =
     (case p of (key, page, path, c) \<Rightarrow>
        if base_key key = key then AList.update key (page, path, c) pts
        else AList.update (base_key key)
               (page, path, case map_of pts (base_key key) of None \<Rightarrow> c | Some (pg, pa, c0) \<Rightarrow> min c0 c) pts)"

definition fold_dirs :: "points \<Rightarrow> points" where
  "fold_dirs pts = fold fold_dir pts []"

text \<open>The columns \<open>n\<close> seen under one (path, line, label); absent fields are Python's \<open>None\<close>.\<close>

type_synonym label = "str \<times> str option \<times> str option"

definition label_of :: "str \<Rightarrow> str \<Rightarrow> label" where
  "label_of key path = (path, map_of (key_fields key) ''l'', map_of (key_fields key) ''o'')"

definition has_column :: "str \<Rightarrow> bool" where
  "has_column page \<longleftrightarrow> page = ''v_line'' \<or> page = ''v_branch''"

definition columns :: "points \<Rightarrow> label \<Rightarrow> str option list" where
  "columns pts lb =
     remdups (map (\<lambda>(key, v). map_of (key_fields key) ''n'')
       (filter (\<lambda>(key, page, path, c). has_column page \<and> label_of key path = lb) pts))"

definition none_str :: "str option \<Rightarrow> str" where
  "none_str v = (case v of None \<Rightarrow> ''None'' | Some s \<Rightarrow> s)"

definition column_key :: "str \<Rightarrow> str" where
  "column_key key =
     (let d = key_fields key; o' = none_str (map_of d ''o''); n = none_str (map_of d ''n'');
          old = [x01] @ ''o'' @ [x02] @ o' @ [x01]
      in if contains key old then replace_once old ([x01] @ ''o'' @ [x02] @ o' @ ''@'' @ n @ [x01]) key
         else key @ ''@'' @ n)"

definition name_columns :: "points \<Rightarrow> points" where
  "name_columns pts =
     fold (\<lambda>(key, page, path, c) out.
       AList.update
         (if has_column page \<and> 1 < length (columns pts (label_of key path)) then column_key key else key)
         (page, path, c) out) pts []"

definition parse :: "str list \<Rightarrow> str list \<Rightarrow> points" where
  "parse pats dats = name_columns (fold_dirs (parse_raw pats dats))"

subsection \<open>The report\<close>

text \<open>A key of \<open>main\<close>: the raw database key, or (path, line, page, label, column).\<close>

datatype pkey = Raw str | Loc str str str str str

type_synonym rpoints = "(pkey \<times> pval) list"

definition accumulate :: "points \<Rightarrow> rpoints" where
  "accumulate pts =
     fold (\<lambda>(key, page, path, c) acc.
       let d = key_fields key;
           k = Loc path (get_or ''l'' [] d) page (get_or ''o'' [] d) (get_or ''n'' [] d)
       in AList.update k
            (page, path, case map_of acc k of None \<Rightarrow> c | Some (pg, pa, c0) \<Rightarrow> max c0 c) acc) pts []"

definition raw_points :: "points \<Rightarrow> rpoints" where
  "raw_points pts = map (\<lambda>(key, v). (Raw key, v)) pts"

definition py_int_res :: "str \<Rightarrow> int res" where
  "py_int_res t = (case py_int t of None \<Rightarrow> Inl (ValueError t) | Some i \<Rightarrow> Inr i)"

text \<open>The line and the label of a key, as the waiver loop reads them: the first field that fits.\<close>

definition first_field :: "str \<Rightarrow> str \<Rightarrow> str option" where
  "first_field tag key =
     map_option (drop (length tag)) (List.find (\<lambda>f. startswith f tag) (split_char x01 key))"

fun key_line :: "pkey \<Rightarrow> int res" where
  "key_line (Loc path l page o' n) = int_or_0 l"
| "key_line (Raw key) = (case first_field (''l'' @ [x02]) key of None \<Rightarrow> Inr 0 | Some t \<Rightarrow> py_int_res t)"

fun key_sig :: "pkey \<Rightarrow> str" where
  "key_sig (Loc path l page o' n) = o'"
| "key_sig (Raw key) = (case first_field (''o'' @ [x02]) key of None \<Rightarrow> [] | Some t \<Rightarrow> t)"

text \<open>The waiver loop: the kept points, the waived count per file, and the waiver set with its hits.\<close>

type_synonym wstate = "rpoints \<times> (str \<times> nat) list \<times> waivers"

definition waive_step :: "(str \<Rightarrow> str option) \<Rightarrow> pkey \<times> pval \<Rightarrow> wstate \<Rightarrow> wstate res" where
  "waive_step fs p st =
     (case p of (k, page, path, c) \<Rightarrow> case st of (kept, waived, wv) \<Rightarrow>
        bind_res (key_line k) (\<lambda>line.
          (case match fs path line page (key_sig k) wv of
             (Some w, wv1) \<Rightarrow> Inr (kept, bump (basename path) waived, wv1)
           | (None, wv1) \<Rightarrow> Inr (kept @ [(k, page, path, c)], waived, wv1))))"

definition waive_all :: "(str \<Rightarrow> str option) \<Rightarrow> waivers \<Rightarrow> rpoints \<Rightarrow> wstate res" where
  "waive_all fs wv pts = fold_res (waive_step fs) pts ([], [], wv)"

text \<open>Per file and page: [hit, found].\<close>

definition count_page :: "str \<Rightarrow> rpoints \<Rightarrow> nat \<times> nat" where
  "count_page page pts =
     (let here = filter (\<lambda>(k, pg, path, c). pg = page) pts
      in (length (filter (\<lambda>(k, pg, path, c). 0 < c) here), length here))"

definition of_file :: "str \<Rightarrow> rpoints \<Rightarrow> rpoints" where
  "of_file name pts = filter (\<lambda>(k, pg, path, c). basename path = name) pts"

definition file_names :: "rpoints \<Rightarrow> str list" where
  "file_names pts = remdups (map (\<lambda>(k, pg, path, c). basename path) pts)"

type_synonym row = "rat \<times> str \<times> (nat \<times> nat) list"

definition line_rate :: "nat \<times> nat \<Rightarrow> rat" where
  "line_rate hf = (if snd hf = 0 then 100 else 100 * of_nat (fst hf) / of_nat (snd hf))"

definition rows :: "rpoints \<Rightarrow> row list" where
  "rows pts =
     sort_key (\<lambda>(rate, name, cells). (rate, name))
       (map (\<lambda>name. (line_rate (count_page ''v_line'' (of_file name pts)), name,
                     map (\<lambda>page. count_page page (of_file name pts)) pages)) (file_names pts))"

definition total_of :: "str \<Rightarrow> rpoints \<Rightarrow> nat \<times> nat" where
  "total_of page pts =
     fold (\<lambda>name (h, f). let (a, b) = count_page page (of_file name pts) in (h + a, f + b))
       (file_names pts) (0, 0)"

definition total_cell :: "nat \<times> nat \<Rightarrow> (nat \<times> nat) res" where
  "total_cell hf = (if snd hf = 0 then Inl ZeroDivisionError else Inr hf)"

definition totals :: "rpoints \<Rightarrow> (nat \<times> nat) list res" where
  "totals pts = map_res (\<lambda>page. total_cell (total_of page pts)) pages"

text \<open>The list of uncovered locations; for a raw key the last \<open>l\<close> field counts here.\<close>

fun loc_line :: "pkey \<Rightarrow> int res" where
  "loc_line (Loc path l page o' n) = int_or_0 l"
| "loc_line (Raw key) =
     fold_res (\<lambda>f line. if startswith f (''l'' @ [x02]) then py_int_res (drop 2 f) else Inr line)
       (split_char x01 key) 0"

type_synonym lockey = "str \<times> int \<times> str \<times> str"

definition loc_step :: "pkey \<times> pval \<Rightarrow> (lockey \<times> int) list \<Rightarrow> (lockey \<times> int) list res" where
  "loc_step p loc =
     (case p of (k, page, path, c) \<Rightarrow>
        if page = ''v_toggle'' then Inr loc
        else bind_res (loc_line k) (\<lambda>line.
          let q = (basename path, line, page, key_sig k)
          in Inr (AList.update q (max (case map_of loc q of None \<Rightarrow> 0 | Some m \<Rightarrow> m) c) loc)))"

definition missing :: "rpoints \<Rightarrow> lockey list res" where
  "missing pts =
     bind_res (fold_res loc_step pts [])
       (\<lambda>loc. Inr (sort (map fst (filter (\<lambda>(q, m). m = 0) loc))))"

record report =
  r_warning :: "(str list \<times> bool) option"
  r_rows :: "row list"
  r_totals :: "(nat \<times> nat) list"
  r_missing :: "lockey list"
  r_waived :: "(str \<times> nat) list"
  r_stale :: "waiver list"

datatype outcome = WaiverErrors "werror list" | NoPoints | Report report

text \<open>The exit status of \<open>main\<close> for each way it can end.\<close>

fun status :: "outcome \<Rightarrow> nat" where
  "status (WaiverErrors es) = 1"
| "status NoPoints = 1"
| "status (Report r) = 0"

definition main_report ::
    "(str \<Rightarrow> str option) \<Rightarrow> (str \<Rightarrow> nat option) \<Rightarrow> str list \<Rightarrow> waivers \<Rightarrow> rpoints \<Rightarrow> outcome res" where
  "main_report fs mtime datfiles wv pts =
     bind_res (waive_all fs wv pts) (\<lambda>(kept, waived, wv1).
       if kept = [] then Inl StopIteration
       else
         (let warn = check_fresh mtime datfiles (remdups (map (\<lambda>(k, pg, path, c). path) kept))
          in bind_res (totals kept) (\<lambda>tot.
             bind_res (missing kept) (\<lambda>miss.
               Inr (Report \<lparr>r_warning = warn, r_rows = rows kept, r_totals = tot, r_missing = miss,
                      r_waived = sort_key fst waived, r_stale = stale wv1\<rparr>)))))"

definition main ::
    "(str \<Rightarrow> rx option) \<Rightarrow> (str \<Rightarrow> str option) \<Rightarrow> (str \<Rightarrow> nat option) \<Rightarrow> str list \<Rightarrow> str list \<Rightarrow>
     bool \<Rightarrow> str option \<Rightarrow> str list \<Rightarrow> outcome res" where
  "main rxc fs mtime datfiles dats per_instance waiver_path pats =
     (let pts = parse pats dats; wv = load_waivers rxc fs waiver_path;
          rpts = (if per_instance then raw_points pts else accumulate pts)
      in if errors wv \<noteq> [] then Inr (WaiverErrors (errors wv))
         else if rpts = [] then Inr NoPoints
         else main_report fs mtime datfiles wv rpts)"

subsection \<open>The command line\<close>

text \<open>
  What a command line asks for; \<open>args\<close> is \<open>sys.argv\<close> without the program's name. The waiver
  path of \<open>DoMain\<close> is \<open>None\<close> when it is the default one.
\<close>

datatype action =
    DoSuggest str "str list" str str "str option"
  | DoLint str "str list"
  | DoMain str bool "str option" "str list"

definition nth_arg :: "str list \<Rightarrow> nat \<Rightarrow> str res" where
  "nth_arg args i = (if i < length args then Inr (args ! i) else Inl IndexError)"

definition index_of :: "str \<Rightarrow> str list \<Rightarrow> nat" where
  "index_of a args = length (takeWhile (\<lambda>x. x \<noteq> a) args)"

definition rtl_args :: "str list \<Rightarrow> str list res" where
  "rtl_args args =
     map_res (\<lambda>i. nth_arg args (i + 1)) (filter (\<lambda>i. args ! i = ''--rtl'') [0..<length args])"

definition first_arg :: "str list \<Rightarrow> str" where
  "first_arg argv = (case argv of [] \<Rightarrow> ''dats'' | a # as \<Rightarrow> a)"

definition cli :: "str list \<Rightarrow> action res" where
  "cli args =
     bind_res (rtl_args args) (\<lambda>pats.
       let argv0 = filter (\<lambda>a. a \<noteq> ''--per-instance'') args;
           argv = (if pats = [] then argv0 else filter (\<lambda>a. a \<noteq> ''--rtl'' \<and> a \<notin> set pats) argv0);
           rtl_pats = (if pats = [] then [''/rtl/verilog/''] else pats)
       in if ''--suggest'' \<in> set args then
            (let i = index_of ''--suggest'' args
             in bind_res (nth_arg args (i + 1)) (\<lambda>spec.
                  let kind = (if i + 2 < length args \<and> \<not> startswith (args ! (i + 2)) ''-''
                              then Some (args ! (i + 2)) else None);
                      (f, _, l) = rpartition_str '':'' spec;
                      datdir = (if argv \<noteq> [] \<and> \<not> startswith (hd argv) ''-'' then hd argv else ''dats'')
                  in Inr (DoSuggest datdir rtl_pats f l kind)))
          else if ''--lint'' \<in> set args then
            Inr (DoLint (first_arg (filter (\<lambda>a. a \<noteq> ''--lint'') argv)) rtl_pats)
          else if ''-w'' \<in> set args then
            bind_res (nth_arg args (index_of ''-w'' args + 1)) (\<lambda>wp.
              Inr (DoMain (first_arg (filter (\<lambda>a. a \<noteq> wp \<and> a \<noteq> ''-w'') argv))
                    (''--per-instance'' \<in> set args) (Some wp) rtl_pats))
          else Inr (DoMain (first_arg argv) (''--per-instance'' \<in> set args) None rtl_pats))"

text \<open>The \<open>--lint\<close> action after the points are read: no verdict at all on an empty database.\<close>

definition lint_action :: "(str \<Rightarrow> str option) \<Rightarrow> waivers \<Rightarrow> points \<Rightarrow> nat res" where
  "lint_action fs wv pts =
     (if pts = [] then Inr 2
      else bind_res (lint fs wv pts) (\<lambda>(lines, bad). Inr (if bad \<noteq> 0 then 1 else 0)))"

subsection \<open>Dictionaries filled in a loop\<close>

lemma map_of_fold_update:
  "map_of (fold (\<lambda>p m. AList.update (key p) (g p (map_of m (key p))) m) ps m) k =
    fold (\<lambda>p v. Some (g p v)) (filter (\<lambda>p. key p = k) ps) (map_of m k)"
  by (induction ps arbitrary: m) (auto simp: update_conv')

lemma distinct_fold_update:
  "distinct (map fst m) \<Longrightarrow>
   distinct (map fst (fold (\<lambda>p m. AList.update (key p) (g p (map_of m (key p))) m) ps m))"
  by (induction ps arbitrary: m) (simp_all add: distinct_update)

abbreviation cnt :: "pval \<Rightarrow> int" where
  "cnt v \<equiv> snd (snd v)"

text \<open>Accumulating counts with \<open>max\<close> or \<open>min\<close>: what \<open>prev[2]\<close> and the new count combine to.\<close>

lemma fold_count_from:
  assumes "\<And>p v. cnt (g p (Some v)) = f (cnt (snd p)) (cnt v)"
  shows "\<exists>v. fold (\<lambda>p v. Some (g p v)) ps (Some v0) = Some v \<and>
    cnt v = fold f (map (cnt \<circ> snd) ps) (cnt v0)"
proof (induction ps arbitrary: v0)
  case (Cons p ps)
  from Cons.IH [of "g p (Some v0)"] show ?case
    by (simp add: assms del: split_paired_Ex)
qed simp

lemma fold_count:
  assumes "\<And>p v. cnt (g p (Some v)) = f (cnt (snd p)) (cnt v)"
    and "\<And>p. cnt (g p None) = cnt (snd p)" and "ps \<noteq> []"
  shows "\<exists>v. fold (\<lambda>p v. Some (g p v)) ps None = Some v \<and>
    cnt v = fold f (map (cnt \<circ> snd) (tl ps)) (cnt (snd (hd ps)))"
  using fold_count_from [of g f "tl ps" "g (hd ps) None", OF assms(1)] assms(2,3)
  by (cases ps) auto

lemma fold_max_pos: "0 < fold max cs (c :: int) \<longleftrightarrow> 0 < c \<or> (\<exists>x \<in> set cs. 0 < x)"
  by (induction cs arbitrary: c) auto

lemma fold_min_pos: "0 < fold min cs (c :: int) \<longleftrightarrow> 0 < c \<and> (\<forall>x \<in> set cs. 0 < x)"
  by (induction cs arbitrary: c) auto

definition add_val :: "str \<times> pval \<Rightarrow> pval option \<Rightarrow> pval" where
  "add_val p v = (fst (snd p), fst (snd (snd p)),
     case v of None \<Rightarrow> cnt (snd p) | Some w \<Rightarrow> max (cnt w) (cnt (snd p)))"

definition fold_val :: "str \<times> pval \<Rightarrow> pval option \<Rightarrow> pval" where
  "fold_val p v = (fst (snd p), fst (snd (snd p)),
     if base_key (fst p) = fst p then cnt (snd p)
     else (case v of None \<Rightarrow> cnt (snd p) | Some w \<Rightarrow> min (cnt w) (cnt (snd p))))"

lemma add_point_update: "add_point = (\<lambda>p m. AList.update (fst p) (add_val p (map_of m (fst p))) m)"
  by (auto simp: fun_eq_iff add_point_def add_val_def split: option.splits)

lemma fold_dir_update: "fold_dir = (\<lambda>p m. AList.update (base_key (fst p)) (fold_val p (map_of m (base_key (fst p)))) m)"
  by (auto simp: fun_eq_iff fold_dir_def fold_val_def split: option.splits)

definition db_points :: "str list \<Rightarrow> str list \<Rightarrow> (str \<times> pval) list" where
  "db_points pats dats = List.map_filter (parse_line pats) (concat (map file_lines dats))"

lemma map_of_parse_raw:
  "map_of (parse_raw pats dats) k =
    fold (\<lambda>p v. Some (add_val p v)) (filter (\<lambda>p. fst p = k) (db_points pats dats)) None"
  unfolding parse_raw_def add_point_update map_of_fold_update db_points_def by simp

lemma distinct_parse_raw: "distinct (map fst (parse_raw pats dats))"
  unfolding parse_raw_def add_point_update by (rule distinct_fold_update) simp

lemma parse_raw_count:
  assumes "(k, v) \<in> set (parse_raw pats dats)"
  shows "0 < cnt v \<longleftrightarrow> (\<exists>w. (k, w) \<in> set (db_points pats dats) \<and> 0 < cnt w)"
proof -
  let ?ps = "filter (\<lambda>p. fst p = k) (db_points pats dats)"
  have m: "map_of (parse_raw pats dats) k = Some v"
    using assms distinct_parse_raw by (simp add: map_of_eq_Some_iff)
  have "?ps \<noteq> []"
  proof
    assume "?ps = []"
    with m show False unfolding map_of_parse_raw by simp
  qed
  moreover have "cnt (add_val p (Some w)) = max (cnt (snd p)) (cnt w)" "cnt (add_val p None) = cnt (snd p)" for p w
    by (simp_all add: add_val_def max.commute)
  ultimately have "cnt v = fold max (map (cnt \<circ> snd) (tl ?ps)) (cnt (snd (hd ?ps)))"
    using fold_count [of add_val max ?ps] m unfolding map_of_parse_raw by auto
  then have "0 < cnt v \<longleftrightarrow> (\<exists>p \<in> set ?ps. 0 < cnt (snd p))"
    using \<open>?ps \<noteq> []\<close> by (cases ?ps) (auto simp: fold_max_pos)
  then show ?thesis by auto
qed

lemma parse_raw_keys: "fst ` set (parse_raw pats dats) = fst ` set (db_points pats dats)"
proof -
  have "fst ` set (fold (\<lambda>p m. AList.update (key p) (g p (map_of m (key p))) m) ps m) = fst ` set m \<union> key ` set ps"
    for key :: "str \<times> pval \<Rightarrow> str" and g ps and m :: points
    by (induction ps arbitrary: m) (auto simp only: fold_simps dom_update list.set image_insert image_empty)
  then show ?thesis
    unfolding parse_raw_def add_point_update db_points_def by simp
qed

lemma fold_dirs_count:
  assumes "b \<notin> fst ` set pts" and "\<exists>p \<in> set pts. base_key (fst p) = b"
  shows "\<exists>v. map_of (fold_dirs pts) b = Some v \<and>
    (0 < cnt v \<longleftrightarrow> (\<forall>p \<in> set pts. base_key (fst p) = b \<longrightarrow> 0 < cnt (snd p)))"
proof -
  let ?ps = "filter (\<lambda>p. base_key (fst p) = b) pts"
  define g where "g = (\<lambda>p v. (fst (snd p), fst (snd (snd p)),
      case v of None \<Rightarrow> cnt (snd (p :: str \<times> pval)) | Some (w :: pval) \<Rightarrow> min (cnt w) (cnt (snd p))))"
  have "fold (\<lambda>p v. Some (fold_val p v)) ?ps v0 = fold (\<lambda>p v. Some (g p v)) ?ps v0" for v0
  proof (rule fold_cong [OF refl refl])
    fix p assume "p \<in> set ?ps"
    with assms(1) have "base_key (fst p) \<noteq> fst p" by auto
    then show "(\<lambda>v. Some (fold_val p v)) = (\<lambda>v. Some (g p v))"
      by (simp add: fun_eq_iff fold_val_def g_def)
  qed
  then have m: "map_of (fold_dirs pts) b = fold (\<lambda>p v. Some (g p v)) ?ps None"
    unfolding fold_dirs_def fold_dir_update
      map_of_fold_update [where key = "\<lambda>p. base_key (fst p)" and g = fold_val] by simp
  have ne: "?ps \<noteq> []" using assms(2) by (auto simp: filter_empty_conv)
  moreover have "cnt (g p (Some w)) = min (cnt (snd p)) (cnt w)" "cnt (g p None) = cnt (snd p)" for p w
    by (simp_all add: g_def min.commute)
  ultimately obtain v where v: "map_of (fold_dirs pts) b = Some v"
    "cnt v = fold min (map (cnt \<circ> snd) (tl ?ps)) (cnt (snd (hd ?ps)))"
    using fold_count [of g min ?ps] unfolding m by auto
  have "0 < cnt v \<longleftrightarrow> (\<forall>p \<in> set ?ps. 0 < cnt (snd p))"
    using ne v(2) by (cases ?ps) (auto simp: fold_min_pos)
  with v(1) show ?thesis by auto
qed

text \<open>
  C10. A toggle bit that Verilator recorded as two directed points is covered only once it has
  both risen and fallen: the count of the folded point is positive exactly when, for each of
  the keys folded into it, some line of some database has a positive count.
\<close>

theorem toggle_covered_iff_both_directions:
  assumes "b \<notin> fst ` set (db_points pats dats)" and "b \<in> base_key ` fst ` set (db_points pats dats)"
  shows "\<exists>page path c. map_of (fold_dirs (parse_raw pats dats)) b = Some (page, path, c) \<and>
    (0 < c \<longleftrightarrow> (\<forall>k \<in> fst ` set (db_points pats dats). base_key k = b \<longrightarrow>
       (\<exists>w. (k, w) \<in> set (db_points pats dats) \<and> 0 < cnt w)))"
proof -
  have "b \<notin> fst ` set (parse_raw pats dats)"
    using assms(1) unfolding parse_raw_keys .
  moreover have "\<exists>p \<in> set (parse_raw pats dats). base_key (fst p) = b"
    using assms(2) unfolding parse_raw_keys [symmetric] by blast
  ultimately obtain v where v: "map_of (fold_dirs (parse_raw pats dats)) b = Some v"
    "0 < cnt v \<longleftrightarrow> (\<forall>p \<in> set (parse_raw pats dats). base_key (fst p) = b \<longrightarrow> 0 < cnt (snd p))"
    using fold_dirs_count by blast
  have "(\<forall>p \<in> set (parse_raw pats dats). base_key (fst p) = b \<longrightarrow> 0 < cnt (snd p)) \<longleftrightarrow>
      (\<forall>k \<in> fst ` set (parse_raw pats dats). base_key k = b \<longrightarrow>
        (\<exists>w. (k, w) \<in> set (db_points pats dats) \<and> 0 < cnt w))"
    using parse_raw_count by fastforce
  with v show ?thesis unfolding parse_raw_keys by (metis prod.collapse)
qed

definition sample_key :: "str \<Rightarrow> str" where
  "sample_key d = ''page'' @ [x02] @ ''v_toggle/m'' @ [x01] @ ''f'' @ [x02] @ ''/rtl/t.v'' @ [x01] @ ''o'' @ [x02] @ ''q:'' @ d"

definition sample_base :: str where
  "sample_base = ''page'' @ [x02] @ ''v_toggle/m'' @ [x01] @ ''f'' @ [x02] @ ''/rtl/t.v'' @ [x01] @ ''o'' @ [x02] @ ''q''"

definition sample_dat :: str where
  "sample_dat = ''C '' @ [CHR 0x27] @ sample_key ''0->1'' @ [CHR 0x27] @ '' 3'' @ [nl] @
     ''C '' @ [CHR 0x27] @ sample_key ''1->0'' @ [CHR 0x27] @ '' 0'' @ [nl]"

theorem toggle_covered_iff_both_directions_witness:
  "\<exists>page path c. map_of (fold_dirs (parse_raw [''/rtl/''] [sample_dat])) sample_base = Some (page, path, c) \<and> \<not> 0 < c"
proof -
  have "\<exists>page path c. map_of (fold_dirs (parse_raw [''/rtl/''] [sample_dat])) sample_base = Some (page, path, c) \<and>
    (0 < c \<longleftrightarrow> (\<forall>k \<in> fst ` set (db_points [''/rtl/''] [sample_dat]). base_key k = sample_base \<longrightarrow>
       (\<exists>w. (k, w) \<in> set (db_points [''/rtl/''] [sample_dat]) \<and> 0 < cnt w)))"
    by (rule toggle_covered_iff_both_directions) code_simp+
  moreover have "db_points [''/rtl/''] [sample_dat] = [(sample_key ''0->1'', ''v_toggle'', ''/rtl/t.v'', 3), (sample_key ''1->0'', ''v_toggle'', ''/rtl/t.v'', 0)]"
    "base_key (sample_key ''1->0'') = sample_base" "sample_key ''0->1'' \<noteq> sample_key ''1->0''"
    by code_simp+
  ultimately show ?thesis by (fastforce)
qed

subsection \<open>The waiver loop\<close>

definition waived_by :: "(str \<Rightarrow> str option) \<Rightarrow> waiver list \<Rightarrow> pkey \<times> pval \<Rightarrow> bool" where
  "waived_by fs ws p =
     (case p of (k, page, path, c) \<Rightarrow>
        (case key_line k of
           Inl e \<Rightarrow> False
         | Inr line \<Rightarrow> first_index (\<lambda>w. covers fs w path line page (key_sig k)) ws \<noteq> None))"

lemma sum_bump: "distinct (map fst d) \<Longrightarrow> sum_list (map snd (bump k d)) = Suc (sum_list (map snd d))"
proof (induction d)
  case (Cons e d)
  show ?case
  proof (cases "fst e = k")
    case False
    with Cons have "sum_list (map snd (bump k d)) = Suc (sum_list (map snd d))" by simp
    with False show ?thesis by (cases e) (simp add: bump_def)
  qed (cases e, simp add: bump_def)
qed (simp add: bump_def)

lemma distinct_bump: "distinct (map fst d) \<Longrightarrow> distinct (map fst (bump k d))"
  by (simp add: bump_def distinct_update)

lemma waive_fold:
  assumes "cache_ok fs (srccache wv)" and "distinct (map fst waived)"
    and "\<And>path line page sg. first_index (\<lambda>w. covers fs w path line page sg) (items wv) =
           first_index (\<lambda>w. covers fs w path line page sg) ws"
    and "fold_res (waive_step fs) pts (kept, waived, wv) = Inr (kept', waived', wv')"
  shows "kept' = kept @ filter (\<lambda>p. \<not> waived_by fs ws p) pts \<and>
    sum_list (map snd waived') + length kept' = sum_list (map snd waived) + length kept + length pts"
  using assms
proof (induction pts arbitrary: kept waived wv)
  case (Cons p pts)
  obtain k page path c where p: "p = (k, page, path, c)" by (metis prod_cases4)
  obtain line where line: "key_line k = Inr line"
    using Cons.prems(4) by (cases "key_line k") (auto simp: p waive_step_def)
  obtain r wv1 where m: "match fs path line page (key_sig k) wv = (r, wv1)" by fastforce
  note sp = match_spec [OF Cons.prems(1) m]
  have same: "first_index (\<lambda>w. covers fs w path line page sg) (items wv1) =
      first_index (\<lambda>w. covers fs w path line page sg) ws" for path line page sg
    using sp Cons.prems(3) by (auto simp: first_index_update_hits split: option.splits)
  have step: "waive_step fs p (kept, waived, wv) =
      Inr (case r of Some w \<Rightarrow> (kept, bump (basename path) waived, wv1) | None \<Rightarrow> (kept @ [p], waived, wv1))"
    by (simp add: p line m waive_step_def split: option.splits)
  note rest_run = Cons.prems(4) [unfolded fold_res.simps step bind_res_simps]
  have wb: "waived_by fs ws p \<longleftrightarrow> r \<noteq> None"
    using sp Cons.prems(3) by (simp add: waived_by_def p line)
  show ?case
  proof (cases r)
    case None
    with rest_run have "fold_res (waive_step fs) pts (kept @ [p], waived, wv1) = Inr (kept', waived', wv')"
      by simp
    from Cons.IH [OF _ Cons.prems(2) same this] sp wb None show ?thesis by auto
  next
    case (Some w)
    with rest_run have "fold_res (waive_step fs) pts (kept, bump (basename path) waived, wv1) = Inr (kept', waived', wv')"
      by simp
    from Cons.IH [OF _ distinct_bump [OF Cons.prems(2)] same this] sp wb Some sum_bump [OF Cons.prems(2)]
    show ?thesis by auto
  qed
qed simp

text \<open>
  C8. Waiving partitions the points: the report keeps exactly the points no waiver covers, in
  their order, and the waived counts it prints per file add up to the number of points left out.
\<close>

theorem waived_points_are_set_aside:
  assumes "cache_ok fs (srccache wv)" and "waive_all fs wv pts = Inr (kept, waived, wv')"
  shows "kept = filter (\<lambda>p. \<not> waived_by fs (items wv) p) pts \<and>
    sum_list (map snd waived) + length kept = length pts"
  using waive_fold [OF assms(1) _ refl assms(2) [unfolded waive_all_def]] by auto

definition sample_rpoints :: rpoints where
  "sample_rpoints = [(Loc ''rtl/t.v'' ''2'' ''v_toggle'' ''q'' [], ''v_toggle'', ''rtl/t.v'', 0),
     (Loc ''rtl/t.v'' ''2'' ''v_line'' ''block'' [], ''v_line'', ''rtl/t.v'', 1)]"

theorem waived_points_are_set_aside_witness:
  "\<exists>kept waived wv'. waive_all sample_rtl sample_set sample_rpoints = Inr (kept, waived, wv') \<and>
    sum_list (map snd waived) + length kept = 2"
proof -
  have "\<not> isl (waive_all sample_rtl sample_set sample_rpoints)" by code_simp
  then obtain kept waived wv' where w: "waive_all sample_rtl sample_set sample_rpoints = Inr (kept, waived, wv')"
    by (metis isl_def sum.exhaust prod_cases3)
  have "cache_ok sample_rtl (srccache sample_set)" by (simp add: sample_set_def)
  from waived_points_are_set_aside [OF this w]
  have "sum_list (map snd waived) + length kept = length sample_rpoints" ..
  moreover have "length sample_rpoints = 2" by (simp add: sample_rpoints_def)
  ultimately have "sum_list (map snd waived) + length kept = 2" by (rule trans)
  with w show ?thesis by blast
qed

subsection \<open>Totals\<close>

lemma sum_by_name:
  assumes "distinct ns" and "\<And>x. x \<in> set xs \<Longrightarrow> f x \<in> set ns"
  shows "(\<Sum>n\<leftarrow>ns. length (filter (\<lambda>x. f x = n \<and> P x) xs)) = length (filter P xs)"
  using assms(2)
proof (induction xs)
  case (Cons x xs)
  have "(\<Sum>n\<leftarrow>ns. length (filter (\<lambda>x. f x = n \<and> P x) (x # xs))) =
      (\<Sum>n\<leftarrow>ns. (if n = f x then (if P x then 1 else 0) else 0) + length (filter (\<lambda>x. f x = n \<and> P x) xs))"
    by (intro arg_cong [where f = sum_list] map_cong) auto
  also have "\<dots> = (\<Sum>n\<leftarrow>ns. if n = f x then (if P x then 1 else 0) else 0) +
      (\<Sum>n\<leftarrow>ns. length (filter (\<lambda>x. f x = n \<and> P x) xs))"
    by (rule sum_list_addf)
  also have "(\<Sum>n\<leftarrow>ns. if n = f x then (if P x then 1 else 0) else 0) = (if P x then 1 else 0 :: nat)"
    using assms(1) Cons.prems [of x] by (simp add: sum_list_distinct_conv_sum_set)
  finally show ?case using Cons by simp
qed simp

lemma fold_pairs:
  "fold (\<lambda>n (h, f). let (a, b) = q n in (h + a, f + b)) ns (h, f) =
    (h + (\<Sum>n\<leftarrow>ns. fst (q n)), f + (\<Sum>n\<leftarrow>ns. snd (q n) :: nat) :: nat)"
  by (induction ns arbitrary: h f) (auto simp: add.assoc split: prod.splits)

definition pfile :: "pkey \<times> pval \<Rightarrow> str" where
  "pfile p = basename (fst (snd (snd p)))"

lemma count_page_pair:
  "count_page page pts =
     (length (filter (\<lambda>p. fst (snd p) = page \<and> 0 < cnt (snd p)) pts),
      length (filter (\<lambda>p. fst (snd p) = page) pts))"
proof -
  have "(\<lambda>(k, pg, path, c). pg = page) = (\<lambda>p :: pkey \<times> pval. fst (snd p) = page)"
    "(\<lambda>(k, pg, path, c). 0 < c) = (\<lambda>p :: pkey \<times> pval. 0 < cnt (snd p))"
    by (simp_all add: fun_eq_iff split_beta)
  then show ?thesis by (simp add: count_page_def Let_def)
qed

lemma of_file_pfile: "of_file name pts = filter (\<lambda>p. pfile p = name) pts"
  by (auto simp: of_file_def pfile_def intro!: filter_cong)

lemma count_page_of_file:
  "fst (count_page page (of_file name pts)) =
     length (filter (\<lambda>p. pfile p = name \<and> (fst (snd p) = page \<and> 0 < cnt (snd p))) pts)"
  "snd (count_page page (of_file name pts)) =
     length (filter (\<lambda>p. pfile p = name \<and> fst (snd p) = page) pts)"
  by (simp_all add: count_page_pair of_file_pfile)

lemma total_of_count_page: "total_of page pts = count_page page pts"
proof -
  have names: "distinct (file_names pts)" "\<And>p. p \<in> set pts \<Longrightarrow> pfile p \<in> set (file_names pts)"
    by (auto simp: file_names_def pfile_def split_beta)
  show ?thesis
    unfolding total_of_def fold_pairs count_page_of_file
    by (simp add: sum_by_name [OF names(1), of pts pfile, OF names(2)] count_page_pair)
qed

lemma map_res_total_cells:
  "map_res (\<lambda>page. total_cell (q page)) ps =
     (if \<exists>p \<in> set ps. snd (q p) = 0 then Inl ZeroDivisionError else Inr (map q ps))"
  by (induction ps) (auto simp: total_cell_def)

text \<open>
  The total row counts points, not files: it is printed exactly when every page type has a
  kept point, and then its cells are the number of hit points and of all points of the page,
  with never more hit than found. When some page type has none, computing the row raises
  \<open>ZeroDivisionError\<close>.
\<close>

lemma totals_of_kept_points:
  "(if \<exists>page \<in> set pages. snd (count_page page pts) = 0 then totals pts = Inl ZeroDivisionError
    else totals pts = Inr (map (\<lambda>page. count_page page pts) pages)) \<and>
   fst (count_page page pts) \<le> snd (count_page page pts)"
proof
  show "if \<exists>page \<in> set pages. snd (count_page page pts) = 0 then totals pts = Inl ZeroDivisionError
    else totals pts = Inr (map (\<lambda>page. count_page page pts) pages)"
    unfolding totals_def total_of_count_page map_res_total_cells by simp
  show "fst (count_page page pts) \<le> snd (count_page page pts)"
    unfolding count_page_def Let_def fst_conv snd_conv by (rule length_filter_le)
qed

text \<open>
  C28. The report crashes on a fully waived database, and on one without any point of some page
  type: after the waiver loop, no kept point makes \<open>next(iter(pts))\<close> raise \<open>StopIteration\<close>, and a
  page type without kept points makes the total row divide by zero. Neither state is guarded.
\<close>

theorem report_crashes:
  assumes "waive_all fs wv pts = Inr (kept, waived, wv1)"
  shows "(kept = [] \<longrightarrow> main_report fs mtime datfiles wv pts = Inl StopIteration) \<and>
    (kept \<noteq> [] \<and> (\<exists>page \<in> set pages. \<forall>(k, pg, path, c) \<in> set kept. pg \<noteq> page) \<longrightarrow>
       main_report fs mtime datfiles wv pts = Inl ZeroDivisionError)"
proof (intro conjI impI)
  assume "kept = []"
  then show "main_report fs mtime datfiles wv pts = Inl StopIteration"
    using assms by (simp add: main_report_def)
next
  assume k: "kept \<noteq> [] \<and> (\<exists>page \<in> set pages. \<forall>(k, pg, path, c) \<in> set kept. pg \<noteq> page)"
  then have "\<exists>page \<in> set pages. snd (count_page page kept) = 0"
    by (fastforce simp: count_page_pair filter_empty_conv)
  then have "totals kept = Inl ZeroDivisionError"
    by (simp only: totals_def total_of_count_page map_res_total_cells if_True)
  with k assms show "main_report fs mtime datfiles wv pts = Inl ZeroDivisionError"
    by (simp add: main_report_def Let_def)
qed

theorem report_crashes_witness:
  "main_report sample_rtl (\<lambda>p. None) [] no_waivers [hd sample_rpoints] = Inl ZeroDivisionError"
proof -
  have w: "waive_all sample_rtl no_waivers [hd sample_rpoints] = Inr ([hd sample_rpoints], [], no_waivers)"
    by code_simp
  show ?thesis
    using report_crashes [OF w, of "\<lambda>p. None" "[]"] by (simp add: sample_rpoints_def pages_def)
qed

subsection \<open>Uncovered locations\<close>

definition point_loc :: "pkey \<times> pval \<Rightarrow> lockey option" where
  "point_loc p =
     (case p of (k, page, path, c) \<Rightarrow>
        if page = ''v_toggle'' then None
        else (case loc_line k of Inl e \<Rightarrow> None | Inr line \<Rightarrow> Some (basename path, line, page, key_sig k)))"

lemma map_of_loc_fold:
  "fold_res loc_step pts loc = Inr loc' \<Longrightarrow>
   map_of loc' q = fold (\<lambda>p v. Some (max (case v of None \<Rightarrow> 0 | Some m \<Rightarrow> m) (cnt (snd p))))
     (filter (\<lambda>p. point_loc p = Some q) pts) (map_of loc q)"
proof (induction pts arbitrary: loc)
  case (Cons p pts)
  obtain k page path c where p: "p = (k, page, path, c)" by (metis prod_cases4)
  show ?case
  proof (cases "page = ''v_toggle''")
    case True
    with Cons show ?thesis by (simp add: p loc_step_def point_loc_def)
  next
    case False
    with Cons.prems obtain line where l: "loc_line k = Inr line"
      by (cases "loc_line k") (auto simp: p loc_step_def)
    define loc1 where "loc1 = AList.update (basename path, line, page, key_sig k)
        (max (case map_of loc (basename path, line, page, key_sig k) of None \<Rightarrow> 0 | Some m \<Rightarrow> m) c) loc"
    have "loc_step p loc = Inr loc1"
      using False l by (simp add: p loc_step_def loc1_def Let_def)
    with Cons.prems have "fold_res loc_step pts loc1 = Inr loc'" by simp
    from Cons.IH [OF this] show ?thesis
      using False l by (simp add: p point_loc_def loc1_def update_conv')
  qed
qed simp

lemma fold_max0:
  "0 \<le> m \<Longrightarrow>
   fold (\<lambda>p v. Some (max (case v of None \<Rightarrow> 0 | Some m \<Rightarrow> m) (g p))) ps (Some m) = Some (0 :: int) \<longleftrightarrow>
    m = 0 \<and> (\<forall>p \<in> set ps. g p \<le> 0)"
  by (induction ps arbitrary: m) auto

lemma fold_max_None:
  "fold (\<lambda>p v. Some (max (case v of None \<Rightarrow> 0 | Some m \<Rightarrow> m) (g p))) ps None = Some (0 :: int) \<longleftrightarrow>
    ps \<noteq> [] \<and> (\<forall>p \<in> set ps. g p \<le> 0)"
  by (cases ps) (auto simp: fold_max0)

lemma loc_fold_distinct: "fold_res loc_step pts [] = Inr loc \<Longrightarrow> distinct (map fst loc)"
  by (erule fold_res_inv [where Q = "\<lambda>l. distinct (map fst l)", rotated -1])
     (auto simp: loc_step_def bind_res_Inr_iff Let_def distinct_update split: if_splits)

text \<open>
  C29. The list of uncovered locations is exact: a (file, line, page, label) is listed if and only
  if some kept line or branch point lies there and no point there was hit, so that a covered
  point never hides an uncovered one under another label, nor the other way round.
\<close>

theorem missing_iff_unhit:
  assumes "missing pts = Inr ms"
  shows "q \<in> set ms \<longleftrightarrow>
    (\<exists>p \<in> set pts. point_loc p = Some q) \<and> (\<forall>p \<in> set pts. point_loc p = Some q \<longrightarrow> cnt (snd p) \<le> 0)"
proof -
  obtain loc where loc: "fold_res loc_step pts [] = Inr loc" "ms = sort (map fst (filter (\<lambda>(q, m). m = 0) loc))"
    using assms by (auto simp: missing_def bind_res_Inr_iff)
  have "q \<in> set ms \<longleftrightarrow> (q, 0) \<in> set loc" by (force simp: loc(2))
  also have "\<dots> \<longleftrightarrow> map_of loc q = Some 0"
    using loc_fold_distinct [OF loc(1)] by simp
  also have "\<dots> \<longleftrightarrow> filter (\<lambda>p. point_loc p = Some q) pts \<noteq> [] \<and>
      (\<forall>p \<in> set (filter (\<lambda>p. point_loc p = Some q) pts). cnt (snd p) \<le> 0)"
    unfolding map_of_loc_fold [OF loc(1)] by (simp only: map_of.simps fold_max_None)
  finally show ?thesis by (auto simp: filter_empty_conv)
qed

theorem missing_iff_unhit_witness:
  "\<exists>ms. missing [(Loc ''rtl/t.v'' ''7'' ''v_branch'' ''else'' [], ''v_branch'', ''rtl/t.v'', 0),
      (Loc ''rtl/t.v'' ''7'' ''v_branch'' ''if'' [], ''v_branch'', ''rtl/t.v'', 2)] = Inr ms \<and>
    (''t.v'', 7, ''v_branch'', ''else'') \<in> set ms \<and> (''t.v'', 7, ''v_branch'', ''if'') \<notin> set ms"
    (is "\<exists>ms. missing ?pts = _ \<and> _")
proof -
  have ev: "missing ?pts = Inr [(''t.v'', 7, ''v_branch'', ''else'')]" by code_simp
  have loc: "map point_loc ?pts = [Some (''t.v'', 7, ''v_branch'', ''else''), Some (''t.v'', 7, ''v_branch'', ''if'')]"
    by code_simp
  with missing_iff_unhit [OF ev, of "(''t.v'', 7, ''v_branch'', ''else'')"]
    missing_iff_unhit [OF ev, of "(''t.v'', 7, ''v_branch'', ''if'')"] ev
  show ?thesis by auto
qed

end
