(* ===== verification/CovHtml.thy ===== *)
theory CovHtml
  imports CovReport PyFloat
begin

text \<open>
  \<open>cov_html.py\<close>: reading the databases per instance, the two views of every file (source locations
  and instances), the suggestion of every hole, and the page. The page's fixed text with its style
  sheet and script is an argument, as are the contents of the files, \<open>node --check\<close> (\<open>None\<close> when it
  is not installed) and the size of the file written. The set of tests that hit a point is a list.
\<close>

subsection \<open>Reading the databases\<close>

type_synonym hkey = "str \<times> int \<times> str \<times> str \<times> str \<times> str \<times> str"
type_synonym hpts = "(hkey \<times> int \<times> str list) list"

definition test_name :: "str \<Rightarrow> str" where
  "test_name fn =
     (let b = basename fn; n = take (length b - 4) b in if startswith b ''cov_'' then drop 4 n else n)"

definition add_instance :: "str \<Rightarrow> hkey \<Rightarrow> int \<Rightarrow> hpts \<Rightarrow> hpts" where
  "add_instance test k c pts =
     (let (c0, ts) = (case map_of pts k of None \<Rightarrow> (0, []) | Some e \<Rightarrow> e)
      in AList.update k (max c0 c, if 0 < c then List.insert test ts else ts) pts)"

definition html_line :: "str list \<Rightarrow> str \<Rightarrow> str \<Rightarrow> hpts \<Rightarrow> hpts res" where
  "html_line pats test l pts =
     (if \<not> startswith l (''C '' @ [CHR 0x27]) then Inr pts
      else
        (let (key, _, n) = rpartition_str (CHR 0x27 # '' '') (drop 3 l)
         in case py_int n of
              None \<Rightarrow> Inr pts
            | Some c \<Rightarrow>
                (let d = key_fields key; path = get_or ''f'' [] d; variant = get_or ''page'' [] d;
                     page = before ''/'' variant
                 in if \<not> (\<exists>pat \<in> set pats. contains path pat) \<or> page \<notin> set pages then Inr pts
                    else
                      bind_res (case map_of d ''l'' of None \<Rightarrow> Inr 0 | Some t \<Rightarrow> py_int_res t) (\<lambda>lno.
                        Inr (add_instance test
                          (path, lno, page, get_or ''o'' [] d, get_or ''h'' [] d, get_or ''n'' [] d, variant) c pts)))))"

definition html_parse :: "str list \<Rightarrow> (str \<times> str) list \<Rightarrow> hpts res" where
  "html_parse pats dats =
     fold_res (\<lambda>(fn, t) pts. fold_res (html_line pats (test_name fn)) (file_lines t) pts) dats []"

subsection \<open>The two views\<close>

type_synonym reasons = "(hkey \<times> str) list"
type_synonym point_item = "str \<times> int \<times> str list \<times> str option"
type_synonym view = "((str \<times> str \<times> int) \<times> point_item) list"

definition inst_view :: "reasons \<Rightarrow> hpts \<Rightarrow> view" where
  "inst_view reasons pts =
     map (\<lambda>(k, c, ts). case k of (path, lno, page, sg, h, num, variant) \<Rightarrow>
       ((path, page, lno), (sg, c, ts, map_of reasons k))) pts"

text \<open>Python's \<open>a and b\<close> on two reasons; an empty reason is false.\<close>

definition both_reasons :: "str option \<Rightarrow> str option \<Rightarrow> str option" where
  "both_reasons a b = (case a of None \<Rightarrow> None | Some r \<Rightarrow> if r = [] then Some r else b)"

type_synonym akey = "str \<times> int \<times> str \<times> str \<times> str"

definition acc_step :: "reasons \<Rightarrow> hkey \<times> int \<times> str list \<Rightarrow> (akey \<times> int \<times> str list \<times> str option) list \<Rightarrow>
    (akey \<times> int \<times> str list \<times> str option) list" where
  "acc_step reasons p acc =
     (case p of (k, c, ts) \<Rightarrow> case k of (path, lno, page, sg, h, num, variant) \<Rightarrow>
        let j = (path, lno, page, sg, num); r = map_of reasons k
        in AList.update j
             (case map_of acc j of
                None \<Rightarrow> (c, ts, r)
              | Some (c0, ts0, r0) \<Rightarrow> (max c0 c, List.union ts ts0, both_reasons r0 r)) acc)"

definition acc_view :: "reasons \<Rightarrow> hpts \<Rightarrow> view" where
  "acc_view reasons pts =
     map (\<lambda>((path, lno, page, sg, num), c, ts, r). ((path, page, lno), (sg, c, ts, r)))
       (fold (acc_step reasons) pts [])"

definition views :: "reasons \<Rightarrow> hpts \<Rightarrow> (str \<times> view) list" where
  "views reasons pts = [(''acc'', acc_view reasons pts), (''inst'', inst_view reasons pts)]"

subsection \<open>One line\<close>

definition waived_item :: "point_item \<Rightarrow> bool" where
  "waived_item it = (case it of (sg, c, ts, r) \<Rightarrow> r \<noteq> None \<and> r \<noteq> Some [])"

definition item_hit :: "point_item \<Rightarrow> bool" where
  "item_hit it = (case it of (sg, c, ts, r) \<Rightarrow> 0 < c)"

record line_data =
  l_hit :: nat
  l_tot :: nat
  l_miss :: "str list"
  l_detail :: "(str \<times> int \<times> nat \<times> str list option) list"
  l_waived :: "(str \<times> int \<times> str) list"

definition point_detail :: "point_item \<Rightarrow> str \<times> int \<times> nat \<times> str list option" where
  "point_detail it =
     (case it of (sg, c, ts, r) \<Rightarrow>
        (sg, c, length ts, if 0 < length ts \<and> length ts \<le> 6 then Some (sort ts) else None))"

definition line_data_of :: "point_item list \<Rightarrow> line_data" where
  "line_data_of its =
     (let live = filter (\<lambda>it. \<not> waived_item it) its; wvd = filter waived_item its
      in \<lparr>l_hit = length (filter item_hit live), l_tot = length live,
          l_miss = take 24 (sort (remdups (map fst (filter (\<lambda>(sg, c, ts, r). c = 0 \<and> sg \<noteq> []) live)))),
          l_detail = map point_detail (take 40 (sort_key (\<lambda>(sg, c, ts, r). (sg, - c)) live)),
          l_waived = map (\<lambda>(sg, c, ts, r). (sg, c, the r)) (take 12 (sort_key fst wvd))\<rparr>)"

subsection \<open>One page of one file\<close>

record page_data =
  p_lines :: "(int \<times> line_data) list"
  p_hit :: nat
  p_found :: nat
  p_wv :: nat

definition page_lines :: "view \<Rightarrow> str \<Rightarrow> str \<Rightarrow> (int \<times> point_item list) list" where
  "page_lines v path page =
     group_by (\<lambda>p. snd (snd (fst p))) snd (filter (\<lambda>((pa, pg, lno), it). pa = path \<and> pg = page) v)"

definition add_line :: "int \<times> point_item list \<Rightarrow> page_data \<Rightarrow> page_data" where
  "add_line e d =
     (let ld = line_data_of (snd e)
      in \<lparr>p_lines = AList.update (fst e) ld (p_lines d), p_hit = p_hit d + l_hit ld, p_found = p_found d + l_tot ld,
          p_wv = p_wv d + length (filter waived_item (snd e))\<rparr>)"

definition page_data_of :: "view \<Rightarrow> str \<Rightarrow> str \<Rightarrow> page_data" where
  "page_data_of v path page =
     fold add_line (page_lines v path page) \<lparr>p_lines = [], p_hit = 0, p_found = 0, p_wv = 0\<rparr>"

subsection \<open>Files and totals\<close>

record file_data =
  f_path :: str
  f_src :: "str list"
  f_views :: "(str \<times> (str \<times> page_data) list) list"

type_synonym files = "(str \<times> file_data) list"
type_synonym vtotals = "(str \<times> (str \<times> nat \<times> nat) list) list"

definition source_lines :: "(str \<Rightarrow> str option) \<Rightarrow> str \<Rightarrow> str list" where
  "source_lines fs path =
     (case fs path of None \<Rightarrow> [''(source not readable: '' @ path @ '')''] | Some t \<Rightarrow> split_nl t)"

definition add_file :: "(str \<Rightarrow> str option) \<Rightarrow> str \<Rightarrow> view \<Rightarrow> str \<Rightarrow> files \<Rightarrow> files" where
  "add_file fs vw v path fls =
     (let name = basename path;
          e = (case map_of fls name of None \<Rightarrow> \<lparr>f_path = path, f_src = source_lines fs path, f_views = []\<rparr> | Some e \<Rightarrow> e);
          pv = (case map_of (f_views e) vw of None \<Rightarrow> [] | Some d \<Rightarrow> d);
          pv1 = fold (\<lambda>page d. AList.update page (page_data_of v path page) d) pages pv
      in AList.update name (e\<lparr>f_views := AList.update vw pv1 (f_views e)\<rparr>) fls)"

definition view_paths :: "view \<Rightarrow> str list" where
  "view_paths v = sort (remdups (map (\<lambda>((path, page, lno), it). path) v))"

definition view_total :: "view \<Rightarrow> str \<Rightarrow> nat \<times> nat" where
  "view_total v page =
     fold (\<lambda>path (h, f). let d = page_data_of v path page in (h + p_hit d, f + p_found d)) (view_paths v) (0, 0)"

definition build_view :: "(str \<Rightarrow> str option) \<Rightarrow> str \<times> view \<Rightarrow> files \<times> vtotals \<Rightarrow> files \<times> vtotals" where
  "build_view fs vv st =
     (case vv of (vw, v) \<Rightarrow>
        (fold (add_file fs vw v) (view_paths v) (fst st),
         snd st @ [(vw, map (\<lambda>page. (page, view_total v page)) pages)]))"

definition build :: "(str \<Rightarrow> str option) \<Rightarrow> reasons \<Rightarrow> hpts \<Rightarrow> files \<times> vtotals" where
  "build fs reasons pts = fold (build_view fs) (views reasons pts) ([], [])"

subsection \<open>The data of the page, as JSON\<close>

definition detail_json :: "str \<times> int \<times> nat \<times> str list option \<Rightarrow> json" where
  "detail_json d =
     (case d of (sg, c, n, ts) \<Rightarrow>
        JObj ([(''k'', JStr sg), (''c'', JInt c), (''n'', JInt (int n))] @
          (case ts of None \<Rightarrow> [] | Some l \<Rightarrow> [(''t'', JList (map JStr l))])))"

definition line_json :: "line_data \<Rightarrow> json" where
  "line_json d = JObj
     [(''hit'', JInt (int (l_hit d))), (''tot'', JInt (int (l_tot d))), (''miss'', JList (map JStr (l_miss d))),
      (''d'', JList (map detail_json (l_detail d))),
      (''w'', JList (map (\<lambda>(sg, c, r). JObj [(''k'', JStr sg), (''c'', JInt c), (''r'', JStr r)]) (l_waived d)))]"

definition page_json :: "page_data \<Rightarrow> json" where
  "page_json d = JObj
     [(''lines'', JObj (map (\<lambda>(n, l). (int_str n, line_json l)) (p_lines d))), (''hit'', JInt (int (p_hit d))),
      (''found'', JInt (int (p_found d))), (''wv'', JInt (int (p_wv d)))]"

definition files_json :: "files \<Rightarrow> json" where
  "files_json fls = JObj (map (\<lambda>(name, e). (name, JObj
     [(''path'', JStr (f_path e)), (''src'', JList (map JStr (f_src e))),
      (''v'', JObj (map (\<lambda>(vw, pd). (vw, JObj (map (\<lambda>(page, d). (page, page_json d)) pd))) (f_views e)))])) fls)"

definition totals_json :: "vtotals \<Rightarrow> json" where
  "totals_json ts = JObj (map (\<lambda>(vw, pt). (vw, JObj (map (\<lambda>(page, h, f).
     (page, JList [JInt (int h), JInt (int f)])) pt))) ts)"

subsection \<open>Waivers and suggestions\<close>

text \<open>The first loop over the points: the reason of every waived one.\<close>

definition reason_step :: "(str \<Rightarrow> str option) \<Rightarrow> hkey \<times> int \<times> str list \<Rightarrow> reasons \<times> waivers \<Rightarrow> reasons \<times> waivers" where
  "reason_step fs p st =
     (case p of ((path, lno, page, sg, h, num, variant), c, ts) \<Rightarrow> case st of (rs, wv) \<Rightarrow>
        (case match fs path lno page sg wv of
           (Some w, wv1) \<Rightarrow> (rs @ [((path, lno, page, sg, h, num, variant), w_reason w)], wv1)
         | (None, wv1) \<Rightarrow> (rs, wv1)))"

definition html_record :: "hkey \<times> int \<times> str list \<Rightarrow> rec5" where
  "html_record p = (case p of ((path, lno, page, sg, h, num, variant), c, ts) \<Rightarrow> (page, path, lno, sg, c))"

text \<open>The second loop: the lines with a point that is neither hit nor waived.\<close>

definition gap_step ::
    "(str \<Rightarrow> str option) \<Rightarrow> hkey \<times> int \<times> str list \<Rightarrow> (str \<times> int) list \<times> waivers \<Rightarrow> (str \<times> int) list \<times> waivers" where
  "gap_step fs p st =
     (case p of ((path, lno, page, sg, h, num, variant), c, ts) \<Rightarrow> case st of (gaps, wv) \<Rightarrow>
        if c \<noteq> 0 \<or> lno = 0 then (gaps, wv)
        else (case match fs path lno page sg wv of
                (Some w, wv1) \<Rightarrow> (gaps, wv1)
              | (None, wv1) \<Rightarrow> (List.insert (basename path, lno) gaps, wv1)))"

type_synonym suggestions = "(str \<times> entry list \<times> nat \<times> bool) list"

text \<open>A suggestion that raises is skipped.\<close>

definition suggestion :: "(str \<Rightarrow> str option) \<Rightarrow> rec5 list \<Rightarrow> str \<times> int \<Rightarrow> (str \<times> entry list \<times> nat \<times> bool) option" where
  "suggestion fs recs g =
     (case suggest_entries fs recs (fst g) (int_str (snd g)) None of
        Inl e \<Rightarrow> None
      | Inr (es, skipped, uniq) \<Rightarrow>
          if es = [] then None else Some (fst g @ '':'' @ int_str (snd g), es, skipped, uniq))"

definition suggestions_of :: "(str \<Rightarrow> str option) \<Rightarrow> rec5 list \<Rightarrow> (str \<times> int) list \<Rightarrow> suggestions" where
  "suggestions_of fs recs gaps = List.map_filter (suggestion fs recs) (sort gaps)"

definition suggestions_json :: "suggestions \<Rightarrow> json" where
  "suggestions_json ss = JObj (map (\<lambda>(k, es, skipped, uniq). (k, JObj
     [(''entries'', JList (map entry_json es)), (''skipped'', JInt (int skipped)), (''literal'', JBool uniq)])) ss)"

subsection \<open>The page\<close>

definition html_dumps :: "json \<Rightarrow> str" where
  "html_dumps = json_render json_quote '', '' '': ''"

definition document :: "str \<Rightarrow> files \<Rightarrow> vtotals \<Rightarrow> suggestions \<Rightarrow> str" where
  "document tpl fls ts ss =
     replace_all ''__SUGGEST__'' (html_dumps (suggestions_json ss))
       (replace_all ''__TOTALS__'' (html_dumps (totals_json ts))
         (replace_all ''__DATA__'' (html_dumps (files_json fls)) tpl))"

definition script_of :: "str \<Rightarrow> str res" where
  "script_of doc =
     (case (cut ''<script>'' doc, rcut ''</script>'' doc) of
        (Some (u, v), Some (x, y)) \<Rightarrow> Inr (drop (length u + 8) (take (length x) doc))
      | _ \<Rightarrow> Inl (ValueError ''substring not found''))"

text \<open>\<open>node --check\<close> answers \<open>None\<close> when the script parses, else with its error output.\<close>

definition script_errors :: "(str \<Rightarrow> str option) \<Rightarrow> str \<Rightarrow> str list option" where
  "script_errors node js =
     map_option (\<lambda>err. [''  ERROR: generated JavaScript does not parse:'',
        (case splitlines (strip err) of [] \<Rightarrow> [] | l # ls \<Rightarrow> ''    '' @ l)]) (node js)"

definition percent :: "nat \<times> nat \<Rightarrow> str" where
  "percent ht = (if snd ht = 0 then ''0.0'' else fixed1 (double (double (100 * of_nat (fst ht)) / of_nat (snd ht))))"

definition page_label :: "str \<Rightarrow> str" where
  "page_label p = replace_all ''v_'' [] p"

definition view_line :: "vtotals \<Rightarrow> str \<times> str \<Rightarrow> str" where
  "view_line ts vl =
     ''    '' @ ljust 13 (snd vl) @ '' '' @
     join ''   '' (map (\<lambda>(page, h, f). page_label page @ '' '' @ nat_str h @ ''/'' @ nat_str f @ '' '' @ percent (h, f) @ ''%'')
       (case map_of ts (fst vl) of None \<Rightarrow> [] | Some pt \<Rightarrow> pt))"

record html_run =
  h_exit :: nat
  h_errors :: "werror list"
  h_warning :: "(str list \<times> bool) option"
  h_file :: "(str \<times> str) option"
  h_lines :: "str list"
  h_stale :: "waiver list"

definition ended :: "werror list \<Rightarrow> str list \<Rightarrow> html_run" where
  "ended es ls = \<lparr>h_exit = 1, h_errors = es, h_warning = None, h_file = None, h_lines = ls, h_stale = []\<rparr>"

definition waived_line :: "reasons \<Rightarrow> str list" where
  "waived_line rs =
     (if rs = [] then []
      else [''    '' @ ljust 13 ''waived'' @ '' '' @ nat_str (length rs) @ '' points excluded ('' @
        nat_str (length (remdups (map (\<lambda>((path, lno, page, sg, h), r). (path, lno, page, sg)) rs))) @ '' source locations)''])"

definition html_args :: "str list \<Rightarrow> (str \<times> str) res" where
  "html_args argv =
     bind_res (if ''-o'' \<in> set argv then nth_arg argv (index_of ''-o'' argv + 1) else Inr ''coverage.html'') (\<lambda>out.
       Inr (case argv of a # b # as \<Rightarrow> (b, out) | _ \<Rightarrow> (''dats'', out)))"

definition html_main ::
    "(str \<Rightarrow> rx option) \<Rightarrow> (str \<Rightarrow> str option) \<Rightarrow> (str \<Rightarrow> nat option) \<Rightarrow> (str \<Rightarrow> (str \<times> str) list) \<Rightarrow>
     (str \<Rightarrow> str option) option \<Rightarrow> (str \<Rightarrow> nat) \<Rightarrow> str \<Rightarrow> str option \<Rightarrow> str list \<Rightarrow> str list \<Rightarrow> html_run res" where
  "html_main rxc fs mtime dats_of node size_of tpl waiver_path pats argv =
     bind_res (html_args argv) (\<lambda>(datdir, out).
     let wv = load_waivers rxc fs waiver_path; dats = dats_of datdir
     in if errors wv \<noteq> [] then Inr (ended (errors wv) [])
        else
          bind_res (html_parse pats dats) (\<lambda>pts.
          if pts = [] then Inr (ended [] [''ERROR: no rtl/verilog coverage points found in '' @ datdir])
          else
            (let (rs, wv1) = fold (reason_step fs) pts ([], wv);
                 warn = check_fresh mtime (map fst dats) (remdups (map (\<lambda>(k, e). fst k) pts));
                 (fls, ts) = build fs rs pts;
                 (gaps, wv2) = fold (gap_step fs) pts ([], wv1);
                 doc = document tpl fls ts (suggestions_of fs (map html_record pts) gaps);
                 good = \<lparr>h_exit = 0, h_errors = [], h_warning = warn, h_file = Some (out, doc),
                   h_lines = [''  wrote '' @ out @ ''  ('' @ nat_str (length fls) @ '' files, '' @
                       fixed1 (double (of_nat (size_of doc) / 1024)) @ '' KB)''] @ waived_line rs @
                     map (view_line ts) [(''acc'', ''accumulated''), (''inst'', ''per-instance'')],
                   h_stale = stale wv2\<rparr>
             in case node of
                  None \<Rightarrow> Inr good
                | Some check \<Rightarrow>
                    bind_res (script_of doc) (\<lambda>js.
                      case script_errors check js of
                        None \<Rightarrow> Inr good
                      | Some ls \<Rightarrow> Inr (good\<lparr>h_exit := 1, h_lines := ls, h_stale := []\<rparr>)))))"

text \<open>The arguments after the program's name: every \<open>--rtl PAT\<close> is taken out.\<close>

fun rtl_pats :: "str list \<Rightarrow> str list res" where
  "rtl_pats [] = Inr []"
| "rtl_pats [a] = (if a = ''--rtl'' then Inl IndexError else Inr [])"
| "rtl_pats (a # b # as) =
     bind_res (rtl_pats (b # as)) (\<lambda>ps. Inr (if a = ''--rtl'' then b # ps else ps))"

definition html_cli :: "str list \<Rightarrow> (str list \<times> str list) res" where
  "html_cli argv =
     bind_res (rtl_pats argv) (\<lambda>ps.
       Inr (filter (\<lambda>a. a \<noteq> ''--rtl'' \<and> a \<notin> set ps) argv, if ps = [] then [''/rtl/verilog/''] else ps))"

subsection \<open>Waived points are in no number\<close>

lemma group_by_count:
  "(\<Sum>e\<leftarrow>group_by key val rs. length (filter P (snd e))) = length (filter (\<lambda>r. P (val r)) rs)"
proof -
  let ?g = "group_by key val rs"
  have count: "length (filter P (snd e)) = length (filter (\<lambda>r. key r = fst e \<and> P (val r)) rs)" if "e \<in> set ?g" for e
  proof -
    have "snd e = map val (filter (\<lambda>r. key r = fst e) rs)"
      using that group_by_mem_iff [of "fst e" "snd e" key val rs] by simp
    then show ?thesis by (simp add: filter_map comp_def conj_commute)
  qed
  have keys: "key r \<in> set (map fst ?g)" if "r \<in> set rs" for r
  proof -
    have "(key r, map val (filter (\<lambda>q. key q = key r) rs)) \<in> set ?g"
      using that unfolding group_by_mem_iff by (auto simp: filter_empty_conv)
    then show ?thesis by force
  qed
  have "(\<Sum>e\<leftarrow>?g. length (filter P (snd e))) = (\<Sum>k\<leftarrow>map fst ?g. length (filter (\<lambda>r. key r = k \<and> P (val r)) rs))"
    unfolding map_map by (intro arg_cong [where f = sum_list] map_cong) (auto simp: count)
  also have "\<dots> = length (filter (\<lambda>r. P (val r)) rs)"
    by (rule sum_by_name) (use distinct_group_by [of key val rs] keys in auto)
  finally show ?thesis .
qed

lemma fold_add_line:
  "p_hit (fold add_line es d) = p_hit d + (\<Sum>e\<leftarrow>es. l_hit (line_data_of (snd e)))"
  "p_found (fold add_line es d) = p_found d + (\<Sum>e\<leftarrow>es. l_tot (line_data_of (snd e)))"
  by (induction es arbitrary: d) (simp_all add: add_line_def Let_def)

text \<open>A point of a view that counts, and one that counts as hit.\<close>

definition counts :: "str \<Rightarrow> (str \<times> str \<times> int) \<times> point_item \<Rightarrow> bool" where
  "counts page p \<longleftrightarrow> fst (snd (fst p)) = page \<and> \<not> waived_item (snd p)"

definition counts_hit :: "str \<Rightarrow> (str \<times> str \<times> int) \<times> point_item \<Rightarrow> bool" where
  "counts_hit page p \<longleftrightarrow> counts page p \<and> item_hit (snd p)"

lemma page_data_counts:
  "p_hit (page_data_of v path page) = length (filter (\<lambda>p. fst (fst p) = path \<and> counts_hit page p) v)"
  "p_found (page_data_of v path page) = length (filter (\<lambda>p. fst (fst p) = path \<and> counts page p) v)"
proof -
  have here: "(\<lambda>((pa, pg, lno), it). pa = path \<and> pg = page) = (\<lambda>p :: (str \<times> str \<times> int) \<times> point_item. fst (fst p) = path \<and> fst (snd (fst p)) = page)"
    by (auto simp: fun_eq_iff)
  have hit: "l_hit (line_data_of its) = length (filter (\<lambda>it. \<not> waived_item it \<and> item_hit it) its)"
    and tot: "l_tot (line_data_of its) = length (filter (\<lambda>it. \<not> waived_item it) its)" for its
    by (simp_all add: line_data_of_def Let_def conj_commute)
  show "p_hit (page_data_of v path page) = length (filter (\<lambda>p. fst (fst p) = path \<and> counts_hit page p) v)"
    unfolding page_data_of_def fold_add_line hit page_lines_def group_by_count here
    by (simp add: counts_hit_def counts_def conj_ac)
  show "p_found (page_data_of v path page) = length (filter (\<lambda>p. fst (fst p) = path \<and> counts page p) v)"
    unfolding page_data_of_def fold_add_line tot page_lines_def group_by_count here
    by (simp add: counts_def conj_ac)
qed

lemma view_total_counts: "view_total v page = (length (filter (counts_hit page) v), length (filter (counts page) v))"
proof -
  have paths: "distinct (view_paths v)" "\<And>p. p \<in> set v \<Longrightarrow> fst (fst p) \<in> set (view_paths v)"
    by (force simp: view_paths_def)+
  have step: "(\<lambda>path (h, f). let d = page_data_of v path page in (h + p_hit d, f + p_found d)) =
      (\<lambda>path (h, f). let (a, b) = (p_hit (page_data_of v path page), p_found (page_data_of v path page)) in (h + a, f + b))"
    by (simp add: Let_def)
  show ?thesis
    unfolding view_total_def step fold_pairs page_data_counts fst_conv snd_conv
    by (simp add: sum_by_name [OF paths(1), of v "\<lambda>p. fst (fst p)", OF paths(2)])
qed

text \<open>
  C19. The two numbers of the report's header, per view and page type, are counts of points: all points
  of the view that are not waived, and those among them that some test hit. A waived point is in
  neither, so waiving cannot raise the number of hits, and no grouping by file or line loses or
  repeats a point.
\<close>

theorem html_totals_exact:
  "snd (build fs rs pts) =
     map (\<lambda>(vw, v). (vw, map (\<lambda>page. (page, length (filter (counts_hit page) v), length (filter (counts page) v))) pages))
       (views rs pts)"
  by (simp add: build_def views_def build_view_def view_total_counts)

end
