(* ===== verification/SameTotals.thy ===== *)
theory SameTotals
  imports CovHtml
begin

text \<open>
  The text report and the page read the same databases with two parsers. On a database without the two
  directions of a toggle and without two columns under one label, their accumulated totals agree: both
  count the source locations no waiver covers, and those of them that some instance hit.
\<close>

subsection \<open>Tables filled in a loop\<close>

text \<open>The keys of such a table, and a property of its values that every step keeps.\<close>

definition table :: "('p \<Rightarrow> 'k) \<Rightarrow> ('p \<Rightarrow> 'v option \<Rightarrow> 'v) \<Rightarrow> 'p list \<Rightarrow> ('k \<times> 'v) list" where
  "table key g ps = fold (\<lambda>p m. AList.update (key p) (g p (map_of m (key p))) m) ps []"

lemma table_keys: "fst ` set (table key g ps) = key ` set ps" "distinct (map fst (table key g ps))"
proof -
  have "fst ` set (fold (\<lambda>p m. AList.update (key p) (g p (map_of m (key p))) m) ps m) = fst ` set m \<union> key ` set ps" for m
    by (induction ps arbitrary: m) (auto simp only: fold_simps dom_update list.set image_insert image_empty)
  then show "fst ` set (table key g ps) = key ` set ps" by (simp add: table_def)
  show "distinct (map fst (table key g ps))" unfolding table_def by (rule distinct_fold_update) simp
qed

lemma table_hit:
  assumes "\<And>p. h (g p None) \<longleftrightarrow> hp p" and "\<And>p v. h (g p (Some v)) \<longleftrightarrow> h v \<or> hp p" and "(k, v) \<in> set (table key g ps)"
  shows "h v \<longleftrightarrow> (\<exists>p \<in> set ps. key p = k \<and> hp p)"
proof -
  have from_some: "fold (\<lambda>p v. Some (g p v)) qs (Some v0) = Some v \<Longrightarrow> h v \<longleftrightarrow> h v0 \<or> (\<exists>p \<in> set qs. hp p)" for qs v0 v
    by (induction qs arbitrary: v0) (auto simp: assms(2))
  have "map_of (table key g ps) k = Some v" by (rule map_of_is_SomeI [OF table_keys(2) assms(3)])
  then have "fold (\<lambda>p v. Some (g p v)) (filter (\<lambda>p. key p = k) ps) None = Some v"
    unfolding table_def map_of_fold_update by simp
  moreover obtain q qs where q: "filter (\<lambda>p. key p = k) ps = q # qs"
    using calculation by (cases "filter (\<lambda>p. key p = k) ps") simp_all
  ultimately have "h v \<longleftrightarrow> hp q \<or> (\<exists>p \<in> set qs. hp p)" using from_some [of qs "g q None" v] by (simp add: assms(1))
  also have "\<dots> \<longleftrightarrow> (\<exists>p \<in> set (filter (\<lambda>p. key p = k) ps). hp p)" unfolding q by simp
  finally show ?thesis by auto
qed

lemma table_inv:
  assumes "\<And>p. p \<in> set ps \<Longrightarrow> Q (key p) (g p None)" and "\<And>p v. p \<in> set ps \<Longrightarrow> Q (key p) v \<Longrightarrow> Q (key p) (g p (Some v))"
    and "(k, v) \<in> set (table key g ps)"
  shows "Q k v"
proof -
  have from_some: "fold (\<lambda>p v. Some (g p v)) qs (Some v0) = Some v \<Longrightarrow> set qs \<subseteq> {p \<in> set ps. key p = k} \<Longrightarrow> Q k v0 \<Longrightarrow> Q k v"
    for qs v0
    using assms(2) by (induction qs arbitrary: v0) auto
  have "map_of (table key g ps) k = Some v" by (rule map_of_is_SomeI [OF table_keys(2) assms(3)])
  then have f: "fold (\<lambda>p v. Some (g p v)) (filter (\<lambda>p. key p = k) ps) None = Some v"
    unfolding table_def map_of_fold_update by simp
  then obtain q qs where q: "filter (\<lambda>p. key p = k) ps = q # qs"
    by (cases "filter (\<lambda>p. key p = k) ps") simp_all
  then have sub: "set (q # qs) \<subseteq> {p \<in> set ps. key p = k}" by (metis (lifting) filter_is_subset mem_Collect_eq q set_filter subsetI)
  with f assms(1) show ?thesis unfolding q by (intro from_some [of qs "g q None"]) auto
qed

lemma count_keys: "distinct (map fst m) \<Longrightarrow> length (filter P m) = card (fst ` {e \<in> set m. P e})"
proof -
  assume "distinct (map fst m)"
  then have "distinct (map fst (filter P m))" by (induction m) auto
  then have "card (set (map fst (filter P m))) = length (map fst (filter P m))" by (rule distinct_card)
  then show ?thesis by (simp add: set_filter)
qed

lemma table_id: "distinct (map fst m) \<Longrightarrow> fold (\<lambda>(k, v) out. AList.update k v out) m [] = m"
proof -
  have "distinct (map fst (out @ m)) \<Longrightarrow> fold (\<lambda>(k, v) out. AList.update k v out) m out = out @ m" for out
  proof (induction m arbitrary: out)
    case (Cons e m)
    have "AList.update k v out = out @ [(k, v)]" if "k \<notin> fst ` set out" for k v
      using that by (induction out) auto
    with Cons.prems have "AList.update (fst e) (snd e) out = out @ [e]" by simp
    with Cons.IH [of "out @ [e]"] Cons.prems show ?case by (simp add: split_beta)
  qed simp
  then show "distinct (map fst m) \<Longrightarrow> ?thesis" by fastforce
qed

subsection \<open>Points\<close>

text \<open>The source location of a database key, for the text report and for the page.\<close>

definition page_of_key :: "str \<Rightarrow> str" where
  "page_of_key key = before ''/'' (get_or ''page'' [] (key_fields key))"

definition line_of_key :: "str \<Rightarrow> int" where
  "line_of_key key = the (py_int (get_or ''l'' [] (key_fields key)))"

definition loc_of :: "str \<Rightarrow> pkey" where
  "loc_of key =
     (let d = key_fields key
      in Loc (get_or ''f'' [] d) (get_or ''l'' [] d) (page_of_key key) (get_or ''o'' [] d) (get_or ''n'' [] d))"

definition hkey_of :: "str \<Rightarrow> hkey" where
  "hkey_of key =
     (let d = key_fields key
      in (get_or ''f'' [] d, line_of_key key, page_of_key key, get_or ''o'' [] d, get_or ''h'' [] d, get_or ''n'' [] d, get_or ''page'' [] d))"

fun akey_of :: "hkey \<Rightarrow> akey" where
  "akey_of (path, lno, page, sg, h, num, variant) = (path, lno, page, sg, num)"

definition same_key :: "str \<Rightarrow> str \<Rightarrow> bool" where
  "same_key p q \<longleftrightarrow> has_column (page_of_key p) \<and> has_column (page_of_key q) \<and>
     label_of p (get_or ''f'' [] (key_fields p)) = label_of q (get_or ''f'' [] (key_fields q))"

text \<open>A key as an older Verilator writes it: no direction, a line number as printed, one column per label.\<close>

definition plain_database :: "str list \<Rightarrow> str list \<Rightarrow> bool" where
  "plain_database pats dats \<longleftrightarrow>
     (\<forall>p \<in> set (db_points pats dats). base_key (fst p) = fst p \<and>
        (\<exists>n. map_of (key_fields (fst p)) ''l'' = Some (int_str n)) \<and>
        (\<forall>q \<in> set (db_points pats dats). same_key (fst p) (fst q) \<longrightarrow>
           map_of (key_fields (fst p)) ''n'' = map_of (key_fields (fst q)) ''n''))"

lemma db_point_fields:
  assumes "(key, page, path, c) \<in> set (db_points pats dats)"
  shows "page = page_of_key key \<and> path = get_or ''f'' [] (key_fields key)"
proof -
  obtain l where "parse_line pats l = Some (key, page, path, c)"
    using assms by (auto simp: db_points_def List.map_filter_def)
  then show ?thesis
    by (auto simp: parse_line_def page_of_key_def Let_def split: if_splits prod.splits option.splits)
qed

lemma parse_raw_table: "parse_raw pats dats = table fst add_val (db_points pats dats)"
  by (simp add: parse_raw_def add_point_update table_def db_points_def)

lemma parse_raw_fields:
  assumes "(key, page, path, c) \<in> set (parse_raw pats dats)"
  shows "page = page_of_key key \<and> path = get_or ''f'' [] (key_fields key)"
proof -
  have "fst (page, path, c) = page_of_key key \<and> fst (snd (page, path, c)) = get_or ''f'' [] (key_fields key)"
    using assms unfolding parse_raw_table
    by (rule table_inv [where Q = "\<lambda>key v. fst v = page_of_key key \<and> fst (snd v) = get_or ''f'' [] (key_fields key)", rotated 2])
      (auto simp: add_val_def dest: db_point_fields)
  then show ?thesis by simp
qed

lemma parse_plain:
  assumes "plain_database pats dats"
  shows "parse pats dats = parse_raw pats dats"
proof -
  let ?m = "parse_raw pats dats"
  have key: "k \<in> fst ` set (db_points pats dats)" if "k \<in> fst ` set ?m" for k
    using that by (simp add: parse_raw_keys)
  have "fold fold_dir ?m out = fold (\<lambda>(k, v) out. AList.update k v out) ?m out" for out
  proof (rule fold_cong [OF refl refl])
    fix p assume "p \<in> set ?m"
    then have "base_key (fst p) = fst p" using key assms by (fastforce simp: plain_database_def)
    then show "fold_dir p = (\<lambda>(k, v) out. AList.update k v out) p" by (cases p) (auto simp: fold_dir_def fun_eq_iff)
  qed
  then have dirs: "fold_dirs ?m = ?m" unfolding fold_dirs_def using table_id [OF distinct_parse_raw] by simp
  have one: "\<not> (has_column page \<and> 1 < length (columns ?m (label_of k path)))" if k: "(k, page, path, c) \<in> set ?m" for k page path c
  proof
    assume a: "has_column page \<and> 1 < length (columns ?m (label_of k path))"
    have "map_of (key_fields q) ''n'' = map_of (key_fields k) ''n''"
      if q: "(q, pg, pa, x) \<in> set ?m" "has_column pg" "label_of q pa = label_of k path" for q pg pa x
    proof -
      have "same_key k q" using a q parse_raw_fields [OF k] parse_raw_fields [OF q(1)] by (simp add: same_key_def)
      moreover have "k \<in> fst ` set (db_points pats dats)" "q \<in> fst ` set (db_points pats dats)"
        using k q(1) key by (metis fst_conv image_eqI)+
      ultimately show ?thesis using assms unfolding plain_database_def by (metis (no_types, lifting) imageE)
    qed
    then have "set (columns ?m (label_of k path)) \<subseteq> {map_of (key_fields k) ''n''}" by (auto simp: columns_def)
    then have "card (set (columns ?m (label_of k path))) \<le> card {map_of (key_fields k) ''n''}" by (intro card_mono) simp
    then have "length (columns ?m (label_of k path)) \<le> 1" unfolding columns_def by (simp add: length_remdups_card_conv)
    with a show False by simp
  qed
  have "fold (\<lambda>(key, page, path, c) out.
       AList.update (if has_column page \<and> 1 < length (columns ?m (label_of key path)) then column_key key else key)
         (page, path, c) out) ?m [] = fold (\<lambda>(k, v) out. AList.update k v out) ?m []"
    using one by (intro fold_cong refl) auto
  then show ?thesis
    unfolding parse_def dirs name_columns_def using table_id [OF distinct_parse_raw] by simp
qed

text \<open>What a waiver set covers at the location of a key, and whether some instance there was hit.\<close>

definition covered :: "(str \<Rightarrow> str option) \<Rightarrow> waiver list \<Rightarrow> str \<Rightarrow> bool" where
  "covered fs ws key \<longleftrightarrow>
     (\<exists>w \<in> set ws. covers fs w (get_or ''f'' [] (key_fields key)) (line_of_key key) (page_of_key key) (get_or ''o'' [] (key_fields key)))"

definition hit_at :: "(str \<times> pval) list \<Rightarrow> pkey \<Rightarrow> bool" where
  "hit_at db k \<longleftrightarrow> (\<exists>p \<in> set db. loc_of (fst p) = k \<and> 0 < cnt (snd p))"

subsection \<open>The text report\<close>

definition acc_key :: "str \<times> pval \<Rightarrow> pkey" where
  "acc_key p =
     (case p of (key, page, path, c) \<Rightarrow>
        let d = key_fields key in Loc path (get_or ''l'' [] d) page (get_or ''o'' [] d) (get_or ''n'' [] d))"

definition acc_val :: "str \<times> pval \<Rightarrow> pval option \<Rightarrow> pval" where
  "acc_val p v = (fst (snd p), fst (snd (snd p)), case v of None \<Rightarrow> cnt (snd p) | Some w \<Rightarrow> max (cnt w) (cnt (snd p)))"

lemma accumulate_table: "accumulate pts = table acc_key acc_val pts"
proof -
  have "(\<lambda>(key, page, path, c) acc.
       let d = key_fields key;
           k = Loc path (get_or ''l'' [] d) page (get_or ''o'' [] d) (get_or ''n'' [] d)
       in AList.update k
            (page, path, case map_of acc k of None \<Rightarrow> c | Some (pg, pa, c0) \<Rightarrow> max c0 c) acc) =
    (\<lambda>p m. AList.update (acc_key p) (acc_val p (map_of m (acc_key p))) m)"
    by (auto simp: fun_eq_iff acc_key_def acc_val_def Let_def split: option.split)
  then show ?thesis by (simp add: accumulate_def table_def)
qed

lemma acc_key_loc: "p \<in> set (parse_raw pats dats) \<Longrightarrow> acc_key p = loc_of (fst p)"
proof -
  obtain key page path c where p: "p = (key, page, path, c)" by (metis prod_cases4)
  assume "p \<in> set (parse_raw pats dats)"
  from parse_raw_fields [OF this [unfolded p]] show ?thesis by (simp add: p acc_key_def loc_of_def Let_def)
qed

lemma accumulate_values:
  assumes "(k, page, path, c) \<in> set (accumulate (parse_raw pats dats))"
  shows "\<exists>key \<in> fst ` set (db_points pats dats). k = loc_of key \<and> page = page_of_key key \<and> path = get_or ''f'' [] (key_fields key)"
    and "0 < c \<longleftrightarrow> hit_at (db_points pats dats) k"
proof -
  note key = acc_key_loc [of _ pats dats]
  have "k \<in> acc_key ` set (parse_raw pats dats)"
    using assms table_keys(1) [of acc_key acc_val] unfolding accumulate_table by force
  then obtain p where p: "p \<in> set (parse_raw pats dats)" "k = loc_of (fst p)" using key by auto
  have "case k of Loc path' l page' o' n \<Rightarrow> fst (page, path, c) = page' \<and> fst (snd (page, path, c)) = path' | Raw x \<Rightarrow> False"
    using assms unfolding accumulate_table
    by (rule table_inv [where Q = "\<lambda>k v. case k of Loc path' l page' o' n \<Rightarrow> fst v = page' \<and> fst (snd v) = path' | Raw x \<Rightarrow> False", rotated 2])
      (auto simp: acc_val_def acc_key_def Let_def)
  moreover have "fst p \<in> fst ` set (db_points pats dats)" using p(1) by (simp flip: parse_raw_keys)
  ultimately show "\<exists>key \<in> fst ` set (db_points pats dats). k = loc_of key \<and> page = page_of_key key \<and> path = get_or ''f'' [] (key_fields key)"
    using p(2) by (intro bexI [of _ "fst p"]) (auto simp: loc_of_def Let_def)
  have "0 < c \<longleftrightarrow> (\<exists>p \<in> set (parse_raw pats dats). acc_key p = k \<and> 0 < cnt (snd p))"
    using table_hit [where h = "\<lambda>v. 0 < cnt v" and hp = "\<lambda>p. 0 < cnt (snd p)" and key = acc_key and g = acc_val, OF _ _ assms [unfolded accumulate_table]]
    by (simp add: acc_val_def less_max_iff_disj)
  also have "\<dots> \<longleftrightarrow> hit_at (db_points pats dats) k"
  proof
    assume "\<exists>p \<in> set (parse_raw pats dats). acc_key p = k \<and> 0 < cnt (snd p)"
    then obtain q v where q: "(q, v) \<in> set (parse_raw pats dats)" "loc_of q = k" "0 < cnt v" using key by force
    with parse_raw_count [OF q(1)] show "hit_at (db_points pats dats) k" by (force simp: hit_at_def)
  next
    assume "hit_at (db_points pats dats) k"
    then obtain q w where q: "(q, w) \<in> set (db_points pats dats)" "loc_of q = k" "0 < cnt w" by (auto simp: hit_at_def)
    then have "q \<in> fst ` set (parse_raw pats dats)" unfolding parse_raw_keys by force
    then obtain v where v: "(q, v) \<in> set (parse_raw pats dats)" by force
    with parse_raw_count [OF v] q have "0 < cnt v" by blast
    with v q key [OF v] show "\<exists>p \<in> set (parse_raw pats dats). acc_key p = k \<and> 0 < cnt (snd p)" by force
  qed
  finally show "0 < c \<longleftrightarrow> hit_at (db_points pats dats) k" .
qed

lemma accumulate_keys: "fst ` set (accumulate (parse_raw pats dats)) = loc_of ` fst ` set (db_points pats dats)"
proof -
  have "acc_key ` set (parse_raw pats dats) = loc_of ` fst ` set (parse_raw pats dats)"
    unfolding image_image by (intro image_cong refl acc_key_loc)
  then show ?thesis unfolding accumulate_table table_keys(1) parse_raw_keys .
qed

lemma plain_line_no:
  assumes "plain_database pats dats" and "key \<in> fst ` set (db_points pats dats)"
  shows "get_or ''l'' [] (key_fields key) = int_str (line_of_key key)" "map_of (key_fields key) ''l'' = Some (int_str (line_of_key key))"
proof -
  obtain n where "map_of (key_fields key) ''l'' = Some (int_str n)"
    using assms by (fastforce simp: plain_database_def)
  then show "get_or ''l'' [] (key_fields key) = int_str (line_of_key key)" "map_of (key_fields key) ''l'' = Some (int_str (line_of_key key))"
    by (simp_all add: get_or_def line_of_key_def)
qed

lemma waived_by_covered:
  assumes "plain_database pats dats" and "key \<in> fst ` set (db_points pats dats)"
  shows "waived_by fs ws (loc_of key, page_of_key key, get_or ''f'' [] (key_fields key), c) \<longleftrightarrow> covered fs ws key"
proof -
  have "key_line (loc_of key) = Inr (line_of_key key)"
    using int_str_hd [of "line_of_key key"] by (auto simp: loc_of_def Let_def int_or_0_def plain_line_no(1) [OF assms])
  then show ?thesis
    by (simp add: waived_by_def covered_def first_index_None loc_of_def Let_def)
qed

definition counted :: "(str \<Rightarrow> str option) \<Rightarrow> waiver list \<Rightarrow> (str \<times> pval) list \<Rightarrow> str \<Rightarrow> str set" where
  "counted fs ws db page = {key \<in> fst ` set db. page_of_key key = page \<and> \<not> covered fs ws key}"

lemma image_filter_eq:
  assumes "\<And>p. p \<in> A \<Longrightarrow> \<exists>k \<in> K. fst p = f k \<and> (P p \<longleftrightarrow> Q k)" and "\<And>k. k \<in> K \<Longrightarrow> \<exists>p \<in> A. fst p = f k \<and> (P p \<longleftrightarrow> Q k)"
  shows "fst ` {p \<in> A. P p} = f ` {k \<in> K. Q k}"
proof (intro equalityI subsetI)
  fix x assume "x \<in> fst ` {p \<in> A. P p}"
  then obtain p where p: "p \<in> A" "P p" "x = fst p" by blast
  with assms(1) [OF p(1)] show "x \<in> f ` {k \<in> K. Q k}" by auto
next
  fix x assume "x \<in> f ` {k \<in> K. Q k}"
  then obtain k where k: "k \<in> K" "Q k" "x = f k" by blast
  from assms(2) [OF k(1)] obtain p where p: "p \<in> A" "fst p = f k" "P p" using k(2) by blast
  have "x = fst p" using k(3) p(2) by simp
  then show "x \<in> fst ` {p \<in> A. P p}" using p(1,3) by (intro image_eqI [of _ _ p]) simp_all
qed

lemma text_totals:
  assumes "plain_database pats dats"
  defines "db \<equiv> db_points pats dats"
  shows "count_page page (filter (\<lambda>p. \<not> waived_by fs ws p) (accumulate (parse pats dats))) =
    (card (loc_of ` {key \<in> counted fs ws db page. hit_at db (loc_of key)}), card (loc_of ` counted fs ws db page))"
proof -
  let ?acc = "accumulate (parse_raw pats dats)"
  have dist: "distinct (map fst ?acc)" unfolding accumulate_table by (rule table_keys(2))
  have val: "\<exists>key \<in> fst ` set db. fst p = loc_of key \<and> (fst (snd p) = page \<longleftrightarrow> page_of_key key = page) \<and>
      (0 < cnt (snd p) \<longleftrightarrow> hit_at db (loc_of key)) \<and> (waived_by fs ws p \<longleftrightarrow> covered fs ws key)" if p: "p \<in> set ?acc" for p
  proof -
    obtain k pg path c where e: "p = (k, pg, path, c)" by (metis prod_cases4)
    from accumulate_values(1) [OF p [unfolded e]] obtain key where key: "key \<in> fst ` set db" "k = loc_of key"
      "pg = page_of_key key" "path = get_or ''f'' [] (key_fields key)" unfolding db_def by blast
    with accumulate_values(2) [OF p [unfolded e]] waived_by_covered [OF assms(1), of key fs ws c] show ?thesis
      unfolding e db_def by (intro bexI [of _ key]) simp_all
  qed
  have key: "\<exists>p \<in> set ?acc. fst p = loc_of key \<and> (fst (snd p) = page \<longleftrightarrow> page_of_key key = page) \<and>
      (0 < cnt (snd p) \<longleftrightarrow> hit_at db (loc_of key)) \<and> (waived_by fs ws p \<longleftrightarrow> covered fs ws key)" if k: "key \<in> fst ` set db" for key
  proof -
    have "loc_of key \<in> fst ` set ?acc" using k unfolding accumulate_keys db_def by simp
    then obtain pg pa c where p: "(loc_of key, pg, pa, c) \<in> set ?acc" by auto
    from accumulate_values(1) [OF p] have "pg = page_of_key key" "pa = get_or ''f'' [] (key_fields key)"
      by (auto simp: loc_of_def Let_def)
    with accumulate_values(2) [OF p] waived_by_covered [OF assms(1) k [unfolded db_def], of fs ws c] p show ?thesis
      unfolding db_def by (intro bexI [OF _ p]) simp
  qed
  have hits: "fst ` {e \<in> set ?acc. \<not> waived_by fs ws e \<and> fst (snd e) = page \<and> 0 < cnt (snd e)} =
      loc_of ` {key \<in> fst ` set db. page_of_key key = page \<and> \<not> covered fs ws key \<and> hit_at db (loc_of key)}"
    by (rule image_filter_eq) (use val key in \<open>metis (full_types)\<close>)+
  have all: "fst ` {e \<in> set ?acc. \<not> waived_by fs ws e \<and> fst (snd e) = page} =
      loc_of ` {key \<in> fst ` set db. page_of_key key = page \<and> \<not> covered fs ws key}"
    by (rule image_filter_eq) (use val key in \<open>metis (full_types)\<close>)+
  show ?thesis
    unfolding count_page_pair parse_plain [OF assms(1)] filter_filter count_keys [OF dist] hits all counted_def mem_Collect_eq conj_assoc ..
qed

subsection \<open>The page\<close>

type_synonym tagged = "str \<times> str \<times> pval"

definition tagged_points :: "str list \<Rightarrow> (str \<times> str) list \<Rightarrow> tagged list" where
  "tagged_points pats dats =
     concat (map (\<lambda>(fn, t). map (Pair (test_name fn)) (List.map_filter (parse_line pats) (file_lines t))) dats)"

definition inst_val :: "tagged \<Rightarrow> (int \<times> str list) option \<Rightarrow> int \<times> str list" where
  "inst_val p v =
     (let (c0, ts) = (case v of None \<Rightarrow> (0, []) | Some e \<Rightarrow> e); c = cnt (snd (snd p))
      in (max c0 c, if 0 < c then List.insert (fst p) ts else ts))"

definition on_page :: "tagged \<Rightarrow> bool" where
  "on_page p \<longleftrightarrow> page_of_key (fst (snd p)) \<in> set pages"

lemma tagged_db: "snd ` set (tagged_points pats dats) = set (db_points pats (map snd dats))"
proof -
  have "map snd (tagged_points pats dats) = db_points pats (map snd dats)"
    by (induction dats) (auto simp: tagged_points_def db_points_def List.map_filter_def)
  then show ?thesis by (metis set_map)
qed

lemma map_filter_mem: "x \<in> set (List.map_filter f xs) \<longleftrightarrow> (\<exists>y \<in> set xs. f y = Some x)"
  by (induction xs) (auto split: option.splits)

lemma html_line_point:
  assumes "\<And>key v. parse_line pats l = Some (key, v) \<Longrightarrow> map_of (key_fields key) ''l'' = Some (int_str (line_of_key key))"
  shows "html_line pats test l pts =
     Inr (case parse_line pats l of
            None \<Rightarrow> pts
          | Some (key, v) \<Rightarrow> if page_of_key key \<in> set pages then add_instance test (hkey_of key) (cnt v) pts else pts)"
proof -
  obtain key sep n where l: "rpartition_str (CHR 0x27 # '' '') (drop 3 l) = (key, sep, n)" by (metis prod_cases3)
  let ?d = "key_fields key"
  have pl: "parse_line pats l =
      (if \<not> startswith l (''C '' @ [CHR 0x27]) then None
       else case py_int n of None \<Rightarrow> None
         | Some c \<Rightarrow> if \<not> (\<exists>pat \<in> set pats. contains (get_or ''f'' [] ?d) pat) then None
              else Some (key, page_of_key key, get_or ''f'' [] ?d, c))"
    unfolding parse_line_def l Let_def page_of_key_def by simp
  show ?thesis
  proof (cases "parse_line pats l")
    case None
    then show ?thesis unfolding pl html_line_def l Let_def prod.case by (auto split: if_splits option.splits)
  next
    case (Some kv)
    then obtain c where c: "py_int n = Some c" "startswith l (''C '' @ [CHR 0x27])"
      "\<exists>pat \<in> set pats. contains (get_or ''f'' [] ?d) pat" "kv = (key, page_of_key key, get_or ''f'' [] ?d, c)"
      unfolding pl by (auto split: if_splits option.splits)
    have "map_of ?d ''l'' = Some (int_str (line_of_key key))" using assms Some c(4) by blast
    then show ?thesis
      using c by (auto simp: Some html_line_def l Let_def page_of_key_def hkey_of_def py_int_res_def)
  qed
qed

text \<open>One tagged point, one file, all files.\<close>

definition tagged_step :: "tagged \<Rightarrow> hpts \<Rightarrow> hpts" where
  "tagged_step p pts =
     (if on_page p then AList.update (hkey_of (fst (snd p))) (inst_val p (map_of pts (hkey_of (fst (snd p))))) pts else pts)"

lemma tagged_steps:
  "fold tagged_step ps pts =
     fold (\<lambda>p m. AList.update (hkey_of (fst (snd p))) (inst_val p (map_of m (hkey_of (fst (snd p))))) m) (filter on_page ps) pts"
  by (induction ps arbitrary: pts) (simp_all add: tagged_step_def)

lemma html_lines_fold:
  assumes "\<And>key v l. l \<in> set ls \<Longrightarrow> parse_line pats l = Some (key, v) \<Longrightarrow> map_of (key_fields key) ''l'' = Some (int_str (line_of_key key))"
  shows "fold_res (html_line pats test) ls pts = Inr (fold tagged_step (map (Pair test) (List.map_filter (parse_line pats) ls)) pts)"
  using assms
proof (induction ls arbitrary: pts)
  case (Cons l ls)
  have hl: "html_line pats test l pts =
      Inr (case parse_line pats l of None \<Rightarrow> pts | Some (key, v) \<Rightarrow> if page_of_key key \<in> set pages then add_instance test (hkey_of key) (cnt v) pts else pts)"
    by (rule html_line_point) (use Cons.prems in \<open>metis list.set_intros(1)\<close>)
  have ih: "fold_res (html_line pats test) ls q = Inr (fold tagged_step (map (Pair test) (List.map_filter (parse_line pats) ls)) q)" for q
    by (rule Cons.IH) (use Cons.prems in \<open>metis list.set_intros(2)\<close>)
  show ?case
  proof (cases "parse_line pats l")
    case None
    with ih hl show ?thesis by simp
  next
    case (Some kv)
    obtain key v where kv: "kv = (key, v)" by (metis surj_pair)
    have "(if page_of_key key \<in> set pages then add_instance test (hkey_of key) (cnt v) pts else pts) = tagged_step (test, kv) pts"
      by (simp add: tagged_step_def kv on_page_def add_instance_def inst_val_def Let_def split_beta)
    with ih Some hl show ?thesis by (simp add: kv)
  qed
qed simp

lemma html_files_fold:
  assumes "plain_database pats (map snd dats)" and "set ds \<subseteq> set dats"
  shows "fold_res (\<lambda>(fn, t) pts. fold_res (html_line pats (test_name fn)) (file_lines t) pts) ds pts =
    Inr (fold tagged_step (tagged_points pats ds) pts)"
  using assms(2)
proof (induction ds arbitrary: pts)
  case (Cons d ds)
  obtain fn t where d: "d = (fn, t)" by fastforce
  have "fold_res (html_line pats (test_name fn)) (file_lines t) pts =
      Inr (fold tagged_step (map (Pair (test_name fn)) (List.map_filter (parse_line pats) (file_lines t))) pts)"
  proof (rule html_lines_fold)
    fix key v l assume l: "l \<in> set (file_lines t)" "parse_line pats l = Some (key, v)"
    have "(key, v) \<in> set (db_points pats (map snd dats))"
      using l Cons.prems d unfolding db_points_def map_filter_mem by (intro bexI [of _ l]) force+
    then have "key \<in> fst ` set (db_points pats (map snd dats))" by force
    from plain_line_no(2) [OF assms(1) this] show "map_of (key_fields key) ''l'' = Some (int_str (line_of_key key))" .
  qed
  with Cons show ?case by (simp add: d tagged_points_def)
qed (simp add: tagged_points_def)

lemma html_parse_table:
  assumes "plain_database pats (map snd dats)"
  shows "html_parse pats dats = Inr (table (\<lambda>p. hkey_of (fst (snd p))) inst_val (filter on_page (tagged_points pats dats)))"
  using html_files_fold [OF assms subset_refl, of "[]"] by (simp add: html_parse_def table_def tagged_steps)

text \<open>The reasons: a point has one exactly when a waiver covers its location, and none is empty.\<close>

definition reasoned :: "waivers \<Rightarrow> bool" where
  "reasoned wv \<longleftrightarrow> (\<forall>w \<in> set (items wv). w_reason w \<noteq> [])"

fun hcovered :: "(str \<Rightarrow> str option) \<Rightarrow> waiver list \<Rightarrow> hkey \<Rightarrow> bool" where
  "hcovered fs ws (path, lno, page, sg, h, num, variant) \<longleftrightarrow> (\<exists>w \<in> set ws. covers fs w path lno page sg)"

lemma hcovered_key: "hcovered fs ws (hkey_of key) \<longleftrightarrow> covered fs ws key"
  by (simp add: hkey_of_def Let_def covered_def)

lemma match_reason:
  assumes "cache_ok fs (srccache wv)" and "reasoned wv" and "match fs path lno page sg wv = (r, wv1)"
  shows "r = None \<longleftrightarrow> \<not> (\<exists>w \<in> set (items wv). covers fs w path lno page sg)" "r = Some w \<Longrightarrow> w_reason w \<noteq> []"
    and "reasoned wv1" "cache_ok fs (srccache wv1)"
    and "(\<exists>w \<in> set (items wv1). covers fs w P n pg s) \<longleftrightarrow> (\<exists>w \<in> set (items wv). covers fs w P n pg s)"
proof -
  note m = match_spec [OF assms(1,3)]
  show "r = None \<longleftrightarrow> \<not> (\<exists>w \<in> set (items wv). covers fs w path lno page sg)" "cache_ok fs (srccache wv1)"
    using m by (auto simp: first_index_None)
  have ix: "i < length (items wv)" if "first_index (\<lambda>w. covers fs w path lno page sg) (items wv) = Some i" for i
    using that by (simp add: first_index_Some)
  show "r = Some w \<Longrightarrow> w_reason w \<noteq> []"
  proof -
    assume "r = Some w"
    then obtain i where i: "fst (match_items fs path lno page sg (items wv) (srccache wv)) = Some i" "w_reason w = w_reason (items wv ! i)"
      using assms(3) by (auto simp: match_def Let_def split: if_splits prod.splits option.splits)
    then have "i < length (items wv)" using match_items_spec [OF assms(1)] ix by metis
    with i assms(2) show ?thesis by (simp add: reasoned_def)
  qed
  have "set (items wv1) \<subseteq> set (items wv) \<union> {(items wv ! k)\<lparr>w_hits := h\<rparr> | k h. k < length (items wv)}"
    using m ix by (auto split: option.splits dest!: subsetD [OF set_update_subset_insert])
  with assms(2) show "reasoned wv1" by (fastforce simp: reasoned_def)
  have "first_index (\<lambda>w. covers fs w P n pg s) (items wv1) = first_index (\<lambda>w. covers fs w P n pg s) (items wv)"
    using m by (simp add: first_index_update_hits split: option.splits)
  then show "(\<exists>w \<in> set (items wv1). covers fs w P n pg s) \<longleftrightarrow> (\<exists>w \<in> set (items wv). covers fs w P n pg s)"
    using first_index_None by metis
qed

lemma reasons_from:
  assumes "cache_ok fs (srccache wv)" and "reasoned wv" and "\<And>k. hcovered fs (items wv) k \<longleftrightarrow> hcovered fs ws k"
    and "\<forall>(k, r) \<in> set rs. r \<noteq> []" and "fold (reason_step fs) ps (rs, wv) = (rs', wv')"
  shows "fst ` set rs' = fst ` set rs \<union> {k \<in> fst ` set ps. hcovered fs ws k} \<and> (\<forall>(k, r) \<in> set rs'. r \<noteq> [])"
  using assms
proof (induction ps arbitrary: rs wv)
  case (Cons p ps)
  obtain path lno page sg h num variant e where p: "p = ((path, lno, page, sg, h, num, variant), e)" by (metis prod.collapse)
  obtain r wv1 where m: "match fs path lno page sg wv = (r, wv1)" by fastforce
  note mr = match_reason [OF Cons.prems(1,2) m]
  have same: "hcovered fs (items wv1) k \<longleftrightarrow> hcovered fs ws k" for k
    using Cons.prems(3) [of k] mr(5) by (cases k) (simp only: hcovered.simps)
  have cov: "r \<noteq> None \<longleftrightarrow> hcovered fs ws (fst p)" using mr(1) Cons.prems(3) [of "fst p"] by (simp add: p)
  define rs1 where "rs1 = (case r of None \<Rightarrow> rs | Some w \<Rightarrow> rs @ [(fst p, w_reason w)])"
  have step: "reason_step fs p (rs, wv) = (rs1, wv1)"
    by (cases r) (simp_all add: rs1_def reason_step_def p m split_beta)
  have "\<forall>(k, x) \<in> set rs1. x \<noteq> []" using Cons.prems(4) mr(2) by (auto simp: rs1_def split: option.splits)
  from Cons.IH [OF mr(4,3) same this] Cons.prems(5) step
  have "fst ` set rs' = fst ` set rs1 \<union> {k \<in> fst ` set ps. hcovered fs ws k} \<and> (\<forall>(k, r) \<in> set rs'. r \<noteq> [])" by simp
  moreover have "fst ` set rs1 = fst ` set rs \<union> (if hcovered fs ws (fst p) then {fst p} else {})"
    using cov by (auto simp: rs1_def split: option.splits)
  ultimately show ?case by auto
qed auto

lemma reasons_exact:
  fixes fs
  assumes "srccache wv = []" and "reasoned wv" and "k \<in> fst ` set ps"
  defines "r \<equiv> map_of (fst (fold (reason_step fs) ps ([], wv))) k"
  shows "(r \<noteq> None \<and> r \<noteq> Some []) = hcovered fs (items wv) k" "r \<noteq> Some []"
proof -
  obtain rs wv1 where f: "fold (reason_step fs) ps ([], wv) = (rs, wv1)" by fastforce
  have "cache_ok fs (srccache wv)" using assms(1) by simp
  from reasons_from [OF this assms(2) refl _ f]
  have rs: "fst ` set rs = {k \<in> fst ` set ps. hcovered fs (items wv) k}" "\<forall>(k, r) \<in> set rs. r \<noteq> []" by auto
  show ne: "r \<noteq> Some []" using rs(2) unfolding r_def f by (auto dest!: map_of_SomeD)
  have "r = None \<longleftrightarrow> k \<notin> fst ` set rs" unfolding r_def f by (simp add: map_of_eq_None_iff)
  with ne rs(1) assms(3) show "(r \<noteq> None \<and> r \<noteq> Some []) = hcovered fs (items wv) k" by auto
qed

text \<open>The accumulated view.\<close>

definition acc_item :: "reasons \<Rightarrow> hkey \<times> int \<times> str list \<Rightarrow> (int \<times> str list \<times> str option) option \<Rightarrow> int \<times> str list \<times> str option" where
  "acc_item rs p v =
     (case p of (k, c, ts) \<Rightarrow> case v of
        None \<Rightarrow> (c, ts, map_of rs k)
      | Some (c0, ts0, r0) \<Rightarrow> (max c0 c, List.union ts ts0, both_reasons r0 (map_of rs k)))"

definition acc_point :: "akey \<times> int \<times> str list \<times> str option \<Rightarrow> (str \<times> str \<times> int) \<times> point_item" where
  "acc_point e = (case e of ((path, lno, page, sg, num), c, ts, r) \<Rightarrow> ((path, page, lno), (sg, c, ts, r)))"

lemma acc_view_table: "acc_view rs pts = map acc_point (table (akey_of \<circ> fst) (acc_item rs) pts)"
proof -
  have "acc_step rs = (\<lambda>p m. AList.update ((akey_of \<circ> fst) p) (acc_item rs p (map_of m ((akey_of \<circ> fst) p))) m)"
    by (auto simp: fun_eq_iff acc_step_def acc_item_def Let_def split: option.split)
  moreover have "(\<lambda>((path, lno, page, sg, num), c, ts, r). ((path, page, lno), (sg, c, ts, r))) = acc_point"
    by (simp add: fun_eq_iff acc_point_def split_beta)
  ultimately show ?thesis by (simp add: acc_view_def table_def)
qed

definition source_key :: "str \<Rightarrow> akey" where
  "source_key key = akey_of (hkey_of key)"

fun loc_akey :: "pkey \<Rightarrow> akey" where
  "loc_akey (Loc path l page sg num) = (path, the (py_int l), page, sg, num)"
| "loc_akey (Raw key) = ([], 0, [], [], [])"

lemma akey_loc: "source_key key = loc_akey (loc_of key)"
  by (simp add: source_key_def hkey_of_def loc_of_def Let_def line_of_key_def)

lemma akey_page: "source_key key = (path, lno, page, sg, num) \<Longrightarrow> page = page_of_key key"
  by (auto simp: source_key_def hkey_of_def Let_def)

lemma akey_covered: "source_key p = source_key q \<Longrightarrow> covered fs ws p \<longleftrightarrow> covered fs ws q"
  by (simp add: source_key_def hkey_of_def Let_def covered_def)

lemma akey_inj:
  assumes "plain_database pats dats" and "p \<in> fst ` set (db_points pats dats)" and "q \<in> fst ` set (db_points pats dats)"
  shows "source_key p = source_key q \<longleftrightarrow> loc_of p = loc_of q"
proof
  assume "source_key p = source_key q"
  then have "line_of_key p = line_of_key q" "loc_of p = loc_of q \<or> get_or ''l'' [] (key_fields p) \<noteq> get_or ''l'' [] (key_fields q)"
    by (auto simp: source_key_def hkey_of_def loc_of_def Let_def)
  then show "loc_of p = loc_of q" using plain_line_no(1) [OF assms(1)] assms(2,3) by metis
qed (simp add: akey_loc)

lemma acc_point_counts:
  "fst e = source_key key \<Longrightarrow> counts page (acc_point e) \<longleftrightarrow>
     page_of_key key = page \<and> \<not> (snd (snd (snd e)) \<noteq> None \<and> snd (snd (snd e)) \<noteq> Some [])"
  "item_hit (snd (acc_point e)) \<longleftrightarrow> 0 < fst (snd e)"
proof -
  obtain j c ts r where e: "e = (j, c, ts, r)" by (metis prod_cases4)
  obtain path lno pg sg num where j: "j = (path, lno, pg, sg, num)" by (metis prod_cases5)
  have counts: "counts page (acc_point e) \<longleftrightarrow> pg = page \<and> \<not> (snd (snd (snd e)) \<noteq> None \<and> snd (snd (snd e)) \<noteq> Some [])"
    by (simp add: acc_point_def e j counts_def waived_item_def)
  have "pg = page_of_key key" if "fst e = source_key key" using that akey_page [of key path lno pg sg num] by (simp add: e j)
  with counts show "fst e = source_key key \<Longrightarrow> counts page (acc_point e) \<longleftrightarrow> page_of_key key = page \<and> \<not> (snd (snd (snd e)) \<noteq> None \<and> snd (snd (snd e)) \<noteq> Some [])"
    by blast
  show "item_hit (snd (acc_point e)) \<longleftrightarrow> 0 < fst (snd e)" by (simp add: acc_point_def e j item_hit_def)
qed

text \<open>The points of the page: their keys, whether they were hit, and their reasons.\<close>

abbreviation html_points :: "str list \<Rightarrow> (str \<times> str) list \<Rightarrow> hpts" where
  "html_points pats dats \<equiv> table (\<lambda>p. hkey_of (fst (snd p))) inst_val (filter on_page (tagged_points pats dats))"

abbreviation html_reasons :: "(str \<Rightarrow> str option) \<Rightarrow> hpts \<Rightarrow> waivers \<Rightarrow> reasons" where
  "html_reasons fs pts wv \<equiv> fst (fold (reason_step fs) pts ([], wv))"

definition page_keys :: "str list \<Rightarrow> (str \<times> str) list \<Rightarrow> str set" where
  "page_keys pats dats = {key \<in> fst ` set (db_points pats (map snd dats)). page_of_key key \<in> set pages}"

lemma html_point_keys: "fst ` set (html_points pats dats) = hkey_of ` page_keys pats dats"
proof -
  have "key \<in> fst ` set (db_points pats (map snd dats)) \<longleftrightarrow> (\<exists>p \<in> set (tagged_points pats dats). fst (snd p) = key)" for key
    unfolding tagged_db [symmetric] by force
  then have "page_keys pats dats = (\<lambda>p. fst (snd p)) ` {p \<in> set (tagged_points pats dats). on_page p}"
    by (auto simp: page_keys_def on_page_def)
  then show ?thesis unfolding table_keys(1) by (simp add: image_image)
qed

lemma html_point_hit:
  assumes "(k, c, ts) \<in> set (html_points pats dats)"
  shows "0 < c \<longleftrightarrow> (\<exists>p \<in> set (db_points pats (map snd dats)). page_of_key (fst p) \<in> set pages \<and> hkey_of (fst p) = k \<and> 0 < cnt (snd p))"
proof -
  have "0 < c \<longleftrightarrow> (\<exists>p \<in> set (filter on_page (tagged_points pats dats)). hkey_of (fst (snd p)) = k \<and> 0 < cnt (snd (snd p)))"
    using table_hit [where h = "\<lambda>v. 0 < fst v" and hp = "\<lambda>p. 0 < cnt (snd (snd p))" and g = inst_val, OF _ _ assms]
    by (simp add: inst_val_def Let_def less_max_iff_disj split_beta)
  also have "\<dots> \<longleftrightarrow> (\<exists>p \<in> set (tagged_points pats dats). on_page p \<and> hkey_of (fst (snd p)) = k \<and> 0 < cnt (snd (snd p)))"
    unfolding set_filter by blast
  also have "\<dots> \<longleftrightarrow> (\<exists>p \<in> snd ` set (tagged_points pats dats). page_of_key (fst p) \<in> set pages \<and> hkey_of (fst p) = k \<and> 0 < cnt (snd p))"
    unfolding on_page_def bex_simps ..
  finally show ?thesis unfolding tagged_db .
qed

lemma html_point_reason:
  fixes fs pats dats wv
  assumes "srccache wv = []" and "reasoned wv" and "p \<in> set (html_points pats dats)" and "akey_of (fst p) = source_key key"
  defines "r \<equiv> map_of (html_reasons fs (html_points pats dats) wv) (fst p)"
  shows "(r \<noteq> None \<and> r \<noteq> Some []) \<longleftrightarrow> covered fs (items wv) key" "r \<noteq> Some []"
proof -
  have k: "fst p \<in> fst ` set (html_points pats dats)" using assms(3) by simp
  then obtain key' where k': "fst p = hkey_of key'" unfolding html_point_keys by blast
  then have "covered fs (items wv) key \<longleftrightarrow> hcovered fs (items wv) (fst p)"
    using assms(4) akey_covered [of key' key] by (simp add: source_key_def hcovered_key)
  with reasons_exact [OF assms(1,2) k, of fs] show "(r \<noteq> None \<and> r \<noteq> Some []) \<longleftrightarrow> covered fs (items wv) key" "r \<noteq> Some []"
    unfolding r_def by blast+
qed

text \<open>What an entry of a view's table says of a database key with the same key in the table.\<close>

definition stands_for :: "(str \<Rightarrow> str option) \<Rightarrow> waiver list \<Rightarrow> (str \<Rightarrow> bool) \<Rightarrow> 'k \<times> int \<times> str list \<times> str option \<Rightarrow> str \<Rightarrow> bool" where
  "stands_for fs ws hit e key \<longleftrightarrow> (0 < fst (snd e) \<longleftrightarrow> hit key) \<and>
     ((snd (snd (snd e)) \<noteq> None \<and> snd (snd (snd e)) \<noteq> Some []) \<longleftrightarrow> covered fs ws key)"

lemma accumulated_hit:
  assumes plain: "plain_database pats (map snd dats)" and "key \<in> page_keys pats dats"
  shows "(\<exists>q \<in> set (html_points pats dats). akey_of (fst q) = source_key key \<and> 0 < fst (snd q)) \<longleftrightarrow>
    hit_at (db_points pats (map snd dats)) (loc_of key)"
proof
  assume "\<exists>q \<in> set (html_points pats dats). akey_of (fst q) = source_key key \<and> 0 < fst (snd q)"
  then obtain h d us where q: "(h, d, us) \<in> set (html_points pats dats)" "akey_of h = source_key key" "0 < d" by auto
  with html_point_hit [OF q(1)] obtain p where p: "p \<in> set (db_points pats (map snd dats))" "hkey_of (fst p) = h" "0 < cnt (snd p)" by blast
  then have "loc_of (fst p) = loc_of key"
    using akey_inj [OF plain] q(2) assms(2) unfolding page_keys_def source_key_def by blast
  with p show "hit_at (db_points pats (map snd dats)) (loc_of key)" by (auto simp: hit_at_def)
next
  assume "hit_at (db_points pats (map snd dats)) (loc_of key)"
  then obtain p where p: "p \<in> set (db_points pats (map snd dats))" "loc_of (fst p) = loc_of key" "0 < cnt (snd p)" by (auto simp: hit_at_def)
  then have ak: "source_key (fst p) = source_key key" by (simp add: akey_loc)
  then have pg: "page_of_key (fst p) \<in> set pages" using assms(2) by (simp add: page_keys_def source_key_def hkey_of_def Let_def)
  then have "hkey_of (fst p) \<in> fst ` set (html_points pats dats)" unfolding html_point_keys page_keys_def using p(1) by blast
  then obtain d us where d: "(hkey_of (fst p), d, us) \<in> set (html_points pats dats)" by auto
  with html_point_hit [OF d] p(1,3) pg have "0 < d" by blast
  with d ak show "\<exists>q \<in> set (html_points pats dats). akey_of (fst q) = source_key key \<and> 0 < fst (snd q)"
    by (intro bexI [OF _ d]) (simp add: source_key_def)
qed

lemma accumulated_entry:
  fixes fs
  assumes plain: "plain_database pats (map snd dats)" and "srccache wv = []" and "reasoned wv"
  defines "acc \<equiv> table (akey_of \<circ> fst) (acc_item (html_reasons fs (html_points pats dats) wv)) (html_points pats dats)"
  assumes "e \<in> set acc" and "key \<in> page_keys pats dats" and "fst e = source_key key"
  shows "stands_for fs (items wv) (\<lambda>key. hit_at (db_points pats (map snd dats)) (loc_of key)) e key"
proof -
  let ?pts = "html_points pats dats" and ?rs = "html_reasons fs (html_points pats dats) wv"
  obtain c ts x where e: "e = (source_key key, c, ts, x)" using assms(7) by (metis prod.collapse)
  note mem = assms(5) [unfolded acc_def e]
  have "0 < c \<longleftrightarrow> (\<exists>q \<in> set ?pts. (akey_of \<circ> fst) q = source_key key \<and> 0 < fst (snd q))"
    using table_hit [where h = "\<lambda>v. 0 < fst v" and hp = "\<lambda>q. 0 < fst (snd q)" and g = "acc_item ?rs", OF _ _ mem]
    by (auto simp: acc_item_def less_max_iff_disj split_beta)
  with accumulated_hit [OF plain assms(6)]
  have hit: "0 < c \<longleftrightarrow> hit_at (db_points pats (map snd dats)) (loc_of key)" by simp
  let ?Q = "\<lambda>j v. j = source_key key \<longrightarrow> ((snd (snd v) \<noteq> None \<and> snd (snd v) \<noteq> Some []) \<longleftrightarrow> covered fs (items wv) key) \<and> snd (snd v) \<noteq> Some []"
  note r = html_point_reason [OF assms(2,3), of _ pats dats key fs]
  have "?Q (source_key key) (c, ts, x)"
    using mem
  proof (rule table_inv [where Q = ?Q, rotated 2])
    fix p assume "p \<in> set ?pts"
    from r [OF this] show "?Q ((akey_of \<circ> fst) p) (acc_item ?rs p None)"
      by (auto simp: acc_item_def split_beta)
  next
    fix p and v :: "int \<times> str list \<times> str option"
    assume "p \<in> set ?pts" and "?Q ((akey_of \<circ> fst) p) v"
    with r [OF this(1)] show "?Q ((akey_of \<circ> fst) p) (acc_item ?rs p (Some v))"
      by (cases "covered fs (items wv) key"; cases "snd (snd v)") (auto simp: acc_item_def both_reasons_def split_beta)
  qed
  with hit show ?thesis by (auto simp: e stands_for_def)
qed

text \<open>A view whose table has one entry per class of database keys counts those classes.\<close>

lemma view_counts:
  fixes point :: "'k \<times> int \<times> str list \<times> str option \<Rightarrow> (str \<times> str \<times> int) \<times> point_item"
  assumes "distinct (map fst es)" and "fst ` set es = f ` page_keys pats dats"
    and "\<And>e key. e \<in> set es \<Longrightarrow> key \<in> page_keys pats dats \<Longrightarrow> fst e = f key \<Longrightarrow> stands_for fs ws hit e key"
    and "\<And>e key. fst e = f key \<Longrightarrow> counts page (point e) \<longleftrightarrow>
      page_of_key key = page \<and> \<not> (snd (snd (snd e)) \<noteq> None \<and> snd (snd (snd e)) \<noteq> Some [])"
    and "\<And>e. item_hit (snd (point e)) \<longleftrightarrow> 0 < fst (snd e)" and "page \<in> set pages"
  shows "view_total (map point es) page =
    (card (f ` {key \<in> counted fs ws (db_points pats (map snd dats)) page. hit key}), card (f ` counted fs ws (db_points pats (map snd dats)) page))"
proof -
  let ?A = "\<lambda>key. page_of_key key = page \<and> \<not> covered fs ws key"
  have at: "(counts page (point e) \<longleftrightarrow> ?A key) \<and> (counts_hit page (point e) \<longleftrightarrow> ?A key \<and> hit key)"
    if "e \<in> set es" "key \<in> page_keys pats dats" "fst e = f key" for e key
    using assms(3) [OF that] assms(4) [OF that(3)] assms(5) [of e] unfolding counts_hit_def stands_for_def by blast
  have val: "\<exists>key \<in> page_keys pats dats. fst e = f key \<and> (counts page (point e) \<longleftrightarrow> ?A key) \<and> (counts_hit page (point e) \<longleftrightarrow> ?A key \<and> hit key)"
    if "e \<in> set es" for e
  proof -
    have "fst e \<in> f ` page_keys pats dats" using that unfolding assms(2) [symmetric] by (rule imageI)
    then obtain key where "key \<in> page_keys pats dats" "fst e = f key" by blast
    with at [OF that] show ?thesis by blast
  qed
  have key: "\<exists>e \<in> set es. fst e = f key \<and> (counts page (point e) \<longleftrightarrow> ?A key) \<and> (counts_hit page (point e) \<longleftrightarrow> ?A key \<and> hit key)"
    if "key \<in> page_keys pats dats" for key
  proof -
    have "f key \<in> fst ` set es" using that unfolding assms(2) by (rule imageI)
    then obtain e where "e \<in> set es" "fst e = f key" by (metis imageE)
    with at [OF this(1) that] show ?thesis by blast
  qed
  have all: "fst ` {e \<in> set es. counts page (point e)} = f ` {key \<in> page_keys pats dats. ?A key}"
    by (rule image_filter_eq) (use val key in blast)+
  have hits: "fst ` {e \<in> set es. counts_hit page (point e)} = f ` {key \<in> page_keys pats dats. ?A key \<and> hit key}"
    by (rule image_filter_eq) (use val key in blast)+
  have sets: "{key \<in> page_keys pats dats. ?A key} = counted fs ws (db_points pats (map snd dats)) page"
    "{key \<in> page_keys pats dats. ?A key \<and> hit key} = {key \<in> counted fs ws (db_points pats (map snd dats)) page. hit key}"
    using assms(6) by (auto simp: counted_def page_keys_def)
  have count: "length (filter P (map point es)) = card (fst ` {e \<in> set es. P (point e)})" for P
    using count_keys [OF assms(1), of "P \<circ> point"] by (simp add: filter_map comp_def)
  show ?thesis unfolding view_total_counts count hits all sets ..
qed

lemma page_totals:
  assumes "plain_database pats (map snd dats)" and "srccache wv = []" and "reasoned wv" and "page \<in> set pages"
  defines "db \<equiv> db_points pats (map snd dats)"
  shows "view_total (acc_view (html_reasons fs (html_points pats dats) wv) (html_points pats dats)) page =
    (card (source_key ` {key \<in> counted fs (items wv) db page. hit_at db (loc_of key)}), card (source_key ` counted fs (items wv) db page))"
  unfolding acc_view_table db_def
proof (rule view_counts [OF table_keys(2) _ _ acc_point_counts assms(4)])
  show "fst ` set (table (akey_of \<circ> fst) (acc_item (html_reasons fs (html_points pats dats) wv)) (html_points pats dats)) =
      source_key ` page_keys pats dats"
    unfolding table_keys(1) [of "akey_of \<circ> fst"] image_comp [symmetric] html_point_keys by (simp add: image_image source_key_def)
qed (rule accumulated_entry [OF assms(1-3)])

lemma card_akey:
  assumes "plain_database pats dats" and "K \<subseteq> fst ` set (db_points pats dats)"
  shows "card (source_key ` K) = card (loc_of ` K)"
proof -
  have "inj_on loc_akey (loc_of ` K)"
    using akey_inj [OF assms(1)] assms(2) by (intro inj_onI) (auto simp: subset_iff simp flip: akey_loc)
  moreover have "source_key ` K = loc_akey ` loc_of ` K" by (simp add: image_image akey_loc)
  ultimately show ?thesis by (simp add: card_image)
qed

lemma totals_agree:
  assumes "plain_database pats (map snd dats)" and "srccache wv = []" and "reasoned wv" and "page \<in> set pages"
    and "html_parse pats dats = Inr pts"
  shows "view_total (acc_view (fst (fold (reason_step fs) pts ([], wv))) pts) page =
    count_page page (filter (\<lambda>p. \<not> waived_by fs (items wv) p) (accumulate (parse pats (map snd dats))))"
proof -
  have pts: "pts = table (\<lambda>p. hkey_of (fst (snd p))) inst_val (filter on_page (tagged_points pats dats))"
    using assms(5) html_parse_table [OF assms(1)] by simp
  have "counted fs (items wv) db page \<subseteq> fst ` set db" "{key \<in> counted fs (items wv) db page. Q key} \<subseteq> fst ` set db" for db Q
    by (auto simp: counted_def)
  then show ?thesis
    unfolding pts page_totals [OF assms(1-4)] text_totals [OF assms(1)] by (simp add: card_akey [OF assms(1)])
qed

end
