(* ===== verification/ReportsAgree.thy ===== *)
theory ReportsAgree
  imports SameTotals
begin

text \<open>
  The two views of the two programs: \<open>cov_report.py\<close> and \<open>cov_html.py\<close> on the same databases, source locations
  and instances. The page identifies an instance by six fields of its database key, the text report by the
  key itself.
\<close>

subsection \<open>Instances in the text report\<close>

definition hit_key :: "(str \<times> pval) list \<Rightarrow> str \<Rightarrow> bool" where
  "hit_key db key \<longleftrightarrow> (\<exists>p \<in> set db. fst p = key \<and> 0 < cnt (snd p))"

text \<open>The line and the label stand in the key once, and no two keys agree in what the page reads of them.\<close>

definition instances_apart :: "str list \<Rightarrow> str list \<Rightarrow> bool" where
  "instances_apart pats dats \<longleftrightarrow>
     (\<forall>p \<in> set (db_points pats dats). first_field (''l'' @ [x02]) (fst p) = map_of (key_fields (fst p)) ''l'' \<and>
        first_field (''o'' @ [x02]) (fst p) = map_of (key_fields (fst p)) ''o'') \<and>
     inj_on hkey_of (fst ` set (db_points pats dats))"

lemma raw_waived:
  assumes "plain_database pats dats" and "instances_apart pats dats" and "key \<in> fst ` set (db_points pats dats)"
  shows "waived_by fs ws (Raw key, page_of_key key, get_or ''f'' [] (key_fields key), c) \<longleftrightarrow> covered fs ws key"
proof -
  have f: "first_field (''l'' @ [x02]) key = Some (int_str (line_of_key key))"
    "first_field (''o'' @ [x02]) key = map_of (key_fields key) ''o''"
    using assms(2,3) plain_line_no(2) [OF assms(1,3)] by (auto simp: instances_apart_def)
  then have "key_line (Raw key) = Inr (line_of_key key)" "key_sig (Raw key) = get_or ''o'' [] (key_fields key)"
    by (simp_all add: py_int_res_def get_or_def)
  then show ?thesis by (simp add: waived_by_def covered_def first_index_None)
qed

lemma raw_totals:
  assumes "plain_database pats dats" and "instances_apart pats dats"
  defines "db \<equiv> db_points pats dats"
  shows "count_page page (filter (\<lambda>p. \<not> waived_by fs ws p) (raw_points (parse pats dats))) =
    (card {key \<in> counted fs ws db page. hit_key db key}, card (counted fs ws db page))"
proof -
  let ?raw = "raw_points (parse_raw pats dats)"
  have dist: "distinct (map fst ?raw)"
    using distinct_parse_raw [of pats dats] by (simp add: raw_points_def comp_def split_beta distinct_map inj_on_def)
  have val: "\<exists>key \<in> fst ` set db. fst p = Raw key \<and> (fst (snd p) = page \<longleftrightarrow> page_of_key key = page) \<and>
      (0 < cnt (snd p) \<longleftrightarrow> hit_key db key) \<and> (waived_by fs ws p \<longleftrightarrow> covered fs ws key)" if p: "p \<in> set ?raw" for p
  proof -
    obtain key pg path c where e: "p = (Raw key, pg, path, c)" "(key, pg, path, c) \<in> set (parse_raw pats dats)"
      using p by (auto simp: raw_points_def)
    have k: "key \<in> fst ` set db" using e(2) unfolding db_def parse_raw_keys [symmetric] by force
    have "0 < c \<longleftrightarrow> hit_key db key" using parse_raw_count [OF e(2)] unfolding hit_key_def db_def by force
    with k parse_raw_fields [OF e(2)] raw_waived [OF assms(1,2) k [unfolded db_def], of fs ws c] show ?thesis
      unfolding e(1) by (intro bexI [OF _ k]) simp
  qed
  have key: "\<exists>p \<in> set ?raw. fst p = Raw key \<and> (fst (snd p) = page \<longleftrightarrow> page_of_key key = page) \<and>
      (0 < cnt (snd p) \<longleftrightarrow> hit_key db key) \<and> (waived_by fs ws p \<longleftrightarrow> covered fs ws key)" if k: "key \<in> fst ` set db" for key
  proof -
    obtain v where "(key, v) \<in> set (parse_raw pats dats)" using k unfolding db_def parse_raw_keys [symmetric] by force
    then have "(Raw key, v) \<in> set ?raw" by (force simp: raw_points_def)
    with val [OF this] show ?thesis by (intro bexI [of _ "(Raw key, v)"]) auto
  qed
  have hits: "fst ` {e \<in> set ?raw. \<not> waived_by fs ws e \<and> fst (snd e) = page \<and> 0 < cnt (snd e)} =
      Raw ` {key \<in> fst ` set db. page_of_key key = page \<and> \<not> covered fs ws key \<and> hit_key db key}"
    by (rule image_filter_eq) (use val key in \<open>metis (full_types)\<close>)+
  have all: "fst ` {e \<in> set ?raw. \<not> waived_by fs ws e \<and> fst (snd e) = page} =
      Raw ` {key \<in> fst ` set db. page_of_key key = page \<and> \<not> covered fs ws key}"
    by (rule image_filter_eq) (use val key in \<open>metis (full_types)\<close>)+
  have card: "card (Raw ` K) = card K" for K by (rule card_image) (simp add: inj_on_def)
  show ?thesis
    unfolding count_page_pair parse_plain [OF assms(1)] filter_filter count_keys [OF dist] hits all card counted_def mem_Collect_eq conj_assoc ..
qed

subsection \<open>Instances on the page\<close>

definition inst_item :: "reasons \<Rightarrow> hkey \<times> int \<times> str list \<Rightarrow> hkey \<times> int \<times> str list \<times> str option" where
  "inst_item rs p = (case p of (k, c, ts) \<Rightarrow> (k, c, ts, map_of rs k))"

definition inst_point :: "hkey \<times> int \<times> str list \<times> str option \<Rightarrow> (str \<times> str \<times> int) \<times> point_item" where
  "inst_point e = (case e of ((path, lno, page, sg, h, num, variant), c, ts, r) \<Rightarrow> ((path, page, lno), (sg, c, ts, r)))"

lemma inst_view_table: "inst_view rs pts = map inst_point (map (inst_item rs) pts)"
  by (simp add: inst_view_def inst_point_def inst_item_def split_beta)

lemma inst_point_counts:
  "fst e = hkey_of key \<Longrightarrow> counts page (inst_point e) \<longleftrightarrow>
     page_of_key key = page \<and> \<not> (snd (snd (snd e)) \<noteq> None \<and> snd (snd (snd e)) \<noteq> Some [])"
  "item_hit (snd (inst_point e)) \<longleftrightarrow> 0 < fst (snd e)"
proof -
  obtain j c ts r where e: "e = (j, c, ts, r)" by (metis prod_cases4)
  obtain path lno pg sg h num variant where j: "j = (path, lno, pg, sg, h, num, variant)" by (metis prod.collapse)
  have "counts page (inst_point e) \<longleftrightarrow> pg = page \<and> \<not> (snd (snd (snd e)) \<noteq> None \<and> snd (snd (snd e)) \<noteq> Some [])"
    by (simp add: inst_point_def e j counts_def waived_item_def)
  moreover have "pg = page_of_key key" if "fst e = hkey_of key" using that by (simp add: e j hkey_of_def Let_def)
  ultimately show "fst e = hkey_of key \<Longrightarrow> counts page (inst_point e) \<longleftrightarrow>
     page_of_key key = page \<and> \<not> (snd (snd (snd e)) \<noteq> None \<and> snd (snd (snd e)) \<noteq> Some [])" by blast
  show "item_hit (snd (inst_point e)) \<longleftrightarrow> 0 < fst (snd e)" by (simp add: inst_point_def e j item_hit_def)
qed

lemma inst_entry:
  assumes "instances_apart pats (map snd dats)" and "srccache wv = []" and "reasoned wv"
    and "e \<in> set (map (inst_item (html_reasons fs (html_points pats dats) wv)) (html_points pats dats))"
    and "key \<in> page_keys pats dats" and "fst e = hkey_of key"
  shows "stands_for fs (items wv) (hit_key (db_points pats (map snd dats))) e key"
proof -
  obtain c ts where p: "(hkey_of key, c, ts) \<in> set (html_points pats dats)"
    and e: "e = (hkey_of key, c, ts, map_of (html_reasons fs (html_points pats dats) wv) (hkey_of key))"
    using assms(4,6) by (auto simp: inst_item_def)
  have apart: "hkey_of q = hkey_of key \<longleftrightarrow> q = key" if "q \<in> fst ` set (db_points pats (map snd dats))" for q
    using assms(1,5) that by (auto simp: instances_apart_def page_keys_def inj_on_def)
  have "0 < c \<longleftrightarrow> hit_key (db_points pats (map snd dats)) key"
    using html_point_hit [OF p] assms(5) apart unfolding hit_key_def page_keys_def by (metis (lifting) imageI mem_Collect_eq)
  moreover have "akey_of (fst (hkey_of key, c, ts)) = source_key key" by (simp add: source_key_def)
  note html_point_reason [OF assms(2,3) p this, of fs]
  ultimately show ?thesis unfolding stands_for_def e fst_conv snd_conv by blast
qed

lemma inst_totals:
  assumes "instances_apart pats (map snd dats)" and "srccache wv = []" and "reasoned wv" and "page \<in> set pages"
  defines "db \<equiv> db_points pats (map snd dats)"
  shows "view_total (inst_view (html_reasons fs (html_points pats dats) wv) (html_points pats dats)) page =
    (card {key \<in> counted fs (items wv) db page. hit_key db key}, card (counted fs (items wv) db page))"
proof -
  have es: "map fst (map (inst_item rs) pts) = map fst pts" for rs pts by (simp add: inst_item_def split_beta)
  have "view_total (inst_view (html_reasons fs (html_points pats dats) wv) (html_points pats dats)) page =
      (card (hkey_of ` {key \<in> counted fs (items wv) db page. hit_key db key}), card (hkey_of ` counted fs (items wv) db page))"
    unfolding inst_view_table db_def
  proof (rule view_counts [OF _ _ _ inst_point_counts assms(4)])
    show "distinct (map fst (map (inst_item (html_reasons fs (html_points pats dats) wv)) (html_points pats dats)))"
      unfolding es by (rule table_keys(2))
    show "fst ` set (map (inst_item (html_reasons fs (html_points pats dats) wv)) (html_points pats dats)) = hkey_of ` page_keys pats dats"
      unfolding set_map [symmetric] es unfolding set_map html_point_keys ..
  qed (rule inst_entry [OF assms(1-3)])
  moreover have "card (hkey_of ` K) = card K" if "K \<subseteq> fst ` set db" for K
    using assms(1) that unfolding instances_apart_def db_def by (intro card_image) (auto intro: inj_on_subset)
  moreover have "{key \<in> counted fs (items wv) db page. Q key} \<subseteq> fst ` set db" "counted fs (items wv) db page \<subseteq> fst ` set db" for Q
    by (auto simp: counted_def)
  ultimately show ?thesis by simp
qed

subsection \<open>The two programs\<close>

text \<open>The line of the page's printout for one view, for given totals.\<close>

definition printed_line :: "str \<Rightarrow> (nat \<times> nat) list \<Rightarrow> str" where
  "printed_line label hfs =
     ''    '' @ ljust 13 label @ '' '' @
     join ''   '' (map (\<lambda>(page, h, f). page_label page @ '' '' @ nat_str h @ ''/'' @ nat_str f @ '' '' @ percent (h, f) @ ''%'') (zip pages hfs))"

lemma view_lines:
  "view_line (snd (build fs rs pts)) (''acc'', ''accumulated'') = printed_line ''accumulated'' (map (view_total (acc_view rs pts)) pages)"
  "view_line (snd (build fs rs pts)) (''inst'', ''per-instance'') = printed_line ''per-instance'' (map (view_total (inst_view rs pts)) pages)"
  by (simp_all add: build_def views_def build_view_def view_line_def printed_line_def pages_def)

lemma html_run_lines:
  assumes "html_main rxc fs mtime dats_of node size_of tpl wpath pats argv = Inr h" and "html_args argv = Inr (datdir, out)"
    and "h_exit h = 0"
  shows "\<exists>pts. html_parse pats (dats_of datdir) = Inr pts \<and>
    (\<forall>vl \<in> {(''acc'', ''accumulated''), (''inst'', ''per-instance'')}.
       view_line (snd (build fs (html_reasons fs pts (load_waivers rxc fs wpath)) pts)) vl \<in> set (h_lines h))"
proof -
  let ?wv = "load_waivers rxc fs wpath"
  have e: "errors ?wv = []"
    using assms by (rule_tac ccontr) (auto simp: html_main_def ended_def Let_def)
  obtain pts where pts: "html_parse pats (dats_of datdir) = Inr pts"
    using assms(1,2) e by (cases "html_parse pats (dats_of datdir)") (simp_all add: html_main_def Let_def)
  have ne: "pts \<noteq> []"
    using assms e pts by (auto simp: html_main_def ended_def Let_def)
  obtain rs wv1 where rs: "fold (reason_step fs) pts ([], ?wv) = (rs, wv1)" by fastforce
  obtain fls ts where b: "build fs rs pts = (fls, ts)" by fastforce
  obtain gaps wv2 where g: "fold (gap_step fs) pts ([], wv1) = (gaps, wv2)" by fastforce
  have "\<forall>vl \<in> {(''acc'', ''accumulated''), (''inst'', ''per-instance'')}. view_line ts vl \<in> set (h_lines h)"
    using assms(1,3) unfolding html_main_def assms(2) bind_res_simps prod.case Let_def pts rs b g
    by (auto simp: e ne bind_res_Inr_iff split: option.splits)
  with pts show ?thesis by (simp add: rs b)
qed

text \<open>The totals of the text report: the counts of the points no waiver covers.\<close>

lemma report_totals:
  assumes "main rxc fs mtime datfiles dats per_instance wpath pats = Inr (Report r)"
  shows "r_totals r = map (\<lambda>page. count_page page (filter (\<lambda>p. \<not> waived_by fs (items (load_waivers rxc fs wpath)) p)
    (if per_instance then raw_points (parse pats dats) else accumulate (parse pats dats)))) pages"
proof -
  let ?wv = "load_waivers rxc fs wpath" and ?pts = "if per_instance then raw_points (parse pats dats) else accumulate (parse pats dats)"
  have ok: "srccache ?wv = []" using set_ok_load_waivers [of rxc fs wpath] by (simp add: set_ok_def)
  have run: "main_report fs mtime datfiles ?wv ?pts = Inr (Report r)"
    using assms unfolding main_def Let_def by (simp only: split: if_split_asm) auto
  obtain kept waived wv1 where w: "waive_all fs ?wv ?pts = Inr (kept, waived, wv1)" and tot: "totals kept = Inr (r_totals r)"
    using run by (auto simp: main_report_def Let_def bind_res_Inr_iff split: if_split_asm)
  have "kept = filter (\<lambda>p. \<not> waived_by fs (items ?wv) p) ?pts"
    using waive_fold [OF _ _ refl w [unfolded waive_all_def]] ok by simp
  with tot show ?thesis unfolding totals_def total_of_count_page map_res_total_cells by (simp split: if_split_asm)
qed

text \<open>
  C9. Both programs on the same databases, with the same waivers and path patterns: when the databases hold
  no directed toggle points and no label with two columns, and every line number is written as a plain number,
  the totals the page's program prints for the accumulated view are those of the last row of the text report;
  and when no two keys agree in the fields the page reads, so are those of the per-instance view and of the
  report with \<open>--per-instance\<close>.
\<close>

theorem reports_agree:
  assumes "main rxc fs mtime datfiles (map snd dats) per_instance wpath pats = Inr (Report r)"
    and "html_args argv = Inr (datdir, out)" and "dats_of datdir = dats"
    and "html_main rxc fs mtime' dats_of node size_of tpl wpath pats argv = Inr h" and "h_exit h = 0"
    and "plain_database pats (map snd dats)" and "per_instance \<longrightarrow> instances_apart pats (map snd dats)"
    and "reasoned (load_waivers rxc fs wpath)"
  shows "printed_line (if per_instance then ''per-instance'' else ''accumulated'') (r_totals r) \<in> set (h_lines h)"
proof -
  let ?wv = "load_waivers rxc fs wpath" and ?pts = "html_points pats dats"
  have ok: "srccache ?wv = []" using set_ok_load_waivers [of rxc fs wpath] by (simp add: set_ok_def)
  note pts = html_parse_table [OF assms(6)]
  from html_run_lines [OF assms(4,2,5)]
  have lines: "printed_line ''accumulated'' (map (view_total (acc_view (html_reasons fs ?pts ?wv) ?pts)) pages) \<in> set (h_lines h)"
    "printed_line ''per-instance'' (map (view_total (inst_view (html_reasons fs ?pts ?wv) ?pts)) pages) \<in> set (h_lines h)"
    unfolding assms(3) pts by (simp_all add: view_lines)
  show ?thesis
  proof (cases per_instance)
    case True
    with assms(7) have apart: "instances_apart pats (map snd dats)" by simp
    from True have "r_totals r = map (view_total (inst_view (html_reasons fs ?pts ?wv) ?pts)) pages"
      using report_totals [OF assms(1)] raw_totals [OF assms(6) apart] inst_totals [OF apart ok assms(8)] by simp
    with True lines(2) show ?thesis by simp
  next
    case False
    then have "r_totals r = map (view_total (acc_view (html_reasons fs ?pts ?wv) ?pts)) pages"
      using report_totals [OF assms(1)] totals_agree [OF assms(6) ok assms(8) _ pts] by simp
    with False lines(1) show ?thesis by simp
  qed
qed

definition sample_point :: "str \<Rightarrow> str \<Rightarrow> str \<Rightarrow> str \<Rightarrow> str" where
  "sample_point page l sg c =
     ''C '' @ [CHR 0x27, x01] @ ''f'' @ [x02] @ ''/rtl/verilog/t.v'' @ [x01] @ ''l'' @ [x02] @ l @ [x01] @ ''n'' @ [x02] @ ''3'' @ [x01] @
     ''page'' @ [x02] @ page @ [x01] @ ''o'' @ [x02] @ sg @ [CHR 0x27] @ '' '' @ c"

definition sample_db :: str where
  "sample_db = join [nl] [sample_point ''v_line/t'' ''2'' ''block'' ''4'', sample_point ''v_branch/t'' ''2'' ''else'' ''0'',
     sample_point ''v_toggle/t'' ''2'' ''q'' ''1'', sample_point ''v_line/t'' ''7'' ''block'' ''0'', sample_point ''v_line/t__W2'' ''2'' ''block'' ''0'']"

definition sample_docs :: "str \<Rightarrow> str option" where
  "sample_docs p = (if p = ''w.md'' then Some sample_md else None)"

lemma sample_plain: "plain_database [''/rtl/verilog/''] [sample_db]"
proof -
  have "\<forall>p \<in> set (db_points [''/rtl/verilog/''] [sample_db]). base_key (fst p) = fst p \<and>
      map_of (key_fields (fst p)) ''l'' = Some (int_str (line_of_key (fst p))) \<and>
      map_of (key_fields (fst p)) ''n'' = Some ''3''" by code_simp
  then show ?thesis unfolding plain_database_def by metis
qed

lemma sample_doc_waivers: "errors (load_waivers (\<lambda>p. None) sample_docs (Some ''w.md'')) = []"
  "reasoned (load_waivers (\<lambda>p. None) sample_docs (Some ''w.md''))"
  unfolding reasoned_def by code_simp+

lemma sample_apart: "instances_apart [''/rtl/verilog/''] [sample_db]"
proof -
  have "\<forall>p \<in> set (db_points [''/rtl/verilog/''] [sample_db]). first_field (''l'' @ [x02]) (fst p) = map_of (key_fields (fst p)) ''l'' \<and>
      first_field (''o'' @ [x02]) (fst p) = map_of (key_fields (fst p)) ''o''" by code_simp
  moreover have "distinct (map hkey_of (map fst (db_points [''/rtl/verilog/''] [sample_db])))" by code_simp
  then have "inj_on hkey_of (set (map fst (db_points [''/rtl/verilog/''] [sample_db])))" by (simp only: distinct_map)
  ultimately show ?thesis by (simp add: instances_apart_def)
qed

lemma sample_reports:
  "\<exists>r. main (\<lambda>p. None) sample_docs (\<lambda>p. None) [''cov_a.dat''] (map snd [(''cov_a.dat'', sample_db)]) False (Some ''w.md'') [''/rtl/verilog/''] = Inr (Report r) \<and>
     r_totals r = [(1, 1), (0, 1), (1, 1)]"
  "\<exists>r. main (\<lambda>p. None) sample_docs (\<lambda>p. None) [''cov_a.dat''] (map snd [(''cov_a.dat'', sample_db)]) True (Some ''w.md'') [''/rtl/verilog/''] = Inr (Report r) \<and>
     r_totals r = [(1, 2), (0, 1), (1, 1)]"
proof -
  have "(case main (\<lambda>p. None) sample_docs (\<lambda>p. None) [''cov_a.dat''] [sample_db] False (Some ''w.md'') [''/rtl/verilog/''] of
      Inr (Report r) \<Rightarrow> r_totals r = [(1, 1), (0, 1), (1, 1)] | _ \<Rightarrow> False)"
    "(case main (\<lambda>p. None) sample_docs (\<lambda>p. None) [''cov_a.dat''] [sample_db] True (Some ''w.md'') [''/rtl/verilog/''] of
      Inr (Report r) \<Rightarrow> r_totals r = [(1, 2), (0, 1), (1, 1)] | _ \<Rightarrow> False)" by code_simp+
  then show
    "\<exists>r. main (\<lambda>p. None) sample_docs (\<lambda>p. None) [''cov_a.dat''] (map snd [(''cov_a.dat'', sample_db)]) False (Some ''w.md'') [''/rtl/verilog/''] = Inr (Report r) \<and>
       r_totals r = [(1, 1), (0, 1), (1, 1)]"
    "\<exists>r. main (\<lambda>p. None) sample_docs (\<lambda>p. None) [''cov_a.dat''] (map snd [(''cov_a.dat'', sample_db)]) True (Some ''w.md'') [''/rtl/verilog/''] = Inr (Report r) \<and>
       r_totals r = [(1, 2), (0, 1), (1, 1)]"
    by (auto split: sum.splits outcome.splits)
qed

lemma html_main_ends:
  assumes "html_args argv = Inr (datdir, out)" and "errors (load_waivers rxc fs wpath) = []"
    and "html_parse pats (dats_of datdir) = Inr pts" and "pts \<noteq> []"
  shows "\<exists>h. html_main rxc fs mtime dats_of None size_of tpl wpath pats argv = Inr h \<and> h_exit h = 0"
proof -
  obtain rs wv1 where rs: "fold (reason_step fs) pts ([], load_waivers rxc fs wpath) = (rs, wv1)" by fastforce
  obtain fls ts where b: "build fs rs pts = (fls, ts)" by fastforce
  obtain gaps wv2 where g: "fold (gap_step fs) pts ([], wv1) = (gaps, wv2)" by fastforce
  show ?thesis
    unfolding html_main_def assms(1) bind_res_simps prod.case Let_def assms(3) rs b g by (simp add: assms(2,4))
qed

theorem reports_agree_witness:
  "\<exists>h. html_main (\<lambda>p. None) sample_docs (\<lambda>p. None) (\<lambda>d. [(''cov_a.dat'', sample_db)]) None length ''page'' (Some ''w.md'')
      [''/rtl/verilog/''] [''cov_html.py'', ''dats''] = Inr h \<and>
    printed_line ''accumulated'' [(1, 1), (0, 1), (1, 1)] \<in> set (h_lines h) \<and>
    printed_line ''per-instance'' [(1, 2), (0, 1), (1, 1)] \<in> set (h_lines h)"
proof -
  have plain: "plain_database [''/rtl/verilog/''] (map snd [(''cov_a.dat'', sample_db)])"
    and apart: "b \<longrightarrow> instances_apart [''/rtl/verilog/''] (map snd [(''cov_a.dat'', sample_db)])" for b
    using sample_plain sample_apart by simp_all
  have args: "html_args [''cov_html.py'', ''dats''] = Inr (''dats'', ''coverage.html'')" by (simp add: html_args_def)
  have "case html_parse [''/rtl/verilog/''] [(''cov_a.dat'', sample_db)] of Inr pts \<Rightarrow> pts \<noteq> [] | Inl e \<Rightarrow> False" by code_simp
  then obtain pts where pts: "html_parse [''/rtl/verilog/''] [(''cov_a.dat'', sample_db)] = Inr pts" "pts \<noteq> []"
    by (auto split: sum.splits)
  obtain h where h: "html_main (\<lambda>p. None) sample_docs (\<lambda>p. None) (\<lambda>d. [(''cov_a.dat'', sample_db)]) None length ''page''
      (Some ''w.md'') [''/rtl/verilog/''] [''cov_html.py'', ''dats''] = Inr h" "h_exit h = 0"
    using html_main_ends [OF args sample_doc_waivers(1) pts] by blast
  note both = reports_agree [OF _ args refl h plain apart sample_doc_waivers(2)]
  from sample_reports both [where per_instance = False] both [where per_instance = True] h(1) show ?thesis by fastforce
qed

text \<open>
  The databases of a newer Verilator, which records the two directions of a toggle: the text report counts one
  bit that was not seen to fall as one point without a hit, the page counts two points of which one is hit.
\<close>

definition directed_db :: str where
  "directed_db = join [nl] [sample_point ''v_line/t'' ''2'' ''block'' ''4'', sample_point ''v_branch/t'' ''2'' ''else'' ''1'',
     sample_point ''v_toggle/t'' ''2'' ''q:0->1'' ''1'', sample_point ''v_toggle/t'' ''2'' ''q:1->0'' ''0'']"

lemma directed_totals_differ:
  "\<exists>r. main (\<lambda>p. None) sample_docs (\<lambda>p. None) [''cov_a.dat''] [directed_db] False None [''/rtl/verilog/''] = Inr (Report r) \<and>
     r_totals r = [(1, 1), (1, 1), (0, 1)]"
  "\<exists>pts. html_parse [''/rtl/verilog/''] [(''cov_a.dat'', directed_db)] = Inr pts \<and>
     map (view_total (acc_view [] pts)) pages = [(1, 1), (1, 1), (1, 2)]"
proof -
  have "(case main (\<lambda>p. None) sample_docs (\<lambda>p. None) [''cov_a.dat''] [directed_db] False None [''/rtl/verilog/''] of
      Inr (Report r) \<Rightarrow> r_totals r = [(1, 1), (1, 1), (0, 1)] | _ \<Rightarrow> False)"
    "(case html_parse [''/rtl/verilog/''] [(''cov_a.dat'', directed_db)] of
      Inr pts \<Rightarrow> map (view_total (acc_view [] pts)) pages = [(1, 1), (1, 1), (1, 2)] | _ \<Rightarrow> False)" by code_simp+
  then show
    "\<exists>r. main (\<lambda>p. None) sample_docs (\<lambda>p. None) [''cov_a.dat''] [directed_db] False None [''/rtl/verilog/''] = Inr (Report r) \<and>
       r_totals r = [(1, 1), (1, 1), (0, 1)]"
    "\<exists>pts. html_parse [''/rtl/verilog/''] [(''cov_a.dat'', directed_db)] = Inr pts \<and>
       map (view_total (acc_view [] pts)) pages = [(1, 1), (1, 1), (1, 2)]"
    by (auto split: sum.splits outcome.splits)
qed

end
