(* ===== verification/PageScript.thy ===== *)
theory PageScript
  imports CovHtml
begin

text \<open>
  The script of the page \<open>cov_html.py\<close> writes (the JavaScript in \<open>TEMPLATE\<close>), on the data the Python
  part puts there: the file list, the source pane, the walk over the holes and the suggestion box.
  A JavaScript string is a list of UTF-16 code units. The document is the part of it the script reads
  back: the rows of the source pane, the boxes and buttons with their texts. The locale's order of
  file names (\<open>localeCompare\<close>) is an argument, as a sort key. The tip window and the
  clipboard are added in \<open>PageWindow\<close>.
\<close>

subsection \<open>Strings and numbers\<close>

type_synonym jstr = "nat list"

definition units :: "str \<Rightarrow> jstr" where
  "units t = map of_char t"

definition jnat :: "nat \<Rightarrow> jstr" where
  "jnat n = units (nat_str n)"

definition jjoin :: "jstr \<Rightarrow> jstr list \<Rightarrow> jstr" where
  "jjoin sep ws = (case ws of [] \<Rightarrow> [] | w # vs \<Rightarrow> w @ concat (map (\<lambda>v. sep @ v) vs))"

text \<open>The signs the page uses: circled slash, dash, cross, tick, arrow, dots.\<close>

definition circle_slash :: jstr where "circle_slash = [0x2298]"
definition dash :: jstr where "dash = [0x2014]"
definition cross_sign :: jstr where "cross_sign = [0x2717]"
definition tick_sign :: jstr where "tick_sign = [0x2713]"
definition arrow_sign :: jstr where "arrow_sign = [0x2192]"
definition dots_sign :: jstr where "dots_sign = [0x2026]"

definition esc_unit :: "nat \<Rightarrow> jstr" where
  "esc_unit c =
     (if c = 38 then units ''&amp;'' else if c = 60 then units ''&lt;'' else if c = 62 then units ''&gt;''
      else if c = 34 then units ''&quot;'' else [c])"

definition esc :: "jstr \<Rightarrow> jstr" where
  "esc t = concat (map esc_unit t)"

text \<open>\<open>pct\<close>, and \<open>toFixed\<close>, which rounds a tie upwards.\<close>

definition pct :: "nat \<Rightarrow> nat \<Rightarrow> rat option" where
  "pct h t = (if t = 0 then None else Some (double (double (100 * of_nat h) / of_nat t)))"

definition to_fixed0 :: "rat \<Rightarrow> jstr" where
  "to_fixed0 x = units (int_str \<lfloor>x + 1 / 2\<rfloor>)"

definition to_fixed1 :: "rat \<Rightarrow> jstr" where
  "to_fixed1 x = (let n = \<lfloor>10 * x + 1 / 2\<rfloor> in units (int_str (n div 10) @ ''.'' @ int_str (n mod 10)))"

definition page_title :: "str \<Rightarrow> str" where
  "page_title p = (if p = ''v_line'' then ''Line'' else if p = ''v_branch'' then ''Branch'' else ''Toggle'')"

subsection \<open>The state of the page\<close>

text \<open>A row of the source pane: its line number, its classes and the text of its tip.\<close>

type_synonym src_row = "nat \<times> str list \<times> jstr"

record page_state =
  cur_page :: str
  cur_file :: "str option"
  cur_view :: str
  walk_waived :: bool
  src_rows :: "src_row list"
  hole_rows :: "nat list"
  hole_idx :: int
  no_suggest :: bool
  box_open :: bool
  box_section :: bool
  box_text :: jstr
  box_note :: jstr
  box_warn :: jstr

record site =
  data :: files
  grand :: vtotals
  suggest_map :: suggestions

definition page_of :: "site \<Rightarrow> page_state \<Rightarrow> str \<Rightarrow> page_data" where
  "page_of w st n = the (map_of (the (map_of (f_views (the (map_of (data w) n))) (cur_view st))) (cur_page st))"

subsection \<open>Buttons and file list\<close>

definition metric_button :: "site \<Rightarrow> page_state \<Rightarrow> str \<Rightarrow> jstr" where
  "metric_button w st p =
     (let (h, t) = the (map_of (the (map_of (grand w) (cur_view st))) p); v = pct h t
      in units (''<button data-p='' @ [dquote] @ p @ [dquote] @ '' class='' @ [dquote] @ (if p = cur_page st then ''on'' else []) @
           [dquote] @ ''>'' @ page_title p @ '' '') @
         (case v of None \<Rightarrow> units ''-'' | Some x \<Rightarrow> to_fixed1 x @ units ''%'') @ units ''</button>'')"

definition draw_metrics :: "site \<Rightarrow> page_state \<Rightarrow> jstr" where
  "draw_metrics w st = concat (map (metric_button w st) pages)"

type_synonym listed_file = "str \<times> rat option \<times> nat \<times> nat \<times> nat"

definition file_row :: "site \<Rightarrow> page_state \<Rightarrow> str \<Rightarrow> listed_file" where
  "file_row w st n = (let g = page_of w st n in (n, pct (p_hit g) (p_found g), p_hit g, p_found g, p_wv g))"

text \<open>Worst first: no points last, then by rate, then by name.\<close>

definition file_rows :: "(str \<Rightarrow> nat list) \<Rightarrow> site \<Rightarrow> page_state \<Rightarrow> listed_file list" where
  "file_rows coll w st =
     sort_key (\<lambda>(n, v, h, f, wv). (v = None, case v of None \<Rightarrow> 0 | Some x \<Rightarrow> x, coll n))
       (map (file_row w st) (map fst (data w)))"

definition pick_file :: "(str \<Rightarrow> nat list) \<Rightarrow> site \<Rightarrow> page_state \<Rightarrow> page_state" where
  "pick_file coll w st =
     (if (case cur_file st of None \<Rightarrow> True | Some n \<Rightarrow> map_of (data w) n = None)
      then st\<lparr>cur_file := (case file_rows coll w st of [] \<Rightarrow> None | r # rs \<Rightarrow> Some (fst r))\<rparr> else st)"

definition file_entry :: "page_state \<Rightarrow> listed_file \<Rightarrow> jstr" where
  "file_entry st r =
     (case r of (n, v, h, f, wv) \<Rightarrow>
        units (''<div class='' @ [dquote] @ ''f '' @ (if cur_file st = Some n then ''on'' else []) @ '' '' @
          (if v \<noteq> None \<and> the v < 100 then ''bad'' else []) @ [dquote] @ '' data-f='' @ [dquote] @ n @ [dquote] @ ''>'' @ [nl] @
          ''       <span class='' @ [dquote] @ ''fname'' @ [dquote] @ ''>'' @ n @ ''</span><span class='' @ [dquote] @ ''pct'' @ [dquote] @ ''>'' @
          ''<span class='' @ [dquote] @ ''cnt'' @ [dquote] @ ''>'' @ (if f \<noteq> 0 then nat_str h @ ''/'' @ nat_str f else ''-'') @ ''</span>'' @
          ''<span class='' @ [dquote] @ ''wvn'' @ [dquote] @ ''>'') @
        (if wv \<noteq> 0 then circle_slash @ jnat wv else []) @ units ''</span>'' @
        (case v of None \<Rightarrow> units ''-'' | Some x \<Rightarrow> to_fixed0 x @ units ''%'') @ units ''</span></div>'')"

definition draw_files :: "(str \<Rightarrow> nat list) \<Rightarrow> site \<Rightarrow> page_state \<Rightarrow> jstr" where
  "draw_files coll w st = concat (map (file_entry st) (file_rows coll w st))"

subsection \<open>The tip of a line\<close>

definition sum_counts :: "(str \<times> int \<times> nat \<times> str list option) list \<Rightarrow> (str \<times> int) list" where
  "sum_counts ds = fold (\<lambda>(k, c, n, ts) d. AList.update k ((case map_of d k of None \<Rightarrow> 0 | Some x \<Rightarrow> x) + c) d) ds []"

definition branch_note :: "line_data \<Rightarrow> jstr list" where
  "branch_note d =
     (case (map_of (sum_counts (l_detail d)) ''if'', map_of (sum_counts (l_detail d)) ''else'') of
        (Some i, Some e) \<Rightarrow>
          if e = 0 \<and> 0 < i then [units ''  '' @ arrow_sign @ units '' condition was ALWAYS TRUE (never once false)'']
          else if i = 0 \<and> 0 < e then [units ''  '' @ arrow_sign @ units '' condition was ALWAYS FALSE (never once true)'']
          else []
      | _ \<Rightarrow> [])"

text \<open>A label that is a name every JavaScript object has (such as \<open>constructor\<close>) is not expected.\<close>

definition point_title :: "str \<Rightarrow> str \<Rightarrow> str" where
  "point_title page k =
     (if page = ''v_branch'' \<and> k = ''if'' then ''true path''
      else if page = ''v_branch'' \<and> k = ''else'' then ''false path''
      else if k = [] then ''(point)'' else k)"

definition detail_tip :: "str \<Rightarrow> str \<times> int \<times> nat \<times> str list option \<Rightarrow> jstr" where
  "detail_tip page e =
     (case e of (k, c, n, ts) \<Rightarrow>
        if 0 < c then
          units ''  '' @ tick_sign @ units ('' '' @ point_title page k @ ''  '' @ nat_str n @ '' test'' @ (if n = 1 then [] else ''s'') @
            '', up to '' @ int_str c @ '' exec in one'' @
            (case ts of None \<Rightarrow> [] | Some l \<Rightarrow> nl # ''       '' @ join (nl # ''       '') l))
        else units ''  '' @ cross_sign @ units ('' '' @ point_title page k @ ''  never taken''))"

definition waived_tip :: "str \<times> int \<times> str \<Rightarrow> jstr list" where
  "waived_tip e =
     (case e of (k, c, r) \<Rightarrow>
        [units ''  '' @ circle_slash @ units ('' '' @ (if k = [] then ''(point)'' else k) @ ''  WAIVED'' @
           (if c \<noteq> 0 then [] else '' (was never reached)'')),
         units (''       '' @ r)])"

definition tip_text :: "page_state \<Rightarrow> nat \<Rightarrow> line_data \<Rightarrow> jstr" where
  "tip_text st n d =
     jjoin (units [nl])
       ([units (''line '' @ nat_str n @ '' '') @ dash @ units ('' '' @ page_title (cur_page st) @ '' '' @
           (if l_tot d = 0 then ''waived'' else nat_str (l_hit d) @ ''/'' @ nat_str (l_tot d)) @
           (if cur_view st = ''inst'' then ''  (per-instance)'' else []))] @
        (if cur_page st = ''v_branch'' then branch_note d else []) @
        map (detail_tip (cur_page st)) (l_detail d) @ concat (map waived_tip (l_waived d)) @
        (if length (l_detail d) = 40 then [units ''  '' @ dots_sign @ units '' (truncated)''] else []))"

subsection \<open>The source pane\<close>

definition summary_text :: "site \<Rightarrow> page_state \<Rightarrow> str \<Rightarrow> jstr" where
  "summary_text w st n =
     (let g = page_of w st n
      in units (f_path (the (map_of (data w) n)) @ ''  '') @ dash @
         units (''  '' @ page_title (cur_page st) @ '' '' @ nat_str (p_hit g) @ ''/'' @ nat_str (p_found g)) @
         (case pct (p_hit g) (p_found g) of
            None \<Rightarrow> units '' (no points)'' | Some x \<Rightarrow> units '' ('' @ to_fixed1 x @ units ''%)'') @
         (if p_wv g \<noteq> 0 then units ''   '' @ circle_slash @ units ('' '' @ nat_str (p_wv g) @ '' waived, excluded from the total'')
          else []))"

definition row_class :: "line_data option \<Rightarrow> str list" where
  "row_class ld =
     (case ld of
        None \<Rightarrow> []
      | Some d \<Rightarrow>
          if l_tot d = 0 then [''waived'']
          else (if l_hit d = 0 then ''miss'' else if l_hit d < l_tot d then ''part'' else ''hit'') #
               (if l_waived d \<noteq> [] then [''haswv''] else []))"

definition row_note :: "line_data option \<Rightarrow> jstr" where
  "row_note ld =
     (case ld of
        None \<Rightarrow> []
      | Some d \<Rightarrow>
          if l_tot d = 0 then units ''waived''
          else units (nat_str (l_hit d) @ ''/'' @ nat_str (l_tot d)) @
            (if l_waived d \<noteq> [] then units (''<span class='' @ [dquote] @ ''wmark'' @ [dquote] @ ''>'') @ circle_slash @
               jnat (length (l_waived d)) @ units ''</span>'' else []))"

definition row_signals :: "line_data option \<Rightarrow> jstr" where
  "row_signals ld =
     (case ld of
        None \<Rightarrow> []
      | Some d \<Rightarrow>
          if l_miss d = [] then []
          else units (nl # ''      <span class='' @ [dquote] @ ''sig'' @ [dquote] @ ''>'') @ cross_sign @ units '' '' @
            jjoin (units '', '') (map (\<lambda>m. esc (units m)) (l_miss d)) @ units ''</span>'')"

definition line_of_page :: "site \<Rightarrow> page_state \<Rightarrow> str \<Rightarrow> nat \<Rightarrow> line_data option" where
  "line_of_page w st n lno = map_of (p_lines (page_of w st n)) (int lno)"

definition row_tip :: "page_state \<Rightarrow> nat \<Rightarrow> line_data option \<Rightarrow> jstr" where
  "row_tip st lno ld = (case ld of None \<Rightarrow> [] | Some d \<Rightarrow> esc (tip_text st lno d))"

definition row_html :: "site \<Rightarrow> page_state \<Rightarrow> str \<Rightarrow> nat \<times> str \<Rightarrow> jstr" where
  "row_html w st n e =
     (let ld = line_of_page w st n (fst e)
      in units (''<tr class='' @ [dquote] @ join '' '' (row_class ld) @ [dquote] @ '' data-tip='' @ [dquote]) @ row_tip st (fst e) ld @
         units (dquote # ''><td class='' @ [dquote] @ ''n'' @ [dquote] @ ''>'') @ jnat (fst e) @
         units (''</td><td class='' @ [dquote] @ ''c'' @ [dquote] @ ''>'') @ row_note ld @
         units (''</td><td class='' @ [dquote] @ ''s'' @ [dquote] @ ''>'') @ esc (units (snd e)) @ row_signals ld @ units ''</td></tr>'')"

definition source_html :: "site \<Rightarrow> page_state \<Rightarrow> str \<Rightarrow> jstr" where
  "source_html w st n =
     units ''<table>'' @ concat (map (row_html w st n) (enumerate 1 (f_src (the (map_of (data w) n))))) @ units ''</table>''"

text \<open>The rows as the script reads them back from the document.\<close>

definition rows_of :: "site \<Rightarrow> page_state \<Rightarrow> str \<Rightarrow> src_row list" where
  "rows_of w st n =
     map (\<lambda>(lno, t). (lno, row_class (line_of_page w st n lno), row_tip st lno (line_of_page w st n lno)))
       (enumerate 1 (f_src (the (map_of (data w) n))))"

subsection \<open>The holes\<close>

definition is_hole :: "bool \<Rightarrow> src_row \<Rightarrow> bool" where
  "is_hole with_waived r \<longleftrightarrow>
     (\<exists>c \<in> set (fst (snd r)). c = ''miss'' \<or> c = ''part'' \<or> with_waived \<and> (c = ''waived'' \<or> c = ''haswv''))"

definition collect_holes :: "page_state \<Rightarrow> page_state" where
  "collect_holes st =
     st\<lparr>hole_rows := map fst (filter (is_hole (walk_waived st)) (src_rows st)), hole_idx := -1\<rparr>"

definition hole_count :: "page_state \<Rightarrow> str" where
  "hole_count st =
     (let n = length (hole_rows st); w = (if walk_waived st then ''point'' else ''hole'')
      in if n = 0 then ''no '' @ w @ ''s''
         else if 0 \<le> hole_idx st then w @ '' '' @ int_str (hole_idx st + 1) @ '' / '' @ nat_str n
         else nat_str n @ '' '' @ w @ (if n = 1 then [] else ''s''))"

definition draw_src :: "site \<Rightarrow> page_state \<Rightarrow> page_state" where
  "draw_src w st =
     (case cur_file st of None \<Rightarrow> st | Some n \<Rightarrow> collect_holes (st\<lparr>src_rows := rows_of w st n\<rparr>))"

definition hole_key :: "page_state \<Rightarrow> str option" where
  "hole_key st =
     (if hole_idx st < 0 \<or> hole_rows st = [] then None
      else (case cur_file st of
              None \<Rightarrow> None
            | Some n \<Rightarrow> Some (n @ '':'' @ nat_str (hole_rows st ! nat (hole_idx st)))))"

subsection \<open>Suggestions\<close>

text \<open>\<open>JSON.stringify\<close> of an entry.\<close>

definition stringify :: "entry \<Rightarrow> str" where
  "stringify e = json_render raw_quote '','' '':'' (entry_json e)"

definition fence_for :: "entry list \<Rightarrow> str" where
  "fence_for es = ''```json'' @ [nl] @ ''['' @ [nl] @ join ('','' @ [nl]) (map stringify es) @ [nl] @ '']'' @ [nl] @ ''```''"

definition section_notes :: "nat \<times> bool \<Rightarrow> str list" where
  "section_notes su =
     (if fst su \<noteq> 0
      then [nat_str (fst su) @ '' point(s) at this location are already COVERED and were left out.'' @ [nl] @
        ''     Do NOT widen the glob to include them -- --lint would call that BROAD.''] else []) @
     (if snd su then []
      else [''No unique text on this line, so the anchor is a LINE NUMBER.'' @ [nl] @
        ''     It will drift if the file is edited above this point.''])"

definition section_for :: "str \<Rightarrow> entry list \<times> nat \<times> bool \<Rightarrow> str" where
  "section_for key s =
     (let notes = section_notes (snd s)
      in ''## <SHORT TITLE: what makes this unreachable>'' @ [nl, nl] @ ''<!-- '' @ key @ '' -->'' @ [nl, nl] @
         ''<Explain the MECHANISM. Name the signal, line or parameter that makes this'' @ [nl] @
         ''impossible, so a reviewer can re-check the argument without re-deriving it.'' @ [nl] @
         [dquote] @ ''no test covers it'' @ [dquote] @ '' is a GAP, not a waiver.>'' @ [nl, nl] @
         (if notes \<noteq> [] then ''<!-- '' @ join ([nl, nl] @ ''     '') notes @ '' -->'' @ [nl, nl] else []) @
         fence_for (fst s) @ [nl])"

definition suggestion_warnings :: "nat \<times> bool \<Rightarrow> jstr" where
  "suggestion_warnings su =
     jjoin (units ''  '')
       ((if fst su \<noteq> 0 then [units (nat_str (fst su) @ '' point(s) here are already COVERED and were left out '') @ dash @
           units '' do not widen the glob to include them.''] else []) @
        (if snd su then []
         else [units (''No unique text on this line, so the anchor is a LINE NUMBER and will drift if the file is '' @ ''edited above it.'')]) @
        [units ''Replace <MECHANISM> with the reason this is unreachable '' @ dash @ units '' the loader rejects the placeholder.''])"

definition show_suggestion :: "site \<Rightarrow> bool \<Rightarrow> page_state \<Rightarrow> page_state" where
  "show_suggestion w as_section st =
     (case (case hole_key st of None \<Rightarrow> None | Some k \<Rightarrow> map_option (Pair k) (map_of (suggest_map w) k)) of
        None \<Rightarrow>
          st\<lparr>box_text := units (''No suggestion for this line.'' @ [nl, nl] @
               ''Either every point here is already covered or waived,'' @ [nl] @
               ''or the hole is a partial line whose uncovered points sit elsewhere.''),
             box_note := units (case hole_key st of None \<Rightarrow> [] | Some k \<Rightarrow> k), box_warn := [], box_open := True\<rparr>
      | Some (k, s) \<Rightarrow>
          st\<lparr>box_text := units (if as_section then section_for k s else fence_for (fst s)),
             box_note := units (k @ ''  '') @ dash @ units (if as_section then '' full Markdown section'' else '' fenced entries''),
             box_warn := suggestion_warnings (snd s), box_open := True\<rparr>)"

subsection \<open>Steps\<close>

text \<open>The remainder of JavaScript's \<open>%\<close>, which has the sign of the left operand.\<close>

definition js_rem :: "int \<Rightarrow> int \<Rightarrow> int" where
  "js_rem a n = (if 0 \<le> a then a mod n else - ((- a) mod n))"

definition goto_hole :: "site \<Rightarrow> int \<Rightarrow> page_state \<Rightarrow> page_state" where
  "goto_hole w delta st =
     (if hole_rows st = [] then st
      else
        (let n = int (length (hole_rows st)); st1 = st\<lparr>hole_idx := js_rem (hole_idx st + delta + n) n\<rparr>;
             st2 = st1\<lparr>no_suggest := (hole_key st1 = None)\<rparr>
         in if box_open st2 then show_suggestion w (box_section st2) st2 else st2))"

datatype event =
    Metric str | ClickFile str | PerInstance bool | WalkWaived bool
  | NextHole | PrevHole | WaiverButton | SectionButton | CloseBox

text \<open>What the user can do; the suggestion buttons work only when they are enabled.\<close>

fun page_step :: "(str \<Rightarrow> nat list) \<Rightarrow> site \<Rightarrow> event \<Rightarrow> page_state \<Rightarrow> page_state" where
  "page_step coll w (Metric p) st = draw_src w (pick_file coll w (st\<lparr>cur_page := p\<rparr>))"
| "page_step coll w (ClickFile n) st = draw_src w (pick_file coll w (st\<lparr>cur_file := Some n\<rparr>))"
| "page_step coll w (PerInstance b) st =
     draw_src w (pick_file coll w (st\<lparr>cur_view := if b then ''inst'' else ''acc''\<rparr>))"
| "page_step coll w (WalkWaived b) st = collect_holes (st\<lparr>walk_waived := b\<rparr>)"
| "page_step coll w NextHole st = goto_hole w 1 st"
| "page_step coll w PrevHole st = goto_hole w (-1) st"
| "page_step coll w WaiverButton st =
     (if no_suggest st then st else show_suggestion w False (st\<lparr>box_section := False\<rparr>))"
| "page_step coll w SectionButton st =
     (if no_suggest st then st else show_suggestion w True (st\<lparr>box_section := True\<rparr>))"
| "page_step coll w CloseBox st = st\<lparr>box_open := False\<rparr>"

definition page_start :: "(str \<Rightarrow> nat list) \<Rightarrow> site \<Rightarrow> page_state" where
  "page_start coll w =
     draw_src w (pick_file coll w
       \<lparr>cur_page = ''v_line'', cur_file = None, cur_view = ''acc'', walk_waived = False, src_rows = [], hole_rows = [],
        hole_idx = -1, no_suggest = True, box_open = False, box_section = False, box_text = [], box_note = [], box_warn = []\<rparr>)"

text \<open>The keys: a modifier or a focused input field switches them off.\<close>

definition key_event :: "bool \<Rightarrow> bool \<Rightarrow> str \<Rightarrow> event option" where
  "key_event in_input modifier key =
     (if in_input \<or> modifier then None
      else if key = ''n'' \<or> key = ''N'' then Some NextHole
      else if key = ''p'' \<or> key = ''P'' then Some PrevHole else None)"

inductive reachable_page :: "(str \<Rightarrow> nat list) \<Rightarrow> site \<Rightarrow> page_state \<Rightarrow> bool" for coll w where
  start: "reachable_page coll w (page_start coll w)"
| step: "reachable_page coll w st \<Longrightarrow> reachable_page coll w (page_step coll w ev st)"

subsection \<open>The walk over the holes\<close>

text \<open>The invariant: the holes are those of the rows on display, and the index stays inside them.\<close>

definition page_ok :: "site \<Rightarrow> page_state \<Rightarrow> bool" where
  "page_ok w st \<longleftrightarrow>
     (\<forall>n. cur_file st = Some n \<longrightarrow> src_rows st = rows_of w st n) \<and>
     hole_rows st = map fst (filter (is_hole (walk_waived st)) (src_rows st)) \<and>
     -1 \<le> hole_idx st \<and> hole_idx st < int (length (hole_rows st))"

lemma line_of_page_cong:
  "cur_page st = cur_page st' \<Longrightarrow> cur_view st = cur_view st' \<Longrightarrow> line_of_page w st n l = line_of_page w st' n l"
  by (simp add: line_of_page_def page_of_def)

lemma rows_of_cong:
  assumes "cur_page st = cur_page st'" "cur_view st = cur_view st'"
  shows "rows_of w st n = rows_of w st' n"
proof -
  have "row_tip st l ld = row_tip st' l ld" for l ld using assms by (simp add: row_tip_def tip_text_def split: option.split)
  then show ?thesis using line_of_page_cong [OF assms] by (simp add: rows_of_def)
qed

lemma show_suggestion_same [simp]:
  "cur_page (show_suggestion w b st) = cur_page st" "cur_view (show_suggestion w b st) = cur_view st"
  "cur_file (show_suggestion w b st) = cur_file st" "walk_waived (show_suggestion w b st) = walk_waived st"
  "src_rows (show_suggestion w b st) = src_rows st" "hole_rows (show_suggestion w b st) = hole_rows st"
  "hole_idx (show_suggestion w b st) = hole_idx st"
  by (simp_all add: show_suggestion_def split: option.split)

lemma goto_hole_same [simp]:
  "cur_page (goto_hole w b st) = cur_page st" "cur_view (goto_hole w b st) = cur_view st"
  "cur_file (goto_hole w b st) = cur_file st" "walk_waived (goto_hole w b st) = walk_waived st"
  "src_rows (goto_hole w b st) = src_rows st" "hole_rows (goto_hole w b st) = hole_rows st"
  by (simp_all add: goto_hole_def Let_def)

lemma goto_hole_idx:
  "hole_rows st \<noteq> [] \<Longrightarrow>
     hole_idx (goto_hole w b st) = js_rem (hole_idx st + b + int (length (hole_rows st))) (int (length (hole_rows st)))"
  by (simp add: goto_hole_def Let_def)

lemma page_okI:
  assumes "\<And>n. cur_file st = Some n \<Longrightarrow> src_rows st = rows_of w st n"
    and "hole_rows st = map fst (filter (is_hole (walk_waived st)) (src_rows st))"
    and "-1 \<le> hole_idx st" "hole_idx st < int (length (hole_rows st))"
  shows "page_ok w st"
  using assms by (simp add: page_ok_def)

lemma page_ok_same:
  assumes "page_ok w st" "cur_page st' = cur_page st" "cur_view st' = cur_view st" "cur_file st' = cur_file st"
    "walk_waived st' = walk_waived st" "src_rows st' = src_rows st" "hole_rows st' = hole_rows st"
    "-1 \<le> hole_idx st'" "hole_idx st' < int (length (hole_rows st'))"
  shows "page_ok w st'"
  using assms rows_of_cong [of st' st w] by (simp add: page_ok_def)

text \<open>Drawing establishes the part of the invariant that ties the rows to the file on display.\<close>

lemma draw_src_ok:
  assumes "hole_rows st = map fst (filter (is_hole (walk_waived st)) (src_rows st))"
    and "-1 \<le> hole_idx st" "hole_idx st < int (length (hole_rows st))"
  shows "page_ok w (draw_src w st)"
proof (cases "cur_file st")
  case None
  with assms show ?thesis by (simp add: draw_src_def page_ok_def)
next
  case (Some n)
  have "rows_of w (collect_holes (st\<lparr>src_rows := rows_of w st n\<rparr>)) n = rows_of w st n"
    by (rule rows_of_cong) (simp_all add: collect_holes_def)
  with Some show ?thesis by (simp add: draw_src_def page_ok_def collect_holes_def)
qed

lemma pick_file_same [simp]:
  "walk_waived (pick_file coll w st) = walk_waived st" "src_rows (pick_file coll w st) = src_rows st"
  "hole_rows (pick_file coll w st) = hole_rows st" "hole_idx (pick_file coll w st) = hole_idx st"
  by (simp_all add: pick_file_def)

lemma js_rem_bounds: "0 \<le> a \<Longrightarrow> 0 < n \<Longrightarrow> 0 \<le> js_rem a n \<and> js_rem a n < n"
  by (simp add: js_rem_def)

lemma goto_hole_ok:
  assumes "page_ok w st" "-1 \<le> b"
  shows "page_ok w (goto_hole w b st)"
proof (cases "hole_rows st = []")
  case True
  then show ?thesis using assms by (simp add: goto_hole_def)
next
  case False
  then have n: "0 < int (length (hole_rows st))" by simp
  have "-1 \<le> hole_idx st" using assms(1) unfolding page_ok_def by blast
  with n assms(2) have "0 \<le> hole_idx st + b + int (length (hole_rows st)) \<or> int (length (hole_rows st)) = 1" by linarith
  then have "-1 \<le> hole_idx (goto_hole w b st) \<and> hole_idx (goto_hole w b st) < int (length (hole_rows st))"
  proof
    assume "0 \<le> hole_idx st + b + int (length (hole_rows st))"
    from js_rem_bounds [OF this n] show ?thesis by (simp add: goto_hole_idx [OF False])
  next
    assume "int (length (hole_rows st)) = 1"
    then show ?thesis unfolding goto_hole_idx [OF False] js_rem_def by simp
  qed
  then show ?thesis using assms(1) by (intro page_ok_same [OF assms(1)]) simp_all
qed

lemma page_step_ok:
  assumes "page_ok w st"
  shows "page_ok w (page_step coll w ev st)"
proof -
  have same: "hole_rows st = map fst (filter (is_hole (walk_waived st)) (src_rows st))"
    "-1 \<le> hole_idx st" "hole_idx st < int (length (hole_rows st))"
    using assms unfolding page_ok_def by blast+
  show ?thesis
  proof (cases ev)
    case (WalkWaived b)
    have "rows_of w (st\<lparr>walk_waived := b, hole_rows := hs, hole_idx := i\<rparr>) n = rows_of w st n" for hs i n
      by (rule rows_of_cong) simp_all
    with WalkWaived assms show ?thesis by (simp add: page_ok_def collect_holes_def)
  qed (use same assms in \<open>auto intro!: draw_src_ok goto_hole_ok intro: page_ok_same simp: page_ok_same [OF assms]\<close>)
qed

lemma reachable_page_ok: "reachable_page coll w st \<Longrightarrow> page_ok w st"
proof (induction rule: reachable_page.induct)
  case start
  show ?case unfolding page_start_def by (rule draw_src_ok) simp_all
qed (rule page_step_ok)

lemma next_hole_idx:
  assumes "page_ok w st" "hole_rows st \<noteq> []"
  shows "hole_idx (goto_hole w 1 st) = (hole_idx st + 1) mod int (length (hole_rows st))"
proof -
  have "0 \<le> hole_idx st + 1" using assms(1) unfolding page_ok_def by linarith
  then show ?thesis using goto_hole_idx [OF assms(2), of w 1] by (simp add: js_rem_def del: add.assoc add_uminus_conv_diff)
qed

lemma next_holes:
  assumes "page_ok w st" "hole_rows st \<noteq> []"
  shows "page_ok w ((goto_hole w 1 ^^ k) st) \<and>
    hole_rows ((goto_hole w 1 ^^ k) st) = hole_rows st \<and>
    cur_file ((goto_hole w 1 ^^ k) st) = cur_file st \<and>
    hole_idx ((goto_hole w 1 ^^ Suc k) st) = (hole_idx st + int (Suc k)) mod int (length (hole_rows st))"
proof (induction k)
  case 0
  then show ?case using assms next_hole_idx [OF assms] by simp
next
  case (Suc k)
  let ?u = "(goto_hole w 1 ^^ Suc k) st"
  have u: "page_ok w ?u" "hole_rows ?u = hole_rows st" "cur_file ?u = cur_file st"
    using Suc goto_hole_ok [of w "(goto_hole w 1 ^^ k) st" 1] by simp_all
  have "hole_idx (goto_hole w 1 ?u) = (hole_idx ?u + 1) mod int (length (hole_rows ?u))"
    using u assms(2) by (intro next_hole_idx) simp_all
  also have "\<dots> = (hole_idx st + int (Suc (Suc k))) mod int (length (hole_rows st))"
    using Suc u(2) by (simp add: mod_simps algebra_simps)
  finally show ?case using u by simp
qed

text \<open>Within as many steps as there are holes the walk stands on any chosen one of them.\<close>

lemma next_reaches:
  assumes "page_ok w st" "i < length (hole_rows st)"
  shows "\<exists>k \<le> length (hole_rows st). hole_idx ((goto_hole w 1 ^^ k) st) = int i \<and>
    hole_rows ((goto_hole w 1 ^^ k) st) = hole_rows st \<and>
    cur_file ((goto_hole w 1 ^^ k) st) = cur_file st"
proof -
  define n where "n = int (length (hole_rows st))"
  have n: "0 < n" "hole_rows st \<noteq> []" and i: "int i < n" using assms(2) by (auto simp: n_def)
  define j where "j = nat ((int i - hole_idx st - 1) mod n)"
  have j: "int j = (int i - hole_idx st - 1) mod n" using n by (simp add: j_def)
  with n have "int j < n" by simp
  then have le: "Suc j \<le> length (hole_rows st)" by (simp add: n_def)
  have "(hole_idx st + int (Suc j)) mod n = (hole_idx st + 1 + (int i - hole_idx st - 1) mod n) mod n"
    using j by (simp add: algebra_simps)
  also have "\<dots> = int i" using i by (simp add: mod_simps)
  finally have "hole_idx ((goto_hole w 1 ^^ Suc j) st) = int i"
    using next_holes [OF assms(1) n(2), of j] by (simp add: n_def)
  then show ?thesis using next_holes [OF assms(1) n(2), of "Suc j"] le by blast
qed

lemma uncovered_line_is_hole:
  assumes "page_ok w st" "cur_file st = Some n" "0 < l" "l \<le> length (f_src (the (map_of (data w) n)))"
    "line_of_page w st n l = Some d" "l_hit d < l_tot d"
  shows "l \<in> set (hole_rows st)"
proof -
  let ?src = "f_src (the (map_of (data w) n))"
  let ?r = "(l, row_class (Some d), row_tip st l (Some d))"
  have "(l, ?src ! (l - 1)) \<in> set (enumerate 1 ?src)"
    using assms(3,4) by (auto simp: in_set_enumerate_eq)
  then have "?r \<in> set (rows_of w st n)"
    unfolding rows_of_def using assms(5) by (force intro: rev_image_eqI)
  moreover have "is_hole (walk_waived st) ?r" using assms(6) by (simp add: is_hole_def row_class_def)
  ultimately have "l \<in> fst ` set (filter (is_hole (walk_waived st)) (src_rows st))"
    using assms(1,2) unfolding page_ok_def by (force intro: rev_image_eqI)
  then show ?thesis using assms(1) unfolding page_ok_def by (metis set_map)
qed

text \<open>
  C38. Whatever the user did before, pressing Next at most as often as the page has holes puts the
  walk on any line of the displayed file that has a point without a hit.
\<close>

theorem every_hole_is_visited:
  assumes "reachable_page coll w st" "cur_file st = Some n" "0 < l" "l \<le> length (f_src (the (map_of (data w) n)))"
    and "line_of_page w st n l = Some d" "l_hit d < l_tot d"
  shows "\<exists>k \<le> length (hole_rows st). hole_key ((page_step coll w NextHole ^^ k) st) = Some (n @ '':'' @ nat_str l)"
proof -
  have ok: "page_ok w st" using assms(1) by (rule reachable_page_ok)
  from uncovered_line_is_hole [OF ok assms(2-6)]
  obtain i where i: "i < length (hole_rows st)" "hole_rows st ! i = l" by (meson in_set_conv_nth)
  obtain k where "k \<le> length (hole_rows st)" and
    k: "hole_idx ((goto_hole w 1 ^^ k) st) = int i \<and> hole_rows ((goto_hole w 1 ^^ k) st) = hole_rows st \<and>
      cur_file ((goto_hole w 1 ^^ k) st) = cur_file st"
    using next_reaches [OF ok i(1)] by blast
  moreover have "page_step coll w NextHole = goto_hole w 1" by (rule ext) simp
  moreover have "hole_rows st \<noteq> []" using i(1) by auto
  ultimately show ?thesis using assms(2) i(2) by (intro exI [of _ k]) (simp add: hole_key_def)
qed

definition two_holes :: site where
  "two_holes =
     (let g = \<lparr>p_lines = [(1, \<lparr>l_hit = 0, l_tot = 1, l_miss = [], l_detail = [], l_waived = []\<rparr>),
                (3, \<lparr>l_hit = 1, l_tot = 2, l_miss = [], l_detail = [], l_waived = []\<rparr>)], p_hit = 1, p_found = 3, p_wv = 0\<rparr>
      in \<lparr>data = [(''a.v'', \<lparr>f_path = ''rtl/a.v'', f_src = [''x'', ''y'', ''z''], f_views = [(''acc'', [(''v_line'', g)])]\<rparr>)],
          grand = [(''acc'', [(''v_line'', 1, 3)])], suggest_map = []\<rparr>)"

lemma every_hole_is_visited_witness:
  "\<exists>k \<le> length (hole_rows (page_start (\<lambda>n. []) two_holes)).
     hole_key ((page_step (\<lambda>n. []) two_holes NextHole ^^ k) (page_start (\<lambda>n. []) two_holes)) = Some ''a.v:3''"
proof -
  let ?st = "page_start (\<lambda>n. []) two_holes"
  have "cur_file ?st = Some ''a.v'' \<and> cur_page ?st = ''v_line'' \<and> cur_view ?st = ''acc''"
    by (simp add: page_start_def draw_src_def pick_file_def collect_holes_def file_rows_def file_row_def Let_def two_holes_def)
  moreover have "3 \<le> length (f_src (the (map_of (data two_holes) ''a.v'')))" by (simp add: two_holes_def Let_def)
  moreover from calculation have "line_of_page two_holes ?st ''a.v'' 3 = Some \<lparr>l_hit = 1, l_tot = 2, l_miss = [], l_detail = [], l_waived = []\<rparr>"
    by (simp add: two_holes_def line_of_page_def page_of_def Let_def)
  ultimately have "\<exists>k \<le> length (hole_rows ?st).
      hole_key ((page_step (\<lambda>n. []) two_holes NextHole ^^ k) ?st) = Some (''a.v'' @ '':'' @ nat_str 3)"
    by (intro every_hole_is_visited [OF reachable_page.start,
          where d = "\<lparr>l_hit = 1, l_tot = 2, l_miss = [], l_detail = [], l_waived = []\<rparr>"]) simp_all
  moreover have "''a.v'' @ '':'' @ nat_str 3 = ''a.v:3''" by code_simp
  ultimately show ?thesis by simp
qed

text \<open>
  The first press of Previous after a file is drawn lands on the hole before the last one, since the
  index starts at \<open>-1\<close>.
\<close>

lemma first_previous:
  assumes "hole_idx st = -1" "2 \<le> length (hole_rows st)"
  shows "hole_idx (page_step coll w PrevHole st) = int (length (hole_rows st)) - 2"
proof -
  let ?n = "int (length (hole_rows st))"
  have "hole_rows st \<noteq> []" using assms(2) by auto
  have "(-2) mod ?n = (-2 + ?n) mod ?n" by (rule mod_add_self2 [symmetric])
  also have "\<dots> = (?n - 2) mod ?n" by (simp only: diff_conv_add_uminus add.commute)
  also have "\<dots> = ?n - 2" using assms(2) by (intro mod_pos_pos_trivial) simp_all
  finally have "(-2) mod ?n = ?n - 2" .
  then show ?thesis using goto_hole_idx [OF \<open>hole_rows st \<noteq> []\<close>, of w "-1"] assms by (simp add: js_rem_def)
qed

end
