(* ===== verification/CovConst.thy ===== *)
theory CovConst
  imports ConstNetlist CovReport
begin

text \<open>
  The main program of \<open>cov_const.py\<close>: which uncovered toggle bits are constant by construction, by
  Yosys or by the text parser, the waiver entries for them, and the generated section of the waiver
  document. The files are an argument \<open>fs\<close>, Yosys is an argument (\<open>None\<close> when it is not installed)
  and the points are what \<open>cov_report.parse\<close> returns.
\<close>

definition begin_mark :: str where
  "begin_mark = ''<!-- BEGIN generated by cov_const.py: do not edit by hand -->''"

definition end_mark :: str where
  "end_mark = ''<!-- END generated by cov_const.py -->''"

text \<open>\<open>re.escape(BEGIN) + '.*?' + re.escape(END)\<close> under \<open>re.S\<close>\<close>

definition section_rx :: rx where
  "section_rx = seqs [lit begin_mark, lazy any_char, lit end_mark]"

definition manual_part :: "str \<Rightarrow> str" where
  "manual_part t = re_sub section_rx (\<lambda>m. []) t"

subsection \<open>Holes\<close>

text \<open>The hand-written waivers are read back from a temporary Markdown file beside the document.\<close>

definition hand_waivers :: "(str \<Rightarrow> rx option) \<Rightarrow> (str \<Rightarrow> str option) \<Rightarrow> str \<Rightarrow> waivers" where
  "hand_waivers rxc fs wpath =
     (case fs wpath of
        None \<Rightarrow> no_waivers
      | Some t \<Rightarrow>
          (let tmp = take (length wpath - 3) wpath @ ''.manual.tmp.md''
           in load_waivers rxc (fs(tmp := Some (manual_part t))) (Some tmp)))"

type_synonym hole = "str \<times> int \<times> str"

definition toggle_count :: "rec5 \<Rightarrow> (hole \<times> int) list \<Rightarrow> (hole \<times> int) list" where
  "toggle_count r acc =
     (case r of (page, path, lno, sg, n) \<Rightarrow>
        if page = ''v_toggle'' then
          AList.update (path, lno, sg) (max (case map_of acc (path, lno, sg) of None \<Rightarrow> 0 | Some c \<Rightarrow> c) n) acc
        else acc)"

definition hole_step :: "(str \<Rightarrow> str option) \<Rightarrow> hole \<times> int \<Rightarrow> hole list \<times> waivers \<Rightarrow> hole list \<times> waivers" where
  "hole_step fs hc st =
     (case hc of ((p, l, sg), c) \<Rightarrow> case st of (hs, wv) \<Rightarrow>
        if c \<noteq> 0 then (hs, wv)
        else (case match fs p l ''v_toggle'' sg wv of
                (None, wv1) \<Rightarrow> (hs @ [(p, l, sg)], wv1)
              | (Some w, wv1) \<Rightarrow> (hs, wv1)))"

definition find_holes :: "(str \<Rightarrow> str option) \<Rightarrow> waivers \<Rightarrow> rec5 list \<Rightarrow> hole list" where
  "find_holes fs wv recs = fst (fold (hole_step fs) (fold toggle_count recs []) ([], wv))"

subsection \<open>The name of a hole\<close>

text \<open>\<open>^(\w+)(?:\[(\d+)\])?$\<close>, the element of an array, and the scoped name.\<close>

definition opt_index :: "nat \<Rightarrow> rx" where
  "opt_index g = opt (seqs [lit ''['', Group g (plus digit), lit '']''])"

definition scope_rx :: rx where
  "scope_rx = seqs [plus word_char, opt (seqs [lit ''['', plus digit, lit '']'']), lit ''.'']"

definition vector_sig_rx :: rx where
  "vector_sig_rx = seqs [Bol, Group 1 (plus word_char), opt_index 2, Eol]"

definition array_sig_rx :: rx where
  "array_sig_rx = seqs [Bol, Group 1 (Seq (star scope_rx) (plus word_char)), lit ''['', Group 2 (plus digit), lit '']'',
     lit ''['', Group 3 (plus digit), lit '']'', Eol]"

definition scoped_sig_rx :: rx where
  "scoped_sig_rx = seqs [Bol, Group 1 (Seq (plus scope_rx) (plus word_char)), opt_index 2, Eol]"

definition module_consts :: "constants \<Rightarrow> str \<Rightarrow> (str \<times> cbits) list" where
  "module_consts ycon path =
     (case map_of ycon (take (length (basename path) - 2) (basename path)) of None \<Rightarrow> [] | Some d \<Rightarrow> d)"

text \<open>\<open>m.group(1)\<close>, \<open>base\<close> and \<open>bit\<close>; \<open>None\<close> for a name that is not parsed.\<close>

definition locate :: "constants option \<Rightarrow> str \<Rightarrow> str \<Rightarrow> (str \<times> str \<times> nat) option" where
  "locate ycon path sg =
     (case (re_match array_sig_rx sg, re_match scoped_sig_rx sg, ycon) of
        (Some m, _, Some y) \<Rightarrow>
          Some (group_text m 1, group_text m 1 @ ''['' @ group_text m 2 @ '']'', group_nat m 3)
      | (None, Some m, Some y) \<Rightarrow> Some (group_text m 1, group_text m 1, group_nat m 2)
      | _ \<Rightarrow>
          (case re_match vector_sig_rx sg of
             None \<Rightarrow> None
           | Some m \<Rightarrow>
               (let el = group_text m 1 @ ''['' @ group_text m 2 @ '']''
                in if group m 2 \<noteq> None \<and> (case ycon of None \<Rightarrow> False | Some y \<Rightarrow> map_of (module_consts y path) el \<noteq> None)
                   then Some (group_text m 1, el, 0)
                   else Some (group_text m 1, group_text m 1, group_nat m 2))))"

subsection \<open>Judging a hole\<close>

record findings =
  stats :: "(str \<times> nat) list"
  const_bits :: "hole list"
  whys :: "((str \<times> int) \<times> str) list"

definition count_stat :: "str \<Rightarrow> findings \<Rightarrow> findings" where
  "count_stat k st = st\<lparr>stats := bump k (stats st)\<rparr>"

definition note_const :: "hole \<Rightarrow> str \<Rightarrow> findings \<Rightarrow> findings" where
  "note_const h reason st =
     (case h of (path, lno, vsig) \<Rightarrow>
        (count_stat ''constant'' st)\<lparr>const_bits := List.insert h (const_bits st),
          whys := AList.update (path, lno) reason (whys st)\<rparr>)"

definition place :: "str \<Rightarrow> int \<Rightarrow> str" where
  "place path n = basename path @ '':'' @ int_str n"

definition yosys_reason :: "str list \<Rightarrow> source \<Rightarrow> str \<Rightarrow> str \<Rightarrow> int \<Rightarrow> str" where
  "yosys_reason labels src name path lno =
     (let atl = (case drivers_of src name of [d] \<Rightarrow> int (fst d) | _ \<Rightarrow> lno)
      in ''constant by construction: tied to a constant in every coverage '' @
         ''configuration ('' @ join '', '' labels @ ''), driver at '' @ place path atl)"

text \<open>\<open>flags[i]\<close> for a Python index.\<close>

definition py_nth :: "'a list \<Rightarrow> int \<Rightarrow> 'a res" where
  "py_nth xs i =
     (let j = (if i < 0 then i + int (length xs) else i)
      in if 0 \<le> j \<and> j < int (length xs) then Inr (xs ! nat j) else Inl IndexError)"

definition text_verdict :: "nat \<Rightarrow> source \<Rightarrow> str \<Rightarrow> nat \<Rightarrow> (str + nat) res" where
  "text_verdict limit src base b =
     (case drivers_of src base of
        [d] \<Rightarrow>
          if procedurally_assigned src base then Inr (Inl ''no single continuous driver'')
          else if in_generate src (fst d) then Inr (Inl ''driver inside a generate region'')
          else
            (let (hi, lo) = width_of src base
             in bind_res (concat_flags limit src (snd d)) (\<lambda>r. case r of
                  None \<Rightarrow> Inr (Inl ''expression not parsed'')
                | Some flags \<Rightarrow>
                    if int (length flags) \<noteq> hi - lo + 1 then Inr (Inl ''expression not parsed'')
                    else bind_res (py_nth flags (hi - int b)) (\<lambda>f.
                           Inr (if f then Inr (fst d) else Inl ''bit is not constant''))))
      | _ \<Rightarrow> Inr (Inl ''no single continuous driver''))"

definition judge ::
    "nat \<Rightarrow> (str \<Rightarrow> str option) \<Rightarrow> (constants \<times> str list) option \<Rightarrow> hole \<Rightarrow> findings \<Rightarrow> findings res" where
  "judge limit fs ycon h st =
     (case h of (path, lno, vsig) \<Rightarrow>
        case locate (map_option fst ycon) path (replace_all ''__05F'' ''_'' vsig) of
          None \<Rightarrow> Inr (count_stat ''unparsed name'' st)
        | Some (name, base, b) \<Rightarrow>
            (case fs path of
               None \<Rightarrow> Inl (RuntimeError ''FileNotFoundError'')
             | Some raw \<Rightarrow>
                 (let src = read_source raw
                  in case ycon of
                       Some (y, labels) \<Rightarrow>
                         if (case map_of (module_consts y path) base of None \<Rightarrow> False | Some c \<Rightarrow> b \<in> fst c)
                         then Inr (note_const h (yosys_reason labels src name path lno) st)
                         else Inr (count_stat ''not constant'' st)
                     | None \<Rightarrow>
                         bind_res (text_verdict limit src base b) (\<lambda>v. Inr (case v of
                             Inl k \<Rightarrow> count_stat k st
                           | Inr atl \<Rightarrow> note_const h
                               (''constant by construction: literal bits of the assignment at '' @ place path (int atl)) st)))))"

subsection \<open>The entries\<close>

definition fake_records :: "hole list \<Rightarrow> str \<Rightarrow> int \<Rightarrow> rec5 list \<Rightarrow> rec5 list" where
  "fake_records consts path lno recs =
     map (\<lambda>(pg, pa, l2, sg, c).
            (pg, pa, l2, sg, if (pa, l2, sg) \<in> set consts \<or> pg \<noteq> ''v_toggle'' then c else max c 1))
       (filter (\<lambda>(pg, pa, l2, sg, c). pa = path \<and> l2 = lno) recs)"

definition entries_at :: "(str \<Rightarrow> str option) \<Rightarrow> findings \<Rightarrow> rec5 list \<Rightarrow> str \<times> int \<Rightarrow> entry list res" where
  "entries_at fs st recs pl =
     (case pl of (path, lno) \<Rightarrow>
        bind_res (suggest_entries fs (fake_records (const_bits st) path lno recs) (basename path) (int_str lno)
            (Some ''toggle''))
          (\<lambda>(es, skipped, literal).
             Inr (map (\<lambda>e. e\<lparr>e_folded := None, e_why := the (map_of (whys st) (path, lno))\<rparr>) es)))"

definition const_entries :: "(str \<Rightarrow> str option) \<Rightarrow> findings \<Rightarrow> rec5 list \<Rightarrow> entry list res" where
  "const_entries fs st recs =
     bind_res (map_res (entries_at fs st recs) (sort (remdups (map (\<lambda>(p, l, sg). (p, l)) (const_bits st)))))
       (\<lambda>ess. Inr (concat ess))"

subsection \<open>The generated section\<close>

text \<open>
  The replacement text of \<open>re.sub\<close> is a template: a backslash pair stands for one backslash, an
  escape letter for its character, any other letter or digit is an error. \<open>json.dumps\<close> writes no
  backslash before a digit or a \<open>g\<close>.
\<close>

definition template_escape :: "char \<Rightarrow> str option" where
  "template_escape c =
     (if c = bslash then Some [bslash]
      else if c = CHR ''a'' then Some [CHR 0x07] else if c = CHR ''b'' then Some [CHR 0x08]
      else if c = CHR ''f'' then Some [CHR 0x0C] else if c = CHR ''n'' then Some [nl]
      else if c = CHR ''r'' then Some [CHR 0x0D] else if c = CHR ''t'' then Some [CHR 0x09]
      else if c = CHR ''v'' then Some [CHR 0x0B]
      else if is_alpha_ascii c \<or> is_digit c then None else Some [bslash, c])"

fun template :: "str \<Rightarrow> str res" where
  "template [] = Inr []"
| "template [c] = (if c = bslash then Inl (RuntimeError ''re.error'') else Inr [c])"
| "template (c # d # s) =
     (if c = bslash then
        (case template_escape d of
           None \<Rightarrow> Inl (RuntimeError ''re.error'')
         | Some t \<Rightarrow> bind_res (template s) (\<lambda>r. Inr (t @ r)))
      else bind_res (template (d # s)) (\<lambda>r. Inr (c # r)))"

definition section_lines :: "entry list \<Rightarrow> str list" where
  "section_lines es =
     [begin_mark, [], ''## Constant by construction (generated)'', [],
      ''Bits tied to a constant in every coverage configuration (Yosys elaboration),'',
      ''or, without Yosys, sized literals or parameters in their only continuous driver.'',
      ''Regenerate with `../bin/cov_const.py cov/dats --write` after an RTL change; '' @
        ''`--lint` flags any that went stale.'', [], ''```json'', ''['',
      join ('','' @ [nl]) (map (\<lambda>e. json_render raw_quote '','' '':'' (entry_json e)) es),
      '']'', ''```'', [], end_mark]"

definition write_section :: "str \<Rightarrow> str \<Rightarrow> str res" where
  "write_section block t =
     (if contains t begin_mark then bind_res (template block) (\<lambda>r. Inr (re_sub section_rx (\<lambda>m. r) t))
      else Inr (rstrip_by (\<lambda>c. c = nl) t @ [nl, nl] @ block @ [nl]))"

subsection \<open>The main program\<close>

record run_result =
  printed :: "str list"
  written :: "(str \<times> str) option"

definition most_common :: "(str \<times> nat) list \<Rightarrow> (str \<times> nat) list" where
  "most_common d = sort_key (\<lambda>kn. - int (snd kn)) d"

definition stat_line :: "str \<times> nat \<Rightarrow> str" where
  "stat_line kn = ''   '' @ ljust 30 (fst kn) @ '' '' @ rjust 6 (nat_str (snd kn))"

definition method_line :: "bool \<Rightarrow> bool \<Rightarrow> bool \<Rightarrow> str list \<Rightarrow> str" where
  "method_line used installed flatten labels =
     (if used then ''method: Yosys elaboration ('' @ (if flatten then ''flattened'' else ''per module'') @ '') of '' @
        join '', '' labels
      else ''method: text parser (Yosys '' @ (if installed then ''disabled'' else ''not found'') @ '')'')"

text \<open>
  \<open>consts\<close> is what \<open>yosys_constants\<close> would return; it is called when Yosys is wanted and installed.
\<close>

definition const_main ::
    "(str \<Rightarrow> rx option) \<Rightarrow> (str \<Rightarrow> str option) \<Rightarrow> nat \<Rightarrow> bool \<Rightarrow> bool \<Rightarrow> bool \<Rightarrow> bool \<Rightarrow>
     (constants \<times> str list) option res \<Rightarrow> str \<Rightarrow> points \<Rightarrow> run_result option res" where
  "const_main rxc fs limit installed use_yosys flatten write cs wpath pts =
     bind_res (records_from_report pts) (\<lambda>recs.
     let holes = find_holes fs (hand_waivers rxc fs wpath) recs; used = use_yosys \<and> installed
     in bind_res (if used then cs else Inr (Some ([], []))) (\<lambda>found.
        case found of
          None \<Rightarrow> Inr None
        | Some (y, labels) \<Rightarrow>
            bind_res (fold_res (judge limit fs (if used then Some (y, labels) else None)) holes
                \<lparr>stats = [], const_bits = [], whys = []\<rparr>) (\<lambda>st.
            bind_res (const_entries fs st recs) (\<lambda>es.
            let printout = [method_line used installed flatten labels,
                       ''uncovered toggle points (after hand-written waivers): '' @ nat_str (length holes)] @
                  map stat_line (most_common (stats st)) @ [''generated entries: '' @ nat_str (length es)]
            in if \<not> write then Inr (Some \<lparr>printed = printout, written = None\<rparr>)
               else
                 (case fs wpath of
                    None \<Rightarrow> Inl (RuntimeError ''FileNotFoundError'')
                  | Some t \<Rightarrow>
                      bind_res (write_section (join [nl] (section_lines es)) t) (\<lambda>t1.
                        Inr (Some \<lparr>printed = printout @ [''wrote '' @ wpath], written = Some (wpath, t1)\<rparr>)))))))"

text \<open>The command line: the first argument that is no option, and the three options.\<close>

definition cov_const_main ::
    "(str \<Rightarrow> rx option) \<Rightarrow> (str \<Rightarrow> str option) \<Rightarrow> nat \<Rightarrow> yosys option \<Rightarrow> str list \<Rightarrow> str \<Rightarrow> str \<Rightarrow> build_cfg list \<Rightarrow>
     str \<Rightarrow> (str \<Rightarrow> points) \<Rightarrow> str list \<Rightarrow> run_result option res" where
  "cov_const_main rxc fs limit ys files work top0 cfgs wpath points_of argv =
     (let args = filter (\<lambda>a. \<not> startswith a ''--'') argv;
          datdir = (case args of [] \<Rightarrow> ''cov/dats'' | a # as \<Rightarrow> a);
          flatten = (''--no-flatten'' \<notin> set argv)
      in const_main rxc fs limit (ys \<noteq> None) (''--no-yosys'' \<notin> set argv) flatten (''--write'' \<in> set argv)
           (case ys of None \<Rightarrow> Inr None | Some y \<Rightarrow> yosys_constants y limit files work flatten top0 cfgs)
           wpath (points_of datdir))"

subsection \<open>The section written twice\<close>

text \<open>
  The first \<open>--write\<close> appends the block as it is; a later one passes it through the template, which
  halves every backslash of the entries and keeps a block without backslashes.
\<close>

lemma template_plain: "bslash \<notin> set t \<Longrightarrow> template t = Inr t"
  by (induction t rule: template.induct) auto

lemma template_halves_backslashes: "template [bslash, bslash] = Inr [bslash]"
  by (simp add: template_escape_def)

subsection \<open>The entries cover the constant bits and nothing else\<close>

definition kind_fits :: "str option \<Rightarrow> str \<Rightarrow> bool" where
  "kind_fits kind page \<longleftrightarrow> kind = None \<or> kind = Some [] \<or> map_of waiver_types (the kind) = Some page"

text \<open>The counts \<open>gather\<close> merges into one hit.\<close>

definition counts_for :: "str \<Rightarrow> int \<Rightarrow> str option \<Rightarrow> str \<times> str \<times> str \<Rightarrow> rec5 list \<Rightarrow> int list" where
  "counts_for hint n kind k recs =
     map (\<lambda>(page, path, l, sg, c). c)
       (filter (\<lambda>(page, path, l, sg, c). at_hint hint path \<and> l = n \<and> kind_fits kind page \<and> (page, path, sg) = k) recs)"

lemma hit_step_eq:
  "py_int line = Some n \<Longrightarrow> hit_step hint line kind (page, path, l, sg, c) acc =
     Inr (if at_hint hint path \<and> l = n \<and> kind_fits kind page
          then AList.update (page, path, sg) (max (case map_of acc (page, path, sg) of None \<Rightarrow> 0 | Some c0 \<Rightarrow> c0) c) acc
          else acc)"
  by (auto simp: hit_step_def kind_fits_def)

lemma gather_from:
  assumes "py_int line = Some n"
  shows "fold_res (hit_step hint line kind) recs acc = Inr hits \<Longrightarrow>
     map_of hits k =
       (if counts_for hint n kind k recs = [] then map_of acc k
        else Some (fold max (counts_for hint n kind k recs) (case map_of acc k of None \<Rightarrow> 0 | Some c \<Rightarrow> c)))"
proof (induction recs arbitrary: acc)
  case (Cons r recs)
  obtain page path l sg c where r: "r = (page, path, l, sg, c)" by (metis prod_cases5)
  let ?fits = "at_hint hint path \<and> l = n \<and> kind_fits kind page"
  let ?acc = "if ?fits then AList.update (page, path, sg)
    (max (case map_of acc (page, path, sg) of None \<Rightarrow> 0 | Some c0 \<Rightarrow> c0) c) acc else acc"
  have cs: "counts_for hint n kind k (r # recs) =
      (if ?fits \<and> (page, path, sg) = k then [c] else []) @ counts_for hint n kind k recs"
    by (simp add: counts_for_def r)
  have "fold_res (hit_step hint line kind) recs ?acc = Inr hits"
    using Cons.prems by (simp add: r hit_step_eq [OF assms])
  from Cons.IH [OF this] show ?case
    unfolding cs by (cases "?fits \<and> (page, path, sg) = k") (auto simp: update_conv' max.commute)
qed (simp add: counts_for_def)

lemma gather_hits:
  assumes "gather hint line kind recs = Inr hits" and "py_int line = Some n"
  shows "map_of hits k = (if counts_for hint n kind k recs = [] then None else Some (fold max (counts_for hint n kind k recs) 0))"
  using gather_from [OF assms(2), of hint kind recs "[]" hits k] assms(1) unfolding gather_def by simp

lemma fold_max_0: "fold max cs b = (0 :: int) \<longleftrightarrow> (b = 0 \<or> 0 \<in> set cs) \<and> b \<le> 0 \<and> (\<forall>c \<in> set cs. c \<le> 0)"
  by (induction cs arbitrary: b) (auto simp: max_def)

lemma fake_counts:
  "counts_for (basename P) n (Some ''toggle'') (''v_toggle'', P, sg) (fake_records consts P n recs) =
   map (\<lambda>(page, path, l, s, c). if (P, n, sg) \<in> set consts then c else max c 1)
     (filter (\<lambda>(page, path, l, s, c). page = ''v_toggle'' \<and> path = P \<and> l = n \<and> s = sg) recs)"
  by (induction recs) (auto simp: counts_for_def fake_records_def kind_fits_def waiver_types_def at_hint_def)

lemma fake_pages:
  "counts_for (basename P) n (Some ''toggle'') (page, path, sg) (fake_records consts P n recs) \<noteq> [] \<Longrightarrow>
   page = ''v_toggle'' \<and> path = P \<and> (\<exists>c. (''v_toggle'', P, n, sg, c) \<in> set recs)"
  by (induction recs)
     (auto simp: counts_for_def fake_records_def kind_fits_def waiver_types_def split: if_splits)

lemma fake_hits:
  assumes "gather (basename P) n0 (Some ''toggle'') (fake_records consts P n recs) = Inr hits" and "py_int n0 = Some n"
    and "((page, path, sg), c) \<in> set hits"
  shows "page = ''v_toggle'' \<and> path = P \<and> (\<exists>c. (''v_toggle'', P, n, sg, c) \<in> set recs)"
proof -
  have "counts_for (basename P) n (Some ''toggle'') (page, path, sg) (fake_records consts P n recs) \<noteq> []"
    using gather_hits [OF assms(1,2), of "(page, path, sg)"] gather_distinct [OF assms(1)] assms(3) by (auto split: if_splits)
  from fake_pages [OF this] show ?thesis .
qed

text \<open>
  The waivers generated for a source line cover, of the toggle points there, exactly those
  found constant and hit by no instance: a point that was not found constant is never waived, even
  when the bits around it are folded into one pattern.
\<close>

lemma generated_entries_exact:
  assumes "entries_at fs st recs (P, n) = Inr es"
    and "\<forall>(page, path, l, sg, c) \<in> set recs. path = P \<and> l = n \<and> page = ''v_toggle'' \<longrightarrow> clean_sig sg"
    and "basename P \<noteq> []" and "map_of (whys st) (P, n) = Some reason"
    and "reason \<noteq> []" and "\<not> contains reason placeholder"
    and "(''v_toggle'', P, n, sg, c) \<in> set recs"
  shows "(\<exists>e \<in> set es. \<exists>w. entry_waiver rxc (e_why e) wh e = Some w \<and> covers fs w P n ''v_toggle'' sg) \<longleftrightarrow>
    (P, n, sg) \<in> set (const_bits st) \<and> (\<forall>c. (''v_toggle'', P, n, sg, c) \<in> set recs \<longrightarrow> c \<le> 0)"
proof -
  let ?fake = "fake_records (const_bits st) P n recs"
  let ?cs = "\<lambda>k. counts_for (basename P) n (Some ''toggle'') k ?fake"
  obtain es0 skipped uniq where s: "suggest_entries fs ?fake (basename P) (int_str n) (Some ''toggle'') = Inr (es0, skipped, uniq)"
    and es: "es = map (\<lambda>e. e\<lparr>e_folded := None, e_why := reason\<rparr>) es0"
    using assms(1,4) by (auto simp: entries_at_def bind_res_Inr_iff)
  obtain hits where g: "gather (basename P) (int_str n) (Some ''toggle'') ?fake = Inr hits"
    using s by (auto simp: suggest_entries_def bind_res_Inr_iff)
  have look: "map_of hits k = (if ?cs k = [] then None else Some (fold max (?cs k) 0))" for k
    by (rule gather_hits [OF g]) simp
  have names: "\<forall>((page, path, sg), c) \<in> set hits. path = P \<and> known_page page \<and> clean_sig sg"
    using fake_hits [OF g py_int_int_str] assms(2) by (fastforce simp: known_page_def waiver_types_def)
  let ?k = "(''v_toggle'', P, sg)"
  have cs: "?cs ?k = map (\<lambda>(page, path, l, s, c). if (P, n, sg) \<in> set (const_bits st) then c else max c 1)
     (filter (\<lambda>(page, path, l, s, c). page = ''v_toggle'' \<and> path = P \<and> l = n \<and> s = sg) recs)"
    by (rule fake_counts)
  have "?cs ?k \<noteq> []" using assms(7) unfolding cs by (auto simp: filter_empty_conv)
  then have "(?k, fold max (?cs ?k) 0) \<in> set hits" using look [of ?k] by (auto dest: map_of_SomeD)
  from suggest_entries_select [OF s g _ names assms(3,5,6) this, where rxc = rxc and wh = wh]
  have sel: "(\<exists>e \<in> set es0. \<exists>w. entry_waiver rxc reason wh e = Some w \<and> covers fs w P n ''v_toggle'' sg) \<longleftrightarrow>
      fold max (?cs ?k) 0 = 0" by simp
  have "fold max (?cs ?k) 0 = 0 \<longleftrightarrow> (\<forall>x \<in> set (?cs ?k). x \<le> 0)" by (simp add: fold_max_0)
  also have "\<dots> \<longleftrightarrow> (P, n, sg) \<in> set (const_bits st) \<and> (\<forall>c. (''v_toggle'', P, n, sg, c) \<in> set recs \<longrightarrow> c \<le> 0)"
    using assms(7) unfolding cs by (cases "(P, n, sg) \<in> set (const_bits st)") force+
  finally have zero: "fold max (?cs ?k) 0 = 0 \<longleftrightarrow>
      (P, n, sg) \<in> set (const_bits st) \<and> (\<forall>c. (''v_toggle'', P, n, sg, c) \<in> set recs \<longrightarrow> c \<le> 0)" .
  have "entry_waiver rxc (e_why (e\<lparr>e_folded := None, e_why := reason\<rparr>)) wh (e\<lparr>e_folded := None, e_why := reason\<rparr>) =
      entry_waiver rxc reason wh e" for e
    by (simp add: entry_waiver_def entry_json_def)
  then show ?thesis unfolding es using sel zero by simp
qed

definition sample_findings :: findings where
  "sample_findings = \<lparr>stats = [], const_bits = [(''rtl/t.v'', 2, ''q[0]'')], whys = [((''rtl/t.v'', 2), ''tied'')]\<rparr>"

definition const_entry :: entry where
  "const_entry = (mk_entry ''/assign q = a/'' ''v_toggle'' ''rtl/t.v'' ''q[[]0]'' None)\<lparr>e_why := ''tied''\<rparr>"

lemma sample_const_entries: "entries_at sample_rtl sample_findings sample_records (''rtl/t.v'', 2) = Inr [const_entry]"
  by code_simp

end
