(* ===== verification/WaiverDoc.thy ===== *)
theory WaiverDoc
  imports Waivers
begin

text \<open>
  Waiver documents. A document is described by its parts, lines of prose and fenced blocks,
  independently of the line scan of \<open>cov_waive.py\<close>; the lemmas show what the scan finds in it and
  what becomes of the entries of its blocks.
\<close>

subsection \<open>Fences in a text of lines\<close>

text \<open>A line that neither opens nor closes a fence.\<close>

definition plain_line :: "str \<Rightarrow> bool" where
  "plain_line l \<longleftrightarrow> \<not> startswith (dropWhile is_space l) ''```''"

lemma plain_line_simps [simp]:
  "plain_line []" "\<not> is_space c \<Longrightarrow> c \<noteq> CHR 0x60 \<Longrightarrow> plain_line (c # l)"
  by (simp_all add: plain_line_def)

lemma no_fence_run:
  assumes "\<not> startswith (dropWhile is_space (rest s)) w" "w \<noteq> []" "\<not> is_space (hd w)"
  shows "run (Seq (star space) (Seq (lit w) r)) Some s = None"
proof -
  have now: "\<not> startswith (rest t) w" if "\<not> startswith (dropWhile is_space (rest t)) w" for t
    using that assms(2,3) by (cases w; cases "rest t") auto
  have "rounds True (run space) (run (Seq (lit w) r) Some) n s = None" for n
    using assms(1)
  proof (induction n arbitrary: s)
    case (Suc n)
    have "\<not> startswith (dropWhile is_space (rest (step_char s))) w" if "rest s = c # cs" "is_space c" for c cs
      using Suc.prems that by (simp add: step_char_def)
    then show ?case
      using Suc now [OF Suc.prems] by (auto simp: run_lit space_def split: list.splits)
  qed (simp add: run_lit now)
  then show ?thesis by simp
qed

lemma plain_line_rx [simp]:
  assumes "plain_line l"
  shows "re_match fence_open_rx l = None" "re_match fence_close_rx l = None"
  using no_fence_run [of "at_start l" "''```''"] assms
  by (simp_all add: re_match_def fence_open_rx_def fence_close_rx_def at_start_def plain_line_def is_space_def del: lit.simps run.simps)

lemma scan_plain:
  "list_all plain_line ls \<Longrightarrow> scan_fences None n (ls @ ms) = scan_fences None (n + length ls) ms"
  by (induction ls arbitrary: n) simp_all

lemma scan_buf:
  "list_all plain_line ls \<Longrightarrow> re_match fence_close_rx c = Some m \<Longrightarrow>
   scan_fences (Some (lang, start, buf)) n (ls @ c # ms) =
     ((lang, start, buf @ ls) # fst (scan_fences None (n + length ls + 1) ms), snd (scan_fences None (n + length ls + 1) ms))"
  by (induction ls arbitrary: n buf) (simp_all add: Let_def split_beta)

lemma strip_around: "\<exists>i t. l = i @ strip l @ t \<and> list_all is_space i \<and> list_all is_space t"
proof -
  let ?t = "takeWhile is_space (rev (lstrip l))"
  have "lstrip l = strip l @ rev ?t"
    unfolding strip_def rstrip_def rstrip_by_def by (metis rev_append rev_rev_ident takeWhile_dropWhile_id)
  moreover have "l = takeWhile is_space l @ lstrip l" by (simp add: lstrip_def lstrip_by_def)
  ultimately have "l = takeWhile is_space l @ strip l @ rev ?t" by metis
  moreover have "list_all is_space (takeWhile is_space l)" "list_all is_space (rev ?t)"
    by (auto simp: list_all_iff dest: set_takeWhileD)
  ultimately show ?thesis by blast
qed

lemma open_rx:
  assumes "strip l = ''```'' @ w" "list_all is_word w"
  shows "\<exists>m. re_match fence_open_rx l = Some m \<and> group_text m 1 = w"
proof -
  obtain i t where l: "l = i @ ''```'' @ w @ t" "list_all is_space i" "list_all is_space t"
    using strip_around [of l] assms(1) by auto
  have tw: "t = [] \<or> \<not> is_word (hd t)" using l(3) by (cases t) (auto simp: space_not_word)
  define e where "e = \<lparr>past = rev l, rest = [], groups = [(1, w)]\<rparr>"
  have "run (star space) (run Eol Some) \<lparr>past = rev w @ rev (i @ ''```''), rest = t, groups = [(1, w)]\<rparr> = Some e"
    unfolding space_def by (rule run_star_all [where u = t and v = "[]"]) (simp_all add: l e_def)
  then have "run (star word_char) (\<lambda>t'. run (star space) (run Eol Some) (set_group 1 \<lparr>past = rev (i @ ''```''), rest = w @ t, groups = []\<rparr> t'))
      \<lparr>past = rev (i @ ''```''), rest = w @ t, groups = []\<rparr> = Some e"
    unfolding word_char_def using assms(2) tw
    by (intro run_star_all [where u = w and v = t]) (simp_all add: set_group_def text_between_def del: run.simps)
  then have "run (Seq (lit ''```'') (Seq (Group 1 (star word_char)) (Seq (star space) Eol))) Some
      \<lparr>past = rev i, rest = ''```'' @ w @ t, groups = []\<rparr> = Some e"
    by (simp add: run_lit del: lit.simps)
  then have "run (star space) (run (Seq (lit ''```'') (Seq (Group 1 (star word_char)) (Seq (star space) Eol))) Some) (at_start l) = Some e"
    unfolding space_def using l(2)
    by (intro run_star_all [where u = i and v = "''```'' @ w @ t"]) (simp_all add: l(1) at_start_def is_space_def del: run.simps lit.simps)
  then have "re_match fence_open_rx l = Some e" by (simp add: re_match_def fence_open_rx_def del: lit.simps)
  then show ?thesis by (simp add: e_def group_text_def group_def)
qed

lemma close_rx: "strip l = ''```'' \<Longrightarrow> \<exists>m. re_match fence_close_rx l = Some m"
proof -
  assume "strip l = ''```''"
  then obtain i t where l: "l = i @ ''```'' @ t" "list_all is_space i" "list_all is_space t"
    using strip_around [of l] by auto
  define e where "e = \<lparr>past = rev l, rest = [], groups = []\<rparr>"
  have "run (star space) (run Eol Some) \<lparr>past = rev (i @ ''```''), rest = t, groups = []\<rparr> = Some e"
    unfolding space_def by (rule run_star_all [where u = t and v = "[]"]) (simp_all add: l e_def)
  then have "run (Seq (lit ''```'') (Seq (star space) Eol)) Some \<lparr>past = rev i, rest = ''```'' @ t, groups = []\<rparr> = Some e"
    by (simp add: run_lit del: lit.simps)
  then have "run (star space) (run (Seq (lit ''```'') (Seq (star space) Eol)) Some) (at_start l) = Some e"
    unfolding space_def using l(2)
    by (intro run_star_all [where u = i and v = "''```'' @ t"]) (simp_all add: l(1) at_start_def is_space_def del: run.simps lit.simps)
  then show ?thesis by (simp add: re_match_def fence_close_rx_def del: lit.simps)
qed

subsection \<open>The parts of a document\<close>

text \<open>A line of prose, or a fenced block: its opening line, the lines in it and its closing line.\<close>

datatype part = Prose str | Block str "str list" str

fun part_lines :: "part \<Rightarrow> str list" where
  "part_lines (Prose l) = [l]"
| "part_lines (Block start body stop) = start # body @ [stop]"

definition doc_text :: "part list \<Rightarrow> str" where
  "doc_text ps = join [nl] (concat (map part_lines ps))"

text \<open>What an opening line says after its three backquotes.\<close>

definition fence_label :: "str \<Rightarrow> str" where
  "fence_label start = drop 3 (strip start)"

text \<open>
  No line of prose or of a block begins with three backquotes after its blanks, a closing line is
  three backquotes, and an opening line three backquotes and a label of word characters (or none).
\<close>

fun part_ok :: "part \<Rightarrow> bool" where
  "part_ok (Prose l) \<longleftrightarrow> plain_line l \<and> nl \<notin> set l"
| "part_ok (Block start body stop) \<longleftrightarrow>
     strip start = ''```'' @ fence_label start \<and> list_all is_word (fence_label start) \<and> strip stop = ''```'' \<and>
     list_all plain_line body \<and> list_all (\<lambda>l. nl \<notin> set l) (start # stop # body)"

fun doc_fences :: "nat \<Rightarrow> part list \<Rightarrow> fence list" where
  "doc_fences n [] = []"
| "doc_fences n (Prose l # ps) = doc_fences (Suc n) ps"
| "doc_fences n (Block start body stop # ps) =
     (fence_label start, n, body) # doc_fences (n + length body + 2) ps"

lemma scan_parts: "list_all part_ok ps \<Longrightarrow> scan_fences None n (concat (map part_lines ps)) = (doc_fences n ps, None)"
proof (induction n ps rule: doc_fences.induct)
  case (3 n start body stop ps)
  then obtain m c where "re_match fence_open_rx start = Some m" "group_text m 1 = fence_label start"
    and c: "re_match fence_close_rx stop = Some c"
    using open_rx [of start "fence_label start"] close_rx [of stop] by auto
  with 3 scan_buf [OF _ c, of body "fence_label start" n "[]" "Suc n" "concat (map part_lines ps)"] show ?case by simp
qed simp_all

lemma parts_no_nl: "part_ok p \<Longrightarrow> l \<in> set (part_lines p) \<Longrightarrow> nl \<notin> set l"
  by (cases p) (auto simp: list_all_iff)

lemma scan_doc:
  assumes "list_all part_ok ps"
  shows "scan_fences None 1 (split_nl (doc_text ps)) = (doc_fences 1 ps, None)"
proof (cases "ps = []")
  case True
  then show ?thesis by (simp add: doc_text_def)
next
  case False
  then have "concat (map part_lines ps) \<noteq> []" by (cases ps; cases "hd ps") auto
  moreover have "nl \<notin> set l" if "l \<in> set (concat (map part_lines ps))" for l
    using that assms parts_no_nl by (auto simp: list_all_iff)
  ultimately have "split_nl (doc_text ps) = concat (map part_lines ps)"
    unfolding doc_text_def by (rule split_char_join)
  with scan_parts [OF assms] show ?thesis by simp
qed

subsection \<open>The entries of a document\<close>

text \<open>The entries of the \<open>json\<close> blocks, each with the line of its block.\<close>

fun doc_entries :: "str \<Rightarrow> nat \<Rightarrow> part list \<Rightarrow> (origin \<times> json) list" where
  "doc_entries path n [] = []"
| "doc_entries path n (Prose l # ps) = doc_entries path (Suc n) ps"
| "doc_entries path n (Block start body stop # ps) =
     (if fence_label start = ''json''
      then (case json_loads (join [nl] body) of Some (JList es) \<Rightarrow> map (Pair (path, n)) es | _ \<Rightarrow> [])
      else []) @ doc_entries path (n + length body + 2) ps"

text \<open>The first line of a block that is not blank begins like a JSON array or object.\<close>

definition looks_like_entries :: "str list \<Rightarrow> bool" where
  "looks_like_entries body \<longleftrightarrow>
     (\<exists>pre l post. body = pre @ l # post \<and> list_all (\<lambda>x. strip x = []) pre \<and> strip l \<noteq> [] \<and> hd (strip l) \<in> {CHR ''['', CHR ''{''})"

fun block_read :: "part \<Rightarrow> bool" where
  "block_read (Prose l) \<longleftrightarrow> True"
| "block_read (Block start body stop) \<longleftrightarrow>
     (if fence_label start = ''json'' then \<exists>es. json_loads (join [nl] body) = Some (JList es) else \<not> looks_like_entries body)"

text \<open>The waiver an entry of the document stands for.\<close>

definition locates :: "(str \<Rightarrow> rx option) \<Rightarrow> str \<Rightarrow> locator \<Rightarrow> bool" where
  "locates rxc t loc \<longleftrightarrow>
     (case loc of
        AtLine n \<Rightarrow> py_int t = Some n
      | AtText u \<Rightarrow> u \<noteq> [] \<and> t = ''/'' @ u @ ''/''
      | AtRegex p r \<Rightarrow> p \<noteq> [] \<and> t = ''re/'' @ p @ ''/'' \<and> rxc p = Some r)"

definition pages_of :: "str list \<Rightarrow> str set" where
  "pages_of ts = {p. \<exists>t. (t, p) \<in> set waiver_types \<and> (t \<in> set ts \<or> ''all'' \<in> set ts)}"

definition stands_for :: "(str \<Rightarrow> rx option) \<Rightarrow> origin \<times> json \<Rightarrow> waiver \<Rightarrow> bool" where
  "stands_for rxc e w \<longleftrightarrow>
     (\<exists>ms f at why. snd e = JObj ms \<and> fst ` set ms \<subseteq> waiver_keys \<and>
        map_of ms ''file'' = Some f \<and> truthy f \<and> w_file w = f \<and>
        map_of ms ''at'' = Some at \<and> at \<noteq> JNull \<and> locates rxc (py_str at) (w_at w) \<and>
        map_of ms ''why'' = Some why \<and> truthy why \<and> w_reason w = py_str why \<and> \<not> contains (py_str why) placeholder \<and>
        w_pages w = pages_of (type_list (case map_of ms ''type'' of None \<Rightarrow> JStr ''all'' | Some v \<Rightarrow> v)) \<and>
        w_sig w = (case map_of ms ''sig'' of None \<Rightarrow> None | Some JNull \<Rightarrow> None | Some v \<Rightarrow> Some (py_str v)) \<and>
        w_src w = fst e \<and> w_hits w = 0)"

text \<open>The one kind of entry that leaves no trace.\<close>

definition no_type :: "json \<Rightarrow> bool" where
  "no_type e = (case e of JObj ms \<Rightarrow> map_of ms ''type'' = Some (JList []) | _ \<Rightarrow> False)"

lemma type_list_Nil: "type_list v = [] \<longleftrightarrow> v = JList []"
  by (cases v) (simp_all add: type_list_def del: split_char.simps py_repr.simps py_str.simps)

lemma pages_all: "pages_of (''all'' # ts) = set (map snd waiver_types) \<union> pages_of ts"
  by (force simp: pages_of_def)

lemma pages_Cons:
  assumes "t \<noteq> ''all''" "map_of waiver_types t = Some p"
  shows "pages_of (t # ts) = insert p (pages_of ts)"
proof -
  have "distinct (map fst waiver_types)" by (simp add: waiver_types_def)
  then have "(t, q) \<in> set waiver_types \<longleftrightarrow> q = p" for q using assms(2) map_of_eq_Some_iff [of waiver_types t q] by auto
  then show ?thesis using assms(1) by (auto simp: pages_of_def)
qed

lemma parse_types_spec: "parse_types wh ts = (pages, []) \<Longrightarrow> pages = pages_of ts"
proof (induction ts arbitrary: pages)
  case Nil
  then show ?case by (simp add: pages_of_def)
next
  case (Cons t ts)
  obtain ps es where ts: "parse_types wh ts = (ps, es)" by fastforce
  show ?case
  proof (cases "t = ''all''")
    case True
    with Cons ts show ?thesis by (simp add: pages_all)
  next
    case False
    with Cons.prems ts obtain p where "map_of waiver_types t = Some p" "pages = insert p ps" "es = []"
      by (auto split: option.splits)
    with False Cons.IH [of ps] ts show ?thesis by (simp add: pages_Cons)
  qed
qed

lemma parse_locator_spec:
  assumes "parse_locator rxc wh t = Inr loc"
  shows "locates rxc t loc"
proof -
  consider r where "startswith t ''re/''" "endswith t ''/''" "4 < length t" "rxc (drop 3 (butlast t)) = Some r"
      "loc = AtRegex (drop 3 (butlast t)) r"
    | "startswith t ''/''" "endswith t ''/''" "2 < length t" "loc = AtText (drop 1 (butlast t))"
    | n where "py_int t = Some n" "loc = AtLine n"
    using assms unfolding parse_locator_def Let_def by (auto split: if_split_asm option.split_asm)
  then show ?thesis
  proof cases
    case 1
    then obtain u where u: "t = ''re/'' @ u" by (auto simp: startswith_iff)
    moreover obtain v where "u = v @ ''/''" using 1(2,3) u by (cases u rule: rev_cases) (auto simp: endswith_def)
    ultimately show ?thesis using 1 by (simp add: locates_def butlast_append)
  next
    case 2
    then obtain u where u: "t = ''/'' @ u" by (auto simp: startswith_iff)
    moreover obtain v where "u = v @ ''/''" using 2(2,3) u by (cases u rule: rev_cases) (auto simp: endswith_def)
    ultimately show ?thesis using 2 by (simp add: locates_def butlast_append)
  qed (simp add: locates_def)
qed

lemma build_entry:
  assumes "build_waiver rxc wh e = ([], r)"
  shows "if no_type e then r = None else \<exists>w. r = Some w \<and> stands_for rxc (wh, e) w"
proof (cases e)
  case (JObj ms)
  define g where "g = (\<lambda>k d. case map_of ms k of None \<Rightarrow> d | Some v \<Rightarrow> v)"
  then have get: "(case map_of ms k of None \<Rightarrow> d | Some v \<Rightarrow> v) = g k d" for k d by simp
  obtain pages errs where pt: "parse_types wh (type_list (g ''type'' (JStr ''all''))) = (pages, errs)" by fastforce
  have keys: "filter (\<lambda>k. k \<notin> waiver_keys) (map fst ms) = []" and named: "truthy (g ''file'' JNull)" "g ''at'' JNull \<noteq> JNull"
    and why: "truthy (g ''why'' JNull)" "\<not> contains (py_str (g ''why'' JNull)) placeholder"
    using assms unfolding build_waiver_def JObj json.case Let_def get
    by (simp_all only: fst_conv prod.inject list.distinct if_False simp_thms de_Morgan_disj split: if_split_asm)
  then obtain loc where loc: "parse_locator rxc wh (py_str (g ''at'' JNull)) = Inr loc"
    using assms unfolding build_waiver_def JObj json.case Let_def get
    by (cases "parse_locator rxc wh (py_str (g ''at'' JNull))")
       (simp_all only: if_False if_True simp_thms sum.case prod.inject list.distinct)
  have r: "errs = []" "r = (if pages = {} then None else Some \<lparr>w_file = g ''file'' JNull, w_at = loc, w_pages = pages,
      w_sig = (case g ''sig'' JNull of JNull \<Rightarrow> None | v \<Rightarrow> Some (py_str v)),
      w_reason = py_str (g ''why'' JNull), w_src = wh, w_hits = 0\<rparr>)"
    using assms keys named why unfolding build_waiver_def JObj json.case Let_def get loc sum.case pt prod.case
    by (simp_all only: if_False if_True simp_thms prod.inject)
  have no_type: "no_type e \<longleftrightarrow> pages = {}"
  proof -
    have "pages = {} \<longleftrightarrow> g ''type'' (JStr ''all'') = JList []"
      using parse_types_complete [of wh "type_list (g ''type'' (JStr ''all''))"] by (simp add: pt r(1) type_list_Nil)
    then show ?thesis by (auto simp: no_type_def JObj g_def split: option.splits)
  qed
  moreover have "stands_for rxc (wh, e) (the r)" if "pages \<noteq> {}"
  proof -
    from keys have "fst ` set ms \<subseteq> waiver_keys" by (auto simp: filter_empty_conv)
    moreover have "map_of ms ''file'' = Some (g ''file'' JNull)" "map_of ms ''at'' = Some (g ''at'' JNull)"
      "map_of ms ''why'' = Some (g ''why'' JNull)"
      using named why(1) by (auto simp: g_def split: option.splits)
    moreover have "pages = pages_of (type_list (case map_of ms ''type'' of None \<Rightarrow> JStr ''all'' | Some v \<Rightarrow> v))"
      using parse_types_spec pt r(1) by (simp add: g_def)
    moreover have "(case g ''sig'' JNull of JNull \<Rightarrow> None | v \<Rightarrow> Some (py_str v)) =
        (case map_of ms ''sig'' of None \<Rightarrow> None | Some JNull \<Rightarrow> None | Some v \<Rightarrow> Some (py_str v))"
      by (auto simp: g_def split: option.splits json.splits)
    ultimately show ?thesis
      using that named why parse_locator_spec [OF loc] by (auto simp: stands_for_def JObj r(2))
  qed
  ultimately show ?thesis using r(2) by auto
qed (use assms in \<open>simp_all add: build_waiver_def\<close>)

text \<open>Adding entries one after the other, and blocks one after the other.\<close>

abbreviation with_type :: "(origin \<times> json) list \<Rightarrow> (origin \<times> json) list" where
  "with_type \<equiv> filter (\<lambda>e. \<not> no_type (snd e))"

definition grows_by :: "(str \<Rightarrow> rx option) \<Rightarrow> (origin \<times> json) list \<Rightarrow> waivers \<Rightarrow> waivers \<Rightarrow> bool" where
  "grows_by rxc es wv wv' \<longleftrightarrow> errors wv = [] \<and> (\<exists>ws. items wv' = items wv @ ws \<and> list_all2 (stands_for rxc) (with_type es) ws)"

lemma grows_by_refl: "errors wv = [] \<Longrightarrow> grows_by rxc [] wv wv"
  by (simp add: grows_by_def)

lemma grows_by_trans: "grows_by rxc es wv wv1 \<Longrightarrow> grows_by rxc fs wv1 wv2 \<Longrightarrow> grows_by rxc (es @ fs) wv wv2"
  by (fastforce simp: grows_by_def intro: list_all2_appendI)

lemma add_dict_grows:
  assumes "errors (add_dict rxc e wh wv) = []"
  shows "grows_by rxc [(wh, e)] wv (add_dict rxc e wh wv)"
proof -
  obtain r where "build_waiver rxc wh e = ([], r)" "errors wv = []"
    using assms by (cases "build_waiver rxc wh e")
      (auto simp: add_dict_def add_built_def add_errors_def add_item_def Let_def split: option.splits)
  with build_entry [OF this(1)] show ?thesis
    by (auto simp: grows_by_def add_dict_def add_built_def add_errors_def add_item_def split: if_splits)
qed

lemma add_dicts_grow:
  "errors (fold (\<lambda>w. add_dict rxc w wh) es wv) = [] \<Longrightarrow> grows_by rxc (map (Pair wh) es) wv (fold (\<lambda>w. add_dict rxc w wh) es wv)"
proof (induction es arbitrary: wv)
  case (Cons e es)
  then have rest: "grows_by rxc (map (Pair wh) es) (add_dict rxc e wh wv) (fold (\<lambda>w. add_dict rxc w wh) (e # es) wv)"
    by simp
  then have "grows_by rxc [(wh, e)] wv (add_dict rxc e wh wv)" by (intro add_dict_grows) (simp add: grows_by_def)
  from grows_by_trans [OF this rest] show ?case by simp
qed (simp add: grows_by_refl)

text \<open>The part of a document after the line \<open>n\<close>.\<close>

lemma first_line:
  assumes "startswith (fence_head body) ''['' = False" "startswith (fence_head body) ''{'' = False"
  shows "\<not> looks_like_entries body"
proof
  assume "looks_like_entries body"
  then obtain pre l post where b: "body = pre @ l # post" "list_all (\<lambda>x. strip x = []) pre" "strip l \<noteq> []"
      "hd (strip l) \<in> {CHR ''['', CHR ''{''}"
    unfolding looks_like_entries_def by blast
  then have "filter (\<lambda>l. l \<noteq> []) (map strip pre) = []" by (auto simp: filter_empty_conv list_all_iff)
  with b have "fence_head body = strip l" by (simp add: fence_head_def)
  with assms b(3,4) show False by (cases "strip l") auto
qed

lemma load_block:
  assumes "errors (snd (load_fence rxc path (fence_label start, n, body) st)) = []"
  shows "grows_by rxc (doc_entries path n [Block start body stop]) (snd st) (snd (load_fence rxc path (fence_label start, n, body) st))
    \<and> block_read (Block start body stop)"
proof -
  obtain found wv where st: "st = (found, wv)" by fastforce
  show ?thesis
  proof (cases "fence_label start = ''json''")
    case True
    then obtain es where "json_loads (join [nl] body) = Some (JList es)"
      using assms by (auto simp: st load_fence_def add_errors_def split: option.splits json.splits)
    with True assms add_dicts_grow [of rxc "(path, n)" es wv] show ?thesis by (simp add: st load_fence_def)
  next
    case False
    with assms first_line [of body] show ?thesis
      by (auto simp: st load_fence_def add_errors_def grows_by_def split: if_splits)
  qed
qed

lemma load_parts:
  assumes "errors (snd (fold (load_fence rxc path) (doc_fences n ps) st)) = []"
  shows "grows_by rxc (doc_entries path n ps) (snd st) (snd (fold (load_fence rxc path) (doc_fences n ps) st))
    \<and> list_all block_read ps"
  using assms
proof (induction n ps arbitrary: st rule: doc_fences.induct)
  case (3 n start body stop ps)
  let ?st = "load_fence rxc path (fence_label start, n, body) st"
  have rest: "grows_by rxc (doc_entries path (n + length body + 2) ps) (snd ?st)
      (snd (fold (load_fence rxc path) (doc_fences n (Block start body stop # ps)) st)) \<and> list_all block_read ps"
    using 3 by simp
  then have "errors (snd ?st) = []" by (simp add: grows_by_def)
  from load_block [OF this, of stop] rest show ?case by (auto dest: grows_by_trans)
qed (simp_all add: grows_by_refl)

text \<open>
  C25. What becomes of the entries of a Markdown document. Its lines that begin with three backquotes
  open a block labelled with one word (or nothing) or close one. When the loader reports no error, it
  holds one waiver for each entry of the blocks labelled \<open>json\<close>, in order, with the file, the place,
  the page types, the signal pattern and the reason of the entry, except for entries whose \<open>type\<close> is
  the empty list, of which nothing is left; every \<open>json\<close> block held a list, and the first line of text
  of any other block does not begin like a list or an object.
\<close>

theorem md_accounts_for_entries:
  assumes "list_all part_ok ps" and "errors (load_md rxc path (doc_text ps)) = []"
  shows "list_all2 (stands_for rxc) (filter (\<lambda>e. \<not> no_type (snd e)) (doc_entries path 1 ps))
      (items (load_md rxc path (doc_text ps))) \<and> list_all block_read ps"
proof -
  obtain found wv where f: "fold (load_fence rxc path) (doc_fences 1 ps) (0, no_waivers) = (found, wv)" by fastforce
  have "load_md rxc path (doc_text ps) = (if found = 0 \<and> errors wv = [] then add_errors [NoWaivers path] wv else wv)"
    unfolding load_md_def scan_doc [OF assms(1)] by (simp add: f del: One_nat_def)
  moreover from this have "errors wv = []" using assms(2) by (auto simp: add_errors_def split: if_splits)
  ultimately show ?thesis
    using load_parts [of rxc path 1 ps "(0, no_waivers)"] f by (auto simp: grows_by_def no_waivers_def add_errors_def)
qed

definition sample_parts :: "part list" where
  "sample_parts = [Prose ''Dead points'', Block ''```json''
     [''[{'' @ json_quote ''file'' @ '':'' @ json_quote ''t.v'' @ '','' @ json_quote ''at'' @ '':7,''
       @ json_quote ''why'' @ '':'' @ json_quote ''tied'' @ ''},'',
      ''{'' @ json_quote ''file'' @ '':'' @ json_quote ''t.v'' @ '','' @ json_quote ''at'' @ '':8,''
       @ json_quote ''type'' @ '':[],'' @ json_quote ''why'' @ '':'' @ json_quote ''tied'' @ ''}]''] ''```'']"

lemma sample_parts_text: "doc_text sample_parts = sample_md" "list_all part_ok sample_parts"
  by code_simp+

lemma sample_part_entries: "map snd (filter (\<lambda>e. \<not> no_type (snd e)) (doc_entries ''w.md'' 1 sample_parts)) =
    [JObj [(''file'', JStr ''t.v''), (''at'', JInt 7), (''why'', JStr ''tied'')]]"
  by code_simp

theorem md_accounts_for_entries_witness:
  "map w_reason (items (load_md (\<lambda>p. None) ''w.md'' (doc_text sample_parts))) = [''tied'']"
proof -
  have "errors (load_md (\<lambda>p. None) ''w.md'' (doc_text sample_parts)) = []"
    unfolding sample_parts_text by (rule sample_md_loads)
  note all = md_accounts_for_entries [OF sample_parts_text(2) this, THEN conjunct1]
  obtain wh where "with_type (doc_entries ''w.md'' 1 sample_parts) =
      [(wh, JObj [(''file'', JStr ''t.v''), (''at'', JInt 7), (''why'', JStr ''tied'')])]"
    using sample_part_entries by (auto simp: map_eq_Cons_conv simp del: One_nat_def)
  with all obtain w where "items (load_md (\<lambda>p. None) ''w.md'' (doc_text sample_parts)) = [w]" "w_reason w = ''tied''"
    by (auto simp: list_all2_Cons1 stands_for_def simp del: One_nat_def)
  then show ?thesis by simp
qed

text \<open>The exception of the previous property occurs: two entries, no error, one waiver.\<close>

theorem empty_type_is_lost:
  "length (doc_entries ''w.md'' 1 sample_parts) = 2 \<and> errors (load_md (\<lambda>p. None) ''w.md'' sample_md) = [] \<and>
    map w_at (items (load_md (\<lambda>p. None) ''w.md'' sample_md)) = [AtLine 7]"
  by code_simp

text \<open>
  Outside such documents an entry can be lost without a message: a line with a second word after the
  label opens no block for the loader, the line that ends the block opens one, and that one swallows
  the next block. Three blocks, no error, the waiver of the first.
\<close>

lemma labelled_blocks_lost:
  "let b = part_lines (sample_parts ! 1); wv = load_md (\<lambda>p. None) ''w.md'' (join [nl] (b @ (''```json waivers'' # tl b) @ b))
   in errors wv = [] \<and> map w_at (items wv) = [AtLine 7]"
  by code_simp

end
