(* ===== verification/SectionLoad.thy ===== *)
theory SectionLoad
  imports PageScript CovConst WaiverDoc
begin

text \<open>
  The waiver documents between the tools: the section \<open>cov_const.py --write\<close> appends and the section
  the report's page offers for pasting are both Markdown text, and \<open>cov_waive.py\<close> loads both. The
  lemmas follow the text from the writer through the line scan and the JSON reader to the waivers.
\<close>

subsection \<open>Fences in a text of lines\<close>

text \<open>A text whose fences are all closed can be continued; blank lines at its end do not matter.\<close>

lemma scan_append:
  "snd (scan_fences cur n ls) = None \<Longrightarrow>
   scan_fences cur n (ls @ ms) =
     (fst (scan_fences cur n ls) @ fst (scan_fences None (n + length ls) ms), snd (scan_fences None (n + length ls) ms))"
proof (induction cur n ls rule: scan_fences.induct)
  case (1 n)
  then show ?case by simp
qed (auto simp: Let_def split_beta split: option.splits)

lemma scan_blank:
  "snd (scan_fences cur n (ls @ replicate k [])) = None \<Longrightarrow>
   snd (scan_fences cur n ls) = None \<and> fst (scan_fences cur n ls) = fst (scan_fences cur n (ls @ replicate k []))"
proof (induction cur n ls rule: scan_fences.induct)
  case (1 n)
  have "list_all plain_line (replicate k [])" by (simp add: list_all_iff plain_line_def)
  from scan_plain [OF this, of n "[]"] show ?case by simp
next
  case (2 lang start buf n)
  have "snd (scan_fences (Some (lang, start, buf)) n (replicate k [])) \<noteq> None" for n
    by (induction k arbitrary: n buf) (simp_all add: plain_line_def)
  with 2 show ?case by simp
qed (auto simp: Let_def split_beta split: option.splits)

subsection \<open>Joined lines\<close>

lemma join_append: "A \<noteq> [] \<Longrightarrow> B \<noteq> [] \<Longrightarrow> join d (A @ B) = join d A @ d @ join d B"
proof (induction A)
  case (Cons a A)
  then show ?case by (cases A) (simp_all add: join_Cons)
qed simp

lemma join_nested: "us \<noteq> [] \<Longrightarrow> join d (A @ join d us # B) = join d (A @ us @ B)"
  by (induction A; cases B) (simp_all add: join_append join_Cons)

fun with_commas :: "str list \<Rightarrow> str list" where
  "with_commas [] = []"
| "with_commas [t] = [t]"
| "with_commas (t # u # ts) = (t @ '','') # with_commas (u # ts)"

lemma with_commas_ne [simp]: "with_commas ts = [] \<longleftrightarrow> ts = []"
  by (cases ts rule: with_commas.cases) simp_all

lemma join_with_commas: "join [nl] (with_commas ts) = join ('','' @ [nl]) ts"
  by (induction ts rule: with_commas.induct) (simp_all add: join_Cons)

lemma in_with_commas: "l \<in> set (with_commas ts) \<Longrightarrow> \<exists>t \<in> set ts. l = t \<or> l = t @ '',''"
  by (induction ts rule: with_commas.induct) auto

subsection \<open>A fenced array of entries\<close>

text \<open>The lines both tools write for the entries: \<open>cov_const.py\<close> and \<open>fenceFor\<close> of the page.\<close>

definition array_lines :: "entry list \<Rightarrow> str list" where
  "array_lines es = (if es = [] then [[]] else with_commas (map stringify es))"

definition fenced :: "entry list \<Rightarrow> str list" where
  "fenced es = [''```json'', ''[''] @ array_lines es @ ['']'', ''```'']"

lemma entry_plain [simp]: "json_plain (entry_json e)"
  by (simp add: entry_json_def)

lemma stringify_raw: "stringify e = raw.render (entry_json e)"
  by (simp add: stringify_def)

lemma stringify_reads_back: "reads_back (stringify e) (entry_json e)"
  unfolding stringify_raw by (rule raw.render_reads_back) simp

lemma raw_quote_one_line: "nl \<notin> set (raw_quote s)"
proof -
  have "nl \<notin> set (raw_esc c)" for c
  proof -
    have hex: "nl \<noteq> hex_digit n" if "n < 16" for n
    proof
      assume "nl = hex_digit n"
      then have "hex_val nl = Some n" using hex_val_digit [OF that] by simp
      then show False by (simp add: hex_val_def is_digit_def)
    qed
    have "nl \<noteq> hex_digit (code c div 16)" "nl \<noteq> hex_digit (code c mod 16)" if "code c < 32"
      using that by (simp_all add: hex)
    then show ?thesis by (cases "code c < 32") (auto simp: raw_esc_def json_esc_def)
  qed
  then show ?thesis by (auto simp: raw_quote_def)
qed

lemma stringify_shape: "\<exists>u. stringify e = CHR ''{'' # u \<and> nl \<notin> set u"
proof -
  let ?ms = "[(''file'', e_file e), (''at'', e_at e), (''type'', e_type e), (''sig'', e_sig e), (''why'', e_why e)]"
  let ?u = "join '','' (map (\<lambda>(k, v). raw_quote k @ '':'' @ raw_quote v) ?ms) @ ''}''"
  have "stringify e = CHR ''{'' # ?u" by (simp add: stringify_def entry_json_def)
  moreover have "nl \<notin> set ?u" by (simp add: join_Cons raw_quote_one_line)
  ultimately show ?thesis by blast
qed

lemma array_line:
  assumes "l \<in> set (array_lines es)"
  shows "plain_line l \<and> nl \<notin> set l"
proof (cases "es = []")
  case False
  then obtain e where "l = stringify e \<or> l = stringify e @ '',''"
    using assms in_with_commas [of l "map stringify es"] by (simp add: array_lines_def) blast
  moreover obtain u where "stringify e = CHR ''{'' # u" "nl \<notin> set u" using stringify_shape by blast
  ultimately show ?thesis by (auto simp: is_space_def)
qed (use assms in \<open>simp add: array_lines_def\<close>)

lemma array_lines_ne [simp]: "array_lines es \<noteq> []"
  by (simp add: array_lines_def)

lemma join_array_lines: "join [nl] (array_lines es) = join ('','' @ [nl]) (map stringify es)"
  by (simp add: array_lines_def join_with_commas)

text \<open>The buffer of the fence is one JSON array: the entries, in order.\<close>

lemma array_loads: "json_loads (join [nl] (''['' # array_lines es @ ['']''])) = Some (JList (map entry_json es))"
proof (cases "es = []")
  case True
  have "json_loads (join [nl] [''['', [], '']'']) = Some (JList [])" by code_simp
  with True show ?thesis by (simp add: array_lines_def)
next
  case False
  have "list_all2 reads_back (map stringify es) (map entry_json es)"
    by (simp add: list_all2_map1 list_all2_map2 list_all2_same stringify_reads_back)
  from json_loads_lines [OF this] False show ?thesis
    by (simp add: join_Cons join_append join_array_lines)
qed

lemma scan_fenced:
  "scan_fences None n (fenced es @ ms) =
     ((''json'', n, ''['' # array_lines es @ ['']'']) # fst (scan_fences None (n + length (fenced es)) ms),
      snd (scan_fences None (n + length (fenced es)) ms))"
proof -
  obtain m where "re_match fence_open_rx ''```json'' = Some m" "group_text m 1 = ''json''"
  proof -
    have "(case re_match fence_open_rx ''```json'' of None \<Rightarrow> False | Some m \<Rightarrow> group_text m 1 = ''json'')" by code_simp
    then show ?thesis by (auto split: option.splits intro: that)
  qed
  moreover obtain c where "re_match fence_close_rx ''```'' = Some c"
  proof -
    have "re_match fence_close_rx ''```'' \<noteq> None" by code_simp
    then show ?thesis by (auto intro: that)
  qed
  moreover have "list_all plain_line (''['' # array_lines es @ ['']''])"
    using array_line by (auto simp: list_all_iff plain_line_def is_space_def)
  ultimately show ?thesis
    using scan_buf [of "''['' # array_lines es @ ['']'']" "''```''" c "''json''" n "[]" "Suc n" ms]
    by (simp add: fenced_def)
qed

subsection \<open>A document continued by a section\<close>

definition fences_closed :: "str \<Rightarrow> bool" where
  "fences_closed t \<longleftrightarrow> snd (scan_fences None 1 (split_nl t)) = None"

lemma split_char_at: "split_char d (a @ d # b) = split_char d a @ split_char d b"
  by (induction a) (auto split: list.splits)

lemma split_newlines: "split_nl (u @ replicate k nl) = split_nl u @ replicate k []"
proof (induction k arbitrary: u)
  case (Suc k)
  have "split_nl (u @ nl # replicate k nl) = split_nl u @ split_nl (replicate k nl)" by (rule split_char_at)
  also have "split_nl (replicate k nl) = replicate (Suc k) []" using Suc [of "[]"] by simp
  finally show ?case by simp
qed simp

lemma rstrip_newlines: "\<exists>k. t = rstrip_by (\<lambda>c. c = nl) t @ replicate k nl"
proof -
  have "takeWhile (\<lambda>c. c = nl) (rev t) = replicate (length (takeWhile (\<lambda>c. c = nl) (rev t))) nl"
    by (rule replicate_eqI) (auto dest: set_takeWhileD)
  then have "t = rstrip_by (\<lambda>c. c = nl) t @ rev (replicate (length (takeWhile (\<lambda>c. c = nl) (rev t))) nl)"
    unfolding rstrip_by_def by (metis rev_append rev_rev_ident takeWhile_dropWhile_id)
  then show ?thesis by (metis rev_replicate)
qed

lemma fences_rstrip:
  assumes "fences_closed t"
  shows "fences_closed (rstrip_by (\<lambda>c. c = nl) t)"
    and "fst (scan_fences None 1 (split_nl (rstrip_by (\<lambda>c. c = nl) t))) = fst (scan_fences None 1 (split_nl t))"
proof -
  obtain k where "t = rstrip_by (\<lambda>c. c = nl) t @ replicate k nl" using rstrip_newlines by blast
  then have eq: "split_nl t = split_nl (rstrip_by (\<lambda>c. c = nl) t) @ replicate k []" by (metis split_newlines)
  show "fences_closed (rstrip_by (\<lambda>c. c = nl) t)"
    and "fst (scan_fences None 1 (split_nl (rstrip_by (\<lambda>c. c = nl) t))) = fst (scan_fences None 1 (split_nl t))"
    using scan_blank [of None 1 "split_nl (rstrip_by (\<lambda>c. c = nl) t)" k] assms unfolding fences_closed_def eq by simp_all
qed

definition entry_fence :: "nat \<Rightarrow> entry list \<Rightarrow> fence" where
  "entry_fence n es = (''json'', n, ''['' # array_lines es @ ['']''])"

text \<open>Plain lines around a fenced array add exactly one fence to the document.\<close>

lemma scan_section:
  assumes "snd (scan_fences None 1 ls) = None" "list_all plain_line pre" "list_all plain_line post"
  shows "scan_fences None 1 (ls @ pre @ fenced es @ post) =
    (fst (scan_fences None 1 ls) @ [entry_fence (1 + length ls + length pre) es], None)"
  using scan_append [OF assms(1)] scan_plain [OF assms(2)] scan_fenced [of _ es post] scan_plain [OF assms(3), of _ "[]"]
  by (simp add: entry_fence_def)

definition section_head :: "str list" where
  "section_head =
     [begin_mark, [], ''## Constant by construction (generated)'', [],
      ''Bits tied to a constant in every coverage configuration (Yosys elaboration),'',
      ''or, without Yosys, sized literals or parameters in their only continuous driver.'',
      ''Regenerate with `../bin/cov_const.py cov/dats --write` after an RTL change; '' @
        ''`--lint` flags any that went stale.'', []]"

lemma section_text: "join [nl] (section_lines es) = join [nl] (section_head @ fenced es @ [[], end_mark])"
proof -
  have "section_lines es = (section_head @ [''```json'', ''['']) @ join [nl] (array_lines es) # ['']'', ''```'', [], end_mark]"
    by (simp add: section_lines_def section_head_def join_array_lines stringify_def [abs_def])
  then show ?thesis
    using join_nested [OF array_lines_ne, of "[nl]" "section_head @ [''```json'', ''['']"] by (simp add: fenced_def)
qed

lemma section_plain: "list_all plain_line ([] # section_head)" "list_all plain_line [[], end_mark, []]"
  by (simp_all add: section_head_def begin_mark_def end_mark_def is_space_def)

lemma section_no_nl: "l \<in> set (section_head @ fenced es @ [[], end_mark, []]) \<Longrightarrow> nl \<notin> set l"
  using array_line by (auto simp: section_head_def begin_mark_def end_mark_def fenced_def)

lemma appended_lines:
  "split_nl (t @ [nl, nl] @ join [nl] (section_lines es) @ [nl]) =
     split_nl t @ ([] # section_head) @ fenced es @ [[], end_mark, []]"
proof -
  have "join [nl] (section_lines es) @ [nl] = join [nl] (section_head @ fenced es @ [[], end_mark, []])"
    unfolding section_text by (simp add: join_append join_Cons section_head_def fenced_def)
  then have "split_nl (join [nl] (section_lines es) @ [nl]) = section_head @ fenced es @ [[], end_mark, []]"
    using section_no_nl by (metis split_char_join append_is_Nil_conv list.distinct(1))
  then show ?thesis
    using split_char_at [of nl t "nl # join [nl] (section_lines es) @ [nl]"] by simp
qed

lemma appended_scan:
  assumes "fences_closed t" "\<not> contains t begin_mark"
  shows "\<exists>u n. write_section (join [nl] (section_lines es)) t = Inr u \<and>
    scan_fences None 1 (split_nl u) = (fst (scan_fences None 1 (split_nl t)) @ [entry_fence n es], None)"
proof -
  let ?t = "rstrip_by (\<lambda>c. c = nl) t"
  have "snd (scan_fences None 1 (split_nl ?t)) = None" using fences_rstrip(1) [OF assms(1)] by (simp add: fences_closed_def)
  from scan_section [OF this section_plain, of es] fences_rstrip(2) [OF assms(1)] assms(2)
  show ?thesis using appended_lines [of ?t es] by (intro exI conjI) (auto simp: write_section_def)
qed

subsection \<open>Loading the section\<close>

text \<open>An entry the loader takes, and the waiver it makes of it.\<close>

definition loadable :: "entry \<Rightarrow> bool" where
  "loadable e \<longleftrightarrow> e_file e \<noteq> [] \<and> e_type e \<in> set (map fst waiver_types) \<and> e_why e \<noteq> [] \<and>
     \<not> contains (e_why e) placeholder \<and> ((\<exists>n. e_at e = int_str n) \<or> (\<exists>u. u \<noteq> [] \<and> e_at e = ''/'' @ u @ ''/''))"

definition entry_locator :: "str \<Rightarrow> locator" where
  "entry_locator loc = (if startswith loc ''/'' then AtText (drop 1 (butlast loc)) else AtLine (the (py_int loc)))"

definition loaded_entry :: "origin \<Rightarrow> entry \<Rightarrow> waiver" where
  "loaded_entry wh e =
     \<lparr>w_file = JStr (e_file e), w_at = entry_locator (e_at e), w_pages = {the (map_of waiver_types (e_type e))},
      w_sig = Some (e_sig e), w_reason = e_why e, w_src = wh, w_hits = 0\<rparr>"

lemma loadable_locator:
  assumes "loadable e"
  shows "parse_locator rxc wh (e_at e) = Inr (entry_locator (e_at e))"
proof -
  consider n where "e_at e = int_str n" | u where "u \<noteq> []" "e_at e = ''/'' @ u @ ''/''"
    using assms by (auto simp: loadable_def)
  then show ?thesis
  proof cases
    case 1
    obtain c cs where c: "int_str n = c # cs" "is_digit c \<or> c = CHR ''-''"
      using int_str_hd [of n] by (cases "int_str n") auto
    then have "c \<noteq> CHR ''r''" "c \<noteq> CHR ''/''" by (auto simp: is_digit_def)
    then have "\<not> startswith (int_str n) ''re/''" "\<not> startswith (int_str n) ''/''" using c(1) by simp_all
    then show ?thesis using py_int_int_str [of n] by (simp add: 1 parse_locator_def entry_locator_def)
  next
    case 2
    then have "endswith (e_at e) ''/''" "2 < length (e_at e)" by (cases u; simp add: endswith_def)+
    then show ?thesis by (simp add: 2 parse_locator_def entry_locator_def)
  qed
qed

lemma build_loadable:
  assumes "loadable e"
  shows "build_waiver rxc wh (entry_json e) = ([], Some (loaded_entry wh e))"
proof -
  have keys: "filter (\<lambda>k. k \<notin> waiver_keys) [''file'', ''at'', ''type'', ''sig'', ''why''] = []"
    by (simp add: waiver_keys_def)
  have "e_type e = ''line'' \<or> e_type e = ''branch'' \<or> e_type e = ''toggle''"
    using assms by (auto simp: loadable_def waiver_types_def)
  then have "parse_types wh (type_list (JStr (e_type e))) = ({the (map_of waiver_types (e_type e))}, [])"
    by (auto simp: type_list_def split_char_no_sep waiver_types_def strip_def lstrip_def rstrip_def
        lstrip_by_def rstrip_by_def is_space_def)
  then show ?thesis
    using assms keys loadable_locator [OF assms]
    by (simp add: build_waiver_def entry_json_def loadable_def loaded_entry_def)
qed

lemma load_entries:
  assumes "\<forall>e \<in> set es. loadable e"
  shows "fold (\<lambda>w. add_dict rxc w wh) (map entry_json es) wv = wv\<lparr>items := items wv @ map (loaded_entry wh) es\<rparr>"
  using assms
proof (induction es arbitrary: wv)
  case (Cons e es)
  have "add_dict rxc (entry_json e) wh wv = wv\<lparr>items := items wv @ [loaded_entry wh e]\<rparr>"
    using Cons.prems by (simp add: add_dict_def build_loadable add_built_def add_errors_def add_item_def)
  with Cons show ?case by simp
qed simp

lemma load_entry_fence:
  assumes "\<forall>e \<in> set es. loadable e"
  shows "load_fence rxc path (entry_fence n es) (found, wv) =
    (found + length es, wv\<lparr>items := items wv @ map (loaded_entry (path, n)) es\<rparr>)"
  using array_loads [of es] load_entries [OF assms] by (simp add: load_fence_def entry_fence_def)

lemma load_continued:
  assumes "errors (load_md rxc path t) = []" and "\<forall>e \<in> set es. loadable e"
    and "scan_fences None 1 (split_nl u) = (fst (scan_fences None 1 (split_nl t)) @ [entry_fence n es], None)"
  shows "errors (load_md rxc path u) = [] \<and>
    items (load_md rxc path u) = items (load_md rxc path t) @ map (loaded_entry (path, n)) es"
proof -
  obtain bs v where sc: "scan_fences None 1 (split_nl t) = (bs, v)" by fastforce
  have v: "v = None"
    using assms(1) unfolding load_md_def sc by (cases v) (auto simp: add_errors_def)
  obtain found wv where f: "fold (load_fence rxc path) bs (0, no_waivers) = (found, wv)" by fastforce
  have t: "load_md rxc path t = wv" "found \<noteq> 0" "errors wv = []"
    using assms(1) unfolding load_md_def sc v by (auto simp: f add_errors_def split: if_splits)
  have "load_md rxc path u = wv\<lparr>items := items wv @ map (loaded_entry (path, n)) es\<rparr>"
    using t(2) unfolding load_md_def assms(3) sc by (simp add: f load_entry_fence [OF assms(2)])
  then show ?thesis using t by simp
qed

lemma no_errors_closed: "errors (load_md rxc path t) = [] \<Longrightarrow> fences_closed t"
  by (cases "scan_fences None 1 (split_nl t)"; cases "snd (scan_fences None 1 (split_nl t))")
     (auto simp: load_md_def fences_closed_def add_errors_def)

text \<open>
  C5. What \<open>cov_const.py --write\<close> appends is what \<open>cov_waive.py\<close> then loads: after the hand-written
  waivers, which are unchanged, one waiver per generated entry, in order, with its file, anchor, page
  type, signal pattern and reason, and no message.
\<close>

theorem appended_section_is_loaded:
  assumes "errors (load_md rxc path t) = []" and "\<not> contains t begin_mark" and "\<forall>e \<in> set es. loadable e"
  shows "\<exists>u n. write_section (join [nl] (section_lines es)) t = Inr u \<and> errors (load_md rxc path u) = [] \<and>
    items (load_md rxc path u) = items (load_md rxc path t) @ map (loaded_entry (path, n)) es"
proof -
  obtain u n where "write_section (join [nl] (section_lines es)) t = Inr u"
    and "scan_fences None 1 (split_nl u) = (fst (scan_fences None 1 (split_nl t)) @ [entry_fence n es], None)"
    using appended_scan [OF no_errors_closed [OF assms(1)] assms(2)] by blast
  with load_continued [OF assms(1,3)] show ?thesis by blast
qed

lemma const_entry_loadable: "loadable const_entry"
proof -
  have "e_at const_entry = ''/'' @ ''assign q = a'' @ ''/''" by code_simp
  moreover have "e_file const_entry \<noteq> []" "e_type const_entry \<in> set (map fst waiver_types)" "e_why const_entry \<noteq> []"
    "\<not> contains (e_why const_entry) placeholder" by code_simp+
  ultimately show ?thesis unfolding loadable_def by blast
qed

theorem appended_section_is_loaded_witness:
  "\<exists>u n. write_section (join [nl] (section_lines [const_entry])) sample_md = Inr u \<and>
    errors (load_md (\<lambda>p. None) ''w.md'' u) = [] \<and>
    items (load_md (\<lambda>p. None) ''w.md'' u) =
      items (load_md (\<lambda>p. None) ''w.md'' sample_md) @ [loaded_entry (''w.md'', n) const_entry]"
proof -
  have "\<not> contains sample_md begin_mark" by code_simp
  from appended_section_is_loaded [OF sample_md_loads this, of "[const_entry]"] const_entry_loadable show ?thesis by simp
qed

subsection \<open>The section of the page\<close>

text \<open>The lines of the notes: points left out, and an anchor that is a line number.\<close>

definition note_lines :: "nat \<times> bool \<Rightarrow> str list" where
  "note_lines su =
     (let left_out = nat_str (fst su) @ '' point(s) at this location are already COVERED and were left out.'';
          widen = ''     Do NOT widen the glob to include them -- --lint would call that BROAD.'';
          anchor = ''No unique text on this line, so the anchor is a LINE NUMBER.'';
          drift = ''     It will drift if the file is edited above this point.''
      in if fst su \<noteq> 0
         then (''<!-- '' @ left_out) #
           (if snd su then [widen @ '' -->'', []] else [widen, [], ''     '' @ anchor, drift @ '' -->'', []])
         else if snd su then [] else [''<!-- '' @ anchor, drift @ '' -->'', []])"

definition page_head :: "str \<Rightarrow> nat \<times> bool \<Rightarrow> str list" where
  "page_head key su =
     [''## <SHORT TITLE: what makes this unreachable>'', [], ''<!-- '' @ key @ '' -->'', [],
      ''<Explain the MECHANISM. Name the signal, line or parameter that makes this'',
      ''impossible, so a reviewer can re-check the argument without re-deriving it.'',
      [dquote] @ ''no test covers it'' @ [dquote] @ '' is a GAP, not a waiver.>'', []] @ note_lines su"

lemma page_text: "section_for key (es, su) = join [nl] (page_head key su @ fenced es @ [[]])"
proof -
  have fence: "fence_for es = join [nl] (fenced es)"
    by (simp add: fence_for_def fenced_def join_Cons join_append join_array_lines)
  have tail: "join [nl] (ls @ fenced es @ [[]]) = join [nl] (ls @ [join [nl] (fenced es)]) @ [nl]" for ls
    using join_nested [of "fenced es" "[nl]" ls "[]"] join_append [of "ls @ fenced es" "[[]]" "[nl]"]
    by (simp add: fenced_def)
  show ?thesis
    unfolding page_head_def append_assoc [symmetric] tail [unfolded append_assoc [symmetric]] fence [symmetric]
    by (cases "fst su = 0"; cases "snd su")
       (simp_all add: section_for_def section_notes_def note_lines_def join_Cons)
qed

lemma nat_str_nl: "nl \<notin> set (nat_str n)"
  using nat_str_digits [of nl n] by (auto simp: is_digit_def)

lemma page_head_plain: "list_all plain_line (page_head key su)"
proof -
  have "list_all plain_line (note_lines su)"
    by (cases "fst su = 0"; cases "snd su") (simp_all add: note_lines_def plain_line_def is_space_def)
  then show ?thesis by (simp add: page_head_def is_space_def)
qed

lemma page_no_nl:
  assumes "nl \<notin> set key"
  shows "l \<in> set (page_head key su @ fenced es @ [[]]) \<Longrightarrow> nl \<notin> set l"
proof -
  have "l \<in> set (note_lines su) \<Longrightarrow> nl \<notin> set l" for l
    using nat_str_nl by (cases "fst su = 0"; cases "snd su") (auto simp: note_lines_def)
  then show "l \<in> set (page_head key su @ fenced es @ [[]]) \<Longrightarrow> ?thesis"
    using assms array_line by (auto simp: page_head_def fenced_def)
qed

lemma pasted_scan:
  assumes "fences_closed t" "nl \<notin> set key"
  shows "\<exists>n. scan_fences None 1 (split_nl (t @ nl # section_for key (es, su))) =
    (fst (scan_fences None 1 (split_nl t)) @ [entry_fence n es], None)"
proof -
  have "split_nl (t @ nl # section_for key (es, su)) = split_nl t @ page_head key su @ fenced es @ [[]]"
    unfolding page_text split_char_at using page_no_nl [OF assms(2)] by (subst split_char_join) (auto simp: page_head_def)
  with scan_section [OF _ page_head_plain, of "split_nl t" "[[]]" key su es] assms(1) show ?thesis
    unfolding fences_closed_def by (intro exI) simp
qed

text \<open>
  C20. The section the page offers for a hole, pasted below a waiver document once its reasons are
  filled in, is loaded as its entries and nothing else: no message, no other waiver, whatever the
  notes, the key and the characters in the entries.
\<close>

theorem pasted_section_is_loaded:
  assumes "errors (load_md rxc path t) = []" and "nl \<notin> set key" and "\<forall>e \<in> set es. loadable e"
  shows "\<exists>n. errors (load_md rxc path (t @ nl # section_for key (es, su))) = [] \<and>
    items (load_md rxc path (t @ nl # section_for key (es, su))) =
      items (load_md rxc path t) @ map (loaded_entry (path, n)) es"
  using pasted_scan [OF no_errors_closed [OF assms(1)] assms(2)] load_continued [OF assms(1,3)] by blast

theorem pasted_section_is_loaded_witness:
  "\<exists>n. errors (load_md (\<lambda>p. None) ''w.md'' (sample_md @ nl # section_for ''t.v:2'' ([const_entry], 3, False))) = [] \<and>
    items (load_md (\<lambda>p. None) ''w.md'' (sample_md @ nl # section_for ''t.v:2'' ([const_entry], 3, False))) =
      items (load_md (\<lambda>p. None) ''w.md'' sample_md) @ [loaded_entry (''w.md'', n) const_entry]"
  using pasted_section_is_loaded [OF sample_md_loads, of "''t.v:2''" "[const_entry]" "(3, False)"] const_entry_loadable
  by simp

end
