(* ===== verification/SectionRewrite.thy ===== *)
theory SectionRewrite
  imports SectionLoad
begin

text \<open>
  Writing the generated section again. \<open>cov_const.py\<close> finds the old section by its two markers, hides it
  while it reads the hand-written waivers back, and replaces it. The first part is about the pattern
  \<open>BEGIN.*?END\<close>: on a text with one section it matches that section and nothing else.
\<close>

subsection \<open>The pattern of the section\<close>

text \<open>The marks hold one \<open><\<close> each, at their start, so an occurrence cannot overlap another one.\<close>

definition mark :: "str \<Rightarrow> bool" where
  "mark w \<longleftrightarrow> (\<exists>u. w = CHR ''<'' # u \<and> CHR ''<'' \<notin> set u)"

lemma marks [simp]: "mark begin_mark" "mark end_mark"
  by (simp_all add: mark_def begin_mark_def end_mark_def)

fun first_at :: "str \<Rightarrow> str \<Rightarrow> str \<Rightarrow> bool" where
  "first_at w [] t = True"
| "first_at w (c # p) t \<longleftrightarrow> \<not> startswith (c # p @ t) w \<and> first_at w p t"

lemma first_at_mark:
  "mark w \<Longrightarrow> \<not> contains p w \<Longrightarrow> t = [] \<or> hd t = CHR ''<'' \<Longrightarrow> first_at w p t"
proof (induction p)
  case (Cons c p)
  have "\<not> startswith (c # p @ t) w"
  proof
    assume "startswith (c # p @ t) w"
    then obtain z where z: "(c # p) @ t = w @ z" by (auto simp: startswith_iff)
    show False
    proof (cases "length w \<le> length (c # p)")
      case True
      then have "w = take (length w) (c # p)" using z by (metis append_eq_conv_conj take_append append_Nil2 diff_is_0_eq take0)
      then have "startswith (c # p) w" by (simp add: startswith_def)
      with Cons.prems(2) show False by simp
    next
      case False
      then obtain x where x: "w = (c # p) @ x" "x \<noteq> []" 
      proof -
        have "w = (c # p) @ drop (length (c # p)) w"
          using z False by (metis append_eq_append_conv_if append_take_drop_id linorder_le_cases)
        with that False show ?thesis by (metis append_Nil2 order_refl)
      qed
      then have "t = x @ z" using z by simp
      then have "hd x = CHR ''<''" using x(2) Cons.prems(3) by auto
      then have "CHR ''<'' \<in> set (tl w)" using x by (cases x) auto
      then show False using Cons.prems(1) by (auto simp: mark_def)
    qed
  qed
  with Cons show ?case by simp
qed simp

lemma lazy_to_mark:
  assumes "first_at w m (w @ q)" and "rest s = m @ w @ q" and "length m \<le> n" and "w \<noteq> []"
  shows "rounds False (run any_char) (run (lit w) Some) n s = Some (s\<lparr>past := rev (m @ w) @ past s, rest := q\<rparr>)"
  using assms
proof (induction m arbitrary: s n)
  case Nil
  have "run (lit w) Some s = Some (s\<lparr>past := rev w @ past s, rest := q\<rparr>)" using Nil by (simp add: run_lit)
  then show ?case by (cases n) simp_all
next
  case (Cons c m)
  obtain k where n: "n = Suc k" using Cons.prems(3) by (cases n) auto
  have any: "run any_char k s = (case rest s of [] \<Rightarrow> None | c # cs \<Rightarrow> k (step_char s))" for k s
    by (simp add: any_char_def split: list.split)
  have "run (lit w) Some s = None" using Cons.prems(1,2) by (simp add: run_lit)
  moreover have "rounds False (run any_char) (run (lit w) Some) k (step_char s) =
      Some ((step_char s)\<lparr>past := rev (m @ w) @ past (step_char s), rest := q\<rparr>)"
    using Cons.prems by (intro Cons.IH) (simp_all add: n step_char_def)
  ultimately show ?case
    using Cons.prems(2) by (simp add: n any [of _ s] step_char_def pos_def)
qed

lemma run_section:
  assumes "first_at end_mark m (end_mark @ q)" and "rest s = begin_mark @ m @ end_mark @ q"
  shows "run section_rx Some s = Some (s\<lparr>past := rev (begin_mark @ m @ end_mark) @ past s, rest := q\<rparr>)"
proof -
  have ne: "end_mark \<noteq> []" by (simp add: end_mark_def)
  show ?thesis
    using assms(2) lazy_to_mark [OF assms(1) _ _ ne, of "s\<lparr>past := rev begin_mark @ past s, rest := m @ end_mark @ q\<rparr>" "length (m @ end_mark @ q)"]
    by (simp add: section_rx_def run_lit del: lit.simps)
qed

lemma run_section_None: "\<not> startswith (rest s) begin_mark \<Longrightarrow> run section_rx Some s = None"
  by (simp add: section_rx_def run_lit del: lit.simps)

lemma search_section_None:
  "first_at begin_mark (rest s) [] \<Longrightarrow> search_from section_rx s = None"
proof (induction "rest s" arbitrary: s)
  case Nil
  then have "\<not> startswith (rest s) begin_mark" by (simp add: begin_mark_def)
  then show ?case using Nil by (simp add: search_from.simps [of section_rx s] run_section_None)
next
  case (Cons c cs)
  have "search_from section_rx (step_char s) = None"
    using Cons.hyps(2) Cons.prems by (intro Cons.hyps(1)) (auto simp: step_char_def split: list.splits)
  moreover have "run section_rx Some s = None" using Cons by (intro run_section_None) (metis append_Nil2 first_at.simps(2))
  ultimately show ?case by (simp add: search_from.simps [of section_rx s])
qed

lemma search_section:
  assumes "first_at begin_mark p (begin_mark @ m @ end_mark @ q)" and "first_at end_mark m (end_mark @ q)"
    and "rest s = p @ begin_mark @ m @ end_mark @ q"
  defines "a \<equiv> s\<lparr>past := rev p @ past s, rest := begin_mark @ m @ end_mark @ q\<rparr>"
  shows "search_from section_rx s =
    Some (a, a\<lparr>past := rev (begin_mark @ m @ end_mark) @ past a, rest := q\<rparr>)"
  using assms(1,3) unfolding a_def
proof (induction p arbitrary: s)
  case Nil
  then have "s\<lparr>rest := begin_mark @ m @ end_mark @ q\<rparr> = s" by simp
  then show ?case using run_section [OF assms(2), of s] Nil by (simp add: search_from.simps [of section_rx s])
next
  case (Cons c p)
  have "run section_rx Some s = None" using Cons.prems by (intro run_section_None) simp
  moreover have st: "step_char s = s\<lparr>past := c # past s, rest := p @ begin_mark @ m @ end_mark @ q\<rparr>"
    using Cons.prems(2) by (simp add: step_char_def)
  ultimately show ?case
    using Cons.IH [of "step_char s"] Cons.prems by (simp add: search_from.simps [of section_rx s])
qed

text \<open>One section in the text: it is replaced, and nothing else is touched.\<close>

lemma replace_section:
  assumes "\<not> contains p begin_mark" and "\<not> contains m end_mark" and "\<not> contains q begin_mark"
  shows "re_sub section_rx f (p @ begin_mark @ m @ end_mark @ q) =
    p @ f (hd (re_finditer section_rx (p @ begin_mark @ m @ end_mark @ q))) @ q"
proof -
  let ?t = "p @ begin_mark @ m @ end_mark @ q"
  let ?a = "\<lparr>past = rev p, rest = begin_mark @ m @ end_mark @ q, groups = []\<rparr>"
  let ?b = "?a\<lparr>past := rev (begin_mark @ m @ end_mark) @ rev p, rest := q\<rparr>"
  have "hd (begin_mark @ m @ end_mark @ q) = CHR ''<''" "hd (end_mark @ q) = CHR ''<''"
    by (simp_all add: begin_mark_def end_mark_def)
  then have fa: "first_at begin_mark p (begin_mark @ m @ end_mark @ q)" "first_at end_mark m (end_mark @ q)"
    using assms by (simp_all add: first_at_mark)
  have "search_from section_rx (at_start ?t) = Some (?a, ?b)"
    using search_section [OF fa, of "at_start ?t"] by (simp add: at_start_def)
  moreover have "search_from section_rx ?b = None"
    using assms(3) by (intro search_section_None) (simp add: first_at_mark)
  moreover have "pos ?a < pos ?b" by (simp add: pos_def begin_mark_def)
  moreover obtain n where "length ?t = Suc n" by (cases "length ?t") (simp_all add: begin_mark_def)
  ultimately have "re_finditer section_rx ?t = [(?a, ?b)]" by (simp add: re_finditer_def del: length_append)
  then show ?thesis by (simp add: re_sub_def pos_def)
qed

lemma no_section:
  assumes "\<not> contains t begin_mark"
  shows "re_sub section_rx f t = t"
proof -
  have "search_from section_rx (at_start t) = None"
    using assms by (intro search_section_None) (simp add: first_at_mark at_start_def)
  then have "re_finditer section_rx t = []" by (simp add: re_finditer_def)
  then show ?thesis by (simp add: re_sub_def)
qed

subsection \<open>Texts the replacement template keeps\<close>

text \<open>Every backslash stands before a double quote: that pair is no escape of a template.\<close>

inductive stable :: "str \<Rightarrow> bool" where
  stable_Nil: "stable []"
| stable_plain: "c \<noteq> bslash \<Longrightarrow> stable s \<Longrightarrow> stable (c # s)"
| stable_quote: "stable s \<Longrightarrow> stable (bslash # dquote # s)"

inductive_simps stable_simps [simp]: "stable []" "stable (c # s)"

lemma stable_template: "stable s \<Longrightarrow> template s = Inr s"
proof (induction rule: stable.induct)
  case (stable_plain c s)
  then show ?case by (cases s) simp_all
qed (simp_all add: template_escape_def is_alpha_ascii_def is_digit_def)

lemma stable_append: "stable s \<Longrightarrow> stable t \<Longrightarrow> stable (s @ t)"
  by (induction rule: stable.induct) simp_all

lemma stable_no_bslash: "bslash \<notin> set s \<Longrightarrow> stable s"
  by (induction s) (auto intro: stable.intros)

lemma stable_concat: "\<forall>s \<in> set ss. stable s \<Longrightarrow> stable (concat ss)"
  by (induction ss) (simp_all add: stable_append)

lemma stable_join: "stable d \<Longrightarrow> \<forall>s \<in> set ss. stable s \<Longrightarrow> stable (join d ss)"
proof (induction ss)
  case (Cons s ss)
  then show ?case by (cases ss) (simp_all add: stable_append)
qed simp

text \<open>An entry without a backslash or a control character: the JSON text escapes only its quotes.\<close>

definition ordinary :: "str \<Rightarrow> bool" where
  "ordinary s \<longleftrightarrow> (\<forall>c \<in> set s. c \<noteq> bslash \<and> 32 \<le> code c)"

definition ordinary_entry :: "entry \<Rightarrow> bool" where
  "ordinary_entry e \<longleftrightarrow> ordinary (e_file e) \<and> ordinary (e_at e) \<and> ordinary (e_type e) \<and> ordinary (e_sig e) \<and> ordinary (e_why e)"

lemma stable_quoted: "ordinary s \<Longrightarrow> stable (raw_quote s)"
proof -
  have esc: "stable (raw_esc c)" if "c \<noteq> bslash" "32 \<le> code c" for c
  proof -
    have "c \<noteq> nl" "c \<noteq> CHR 0x0D" "c \<noteq> CHR 0x09" "c \<noteq> CHR 0x0C" "c \<noteq> CHR 0x08" using that(2) by auto
    then show ?thesis using that by (simp add: raw_esc_def json_esc_def)
  qed
  assume "ordinary s"
  then have "\<forall>t \<in> set (map raw_esc s). stable t" using esc by (auto simp: ordinary_def)
  then show ?thesis by (simp add: raw_quote_def stable_append stable_concat)
qed

lemma stable_stringify:
  assumes "ordinary_entry e"
  shows "stable (stringify e)"
proof -
  have keys: "ordinary ''file''" "ordinary ''at''" "ordinary ''type''" "ordinary ''sig''" "ordinary ''why''"
    by (simp_all add: ordinary_def)
  show ?thesis
    using assms unfolding stringify_def entry_json_def ordinary_entry_def
    by (simp add: join_Cons stable_append stable_quoted keys)
qed

subsection \<open>The document with a section\<close>

text \<open>What the first \<open>--write\<close> makes of a document \<open>t\<close>; \<open>m\<close> is the text between the marks.\<close>

definition with_section :: "str \<Rightarrow> str \<Rightarrow> str" where
  "with_section t m = rstrip_by (\<lambda>c. c = nl) t @ [nl, nl] @ begin_mark @ m @ end_mark @ [nl]"

definition section_body :: "entry list \<Rightarrow> str" where
  "section_body es = nl # join [nl] (tl section_head @ fenced es @ [[]]) @ [nl]"

lemma section_block: "join [nl] (section_lines es) = begin_mark @ section_body es @ end_mark"
proof -
  let ?ls = "tl section_head @ fenced es @ [[]]"
  have "section_head @ fenced es @ [[], end_mark] = [begin_mark] @ ?ls @ [end_mark]"
    by (simp add: section_head_def)
  moreover have "join [nl] ([begin_mark] @ ?ls @ [end_mark]) = begin_mark @ [nl] @ join [nl] ?ls @ [nl] @ end_mark"
    using join_append [of "[begin_mark]" "?ls @ [end_mark]" "[nl]"] join_append [of ?ls "[end_mark]" "[nl]"] by simp
  ultimately have "join [nl] (section_head @ fenced es @ [[], end_mark]) = begin_mark @ [nl] @ join [nl] ?ls @ [nl] @ end_mark"
    by (rule trans [OF arg_cong])
  then show ?thesis unfolding section_text section_body_def by simp
qed

lemma stable_body:
  assumes "\<forall>e \<in> set es. ordinary_entry e"
  shows "stable (section_body es)"
proof -
  have "stable s" if "s \<in> set (array_lines es)" for s
  proof (cases "es = []")
    case False
    with that obtain e where "e \<in> set es" "s = stringify e \<or> s = stringify e @ '',''"
      using in_with_commas [of s "map stringify es"] by (auto simp: array_lines_def)
    then show ?thesis using assms stable_stringify by (auto simp: stable_append)
  qed (use that in \<open>simp add: array_lines_def\<close>)
  moreover have "\<forall>s \<in> set (tl section_head). stable s" by (simp add: section_head_def)
  ultimately have "\<forall>s \<in> set (tl section_head @ fenced es @ [[]]). stable s" by (auto simp: fenced_def)
  then show ?thesis unfolding section_body_def by (simp add: stable_append stable_join)
qed

lemma no_mark_before:
  assumes "\<not> contains t begin_mark"
  shows "\<not> contains (rstrip_by (\<lambda>c. c = nl) t @ [nl, nl]) begin_mark"
proof
  let ?t = "rstrip_by (\<lambda>c. c = nl) t"
  assume "contains (?t @ [nl, nl]) begin_mark"
  then obtain u v where uv: "(?t @ [nl]) @ [nl] = u @ begin_mark @ v" by (auto simp: contains_iff)
  have l: "last (u @ begin_mark) \<noteq> nl" "begin_mark \<noteq> []" by (simp_all add: begin_mark_def)
  have cut: "\<exists>v'. a = u @ begin_mark @ v'" if "a @ [nl] = u @ begin_mark @ v" for a v
  proof (cases v rule: rev_cases)
    case Nil
    with that have "last (u @ begin_mark) = nl" by (metis append_Nil2 last_snoc)
    with l show ?thesis by simp
  next
    case (snoc v' c)
    with that have "a @ [nl] = (u @ begin_mark @ v') @ [c]" by simp
    then show ?thesis by blast
  qed
  from cut [OF uv] obtain v1 where "?t @ [nl] = u @ begin_mark @ v1" by blast
  from cut [OF this] obtain v2 where "?t = u @ begin_mark @ v2" by blast
  moreover obtain w where "t = ?t @ w" using rstrip_by_prefix by blast
  ultimately have "contains t begin_mark" unfolding contains_iff by (metis append_assoc)
  with assms show False by simp
qed

lemma first_write: "\<not> contains t begin_mark \<Longrightarrow> write_section (begin_mark @ m @ end_mark) t = Inr (with_section t m)"
  by (simp add: write_section_def with_section_def)

lemma later_write:
  assumes "\<not> contains t begin_mark" and "\<not> contains m end_mark" and "stable n"
  shows "write_section (begin_mark @ n @ end_mark) (with_section t m) = Inr (with_section t n)"
proof -
  have "stable (begin_mark @ n @ end_mark)"
    using assms(3) by (intro stable_append) (simp_all add: begin_mark_def end_mark_def)
  moreover have "contains (with_section t m) begin_mark"
    unfolding with_section_def contains_iff by (metis append_assoc)
  moreover have "\<not> contains [nl] begin_mark" by (simp add: begin_mark_def)
  ultimately show ?thesis
    using replace_section [OF no_mark_before [OF assms(1)] assms(2), of "[nl]" "\<lambda>x. begin_mark @ n @ end_mark"]
    by (simp add: write_section_def stable_template with_section_def)
qed

subsection \<open>The hand-written waivers\<close>

lemma scan_trailing: "scan_fences cur n (ls @ replicate k []) = scan_fences cur n ls"
proof (induction cur n ls rule: scan_fences.induct)
  case (1 n)
  have "list_all plain_line (replicate k [])" by (simp add: list_all_iff plain_line_def)
  from scan_plain [OF this, of n "[]"] show ?case by simp
next
  case (2 lang start buf n)
  show ?case by (induction k arbitrary: buf n) simp_all
qed (auto simp: Let_def split_beta split: option.splits)

lemma load_md_newlines: "load_md rxc path (t @ replicate k nl) = load_md rxc path t"
  by (simp add: load_md_def split_newlines scan_trailing)

lemma load_md_rstrip: "load_md rxc path (rstrip_by (\<lambda>c. c = nl) t) = load_md rxc path t"
  by (metis load_md_newlines rstrip_newlines)

lemma manual_with_section:
  assumes "\<not> contains t begin_mark" and "\<not> contains m end_mark"
  shows "load_md rxc path (manual_part (with_section t m)) = load_md rxc path (manual_part t)"
proof -
  have "\<not> contains [nl] begin_mark" by (simp add: begin_mark_def)
  with replace_section [OF no_mark_before [OF assms(1)] assms(2), of "[nl]" "\<lambda>m. []"]
  have "manual_part (with_section t m) = rstrip_by (\<lambda>c. c = nl) t @ replicate 3 nl"
    by (simp add: manual_part_def with_section_def numeral_3_eq_3)
  then show ?thesis
    using no_section [OF assms(1)] by (simp add: load_md_newlines load_md_rstrip manual_part_def)
qed

lemma hand_waivers_section:
  assumes "\<not> contains t begin_mark" and "\<not> contains m end_mark"
  shows "hand_waivers rxc (fs(wpath := Some (with_section t m))) wpath = hand_waivers rxc (fs(wpath := Some t)) wpath"
proof -
  have "endswith (w @ ''.manual.tmp.md'') ''.md''" for w
    by (simp add: endswith_def)
  then show ?thesis
    by (simp add: hand_waivers_def load_waivers_def manual_with_section [OF assms])
qed

subsection \<open>The run on another copy of the document\<close>

text \<open>The program reads the source files of the points, and the document only through its hand-written part.\<close>

lemma match_cong:
  assumes "fs path = fs' path"
  shows "match fs path line page sg wv = match fs' path line page sg wv"
proof -
  have r: "read_lines fs path = read_lines fs' path" using assms by (simp add: read_lines_def)
  have loc: "match_loc fs l path line c = match_loc fs' l path line c" for l c
    unfolding match_loc_def srcline_def r ..
  have "match_items fs path line page sg ws c = match_items fs' path line page sg ws c" for ws c
    by (induction ws arbitrary: c) (simp_all add: loc)
  then show ?thesis by (simp add: match_def)
qed

lemma hole_step_cong:
  assumes "fs (fst (fst hc)) = fs' (fst (fst hc))"
  shows "hole_step fs hc = hole_step fs' hc"
proof -
  obtain p l sg c where hc: "hc = ((p, l, sg), c)" by (metis prod.collapse)
  with assms have m: "match fs p l ''v_toggle'' sg wv = match fs' p l ''v_toggle'' sg wv" for wv by (intro match_cong) simp
  show ?thesis by (intro ext) (simp only: hole_step_def hc prod.case m)
qed

definition on_paths :: "str set \<Rightarrow> (hole \<times> 'a) list \<Rightarrow> bool" where
  "on_paths S acc \<longleftrightarrow> (\<forall>hc \<in> set acc. fst (fst hc) \<in> S)"

lemma toggles_on_paths:
  "on_paths S acc \<Longrightarrow> (fst \<circ> snd) ` set recs \<subseteq> S \<Longrightarrow> on_paths S (fold toggle_count recs acc)"
proof (induction recs arbitrary: acc)
  case (Cons r recs)
  have "on_paths S (toggle_count r acc)"
    using Cons.prems by (cases r) (auto simp: toggle_count_def on_paths_def dest!: update_entry)
  with Cons show ?case by simp
qed simp

lemma find_holes_cong:
  assumes "\<forall>p \<in> (fst \<circ> snd) ` set recs. fs p = fs' p"
  shows "find_holes fs wv recs = find_holes fs' wv recs"
proof -
  have "on_paths ((fst \<circ> snd) ` set recs) (fold toggle_count recs [])" by (rule toggles_on_paths) (simp_all add: on_paths_def)
  then have "hole_step fs hc = hole_step fs' hc" if "hc \<in> set (fold toggle_count recs [])" for hc
    using that assms by (intro hole_step_cong) (fastforce simp: on_paths_def)
  then have "fold (hole_step fs) (fold toggle_count recs []) st = fold (hole_step fs') (fold toggle_count recs []) st" for st
    by (intro fold_cong refl)
  then show ?thesis by (simp add: find_holes_def)
qed

lemma holes_on_paths: "h \<in> set (find_holes fs wv recs) \<Longrightarrow> fst h \<in> (fst \<circ> snd) ` set recs"
proof -
  have "h \<in> set (fst (fold (hole_step fs) acc st)) \<Longrightarrow> h \<in> set (fst st) \<union> fst ` set acc" for acc st
  proof (induction acc arbitrary: st)
    case (Cons hc acc)
    have "set (fst (hole_step fs hc st)) \<subseteq> set (fst st) \<union> {fst hc}"
      by (cases hc; cases "fst hc"; cases st) (auto simp: hole_step_def split: option.splits prod.splits)
    with Cons show ?case by fastforce
  qed simp
  moreover have "on_paths ((fst \<circ> snd) ` set recs) (fold toggle_count recs [])"
    by (rule toggles_on_paths) (simp_all add: on_paths_def)
  moreover assume "h \<in> set (find_holes fs wv recs)"
  ultimately show ?thesis by (fastforce simp: find_holes_def on_paths_def)
qed

lemma judge_cong:
  assumes "fs (fst h) = fs' (fst h)"
  shows "judge limit fs ycon h = judge limit fs' ycon h"
proof -
  obtain p l sg where h: "h = (p, l, sg)" by (metis prod.collapse)
  with assms have p: "fs p = fs' p" by simp
  show ?thesis by (intro ext) (simp only: judge_def h prod.case p)
qed

definition hits_on :: "str set \<Rightarrow> hit list \<Rightarrow> bool" where
  "hits_on S hits \<longleftrightarrow> (\<forall>h \<in> set hits. fst (snd (fst h)) \<in> S)"

lemma gather_on:
  "fold_res (hit_step hint line kind) recs acc = Inr hits \<Longrightarrow> \<forall>r \<in> set recs. fst (snd r) \<in> S \<Longrightarrow> hits_on S acc \<Longrightarrow>
   hits_on S hits"
proof (induction recs arbitrary: acc)
  case (Cons r recs)
  obtain acc1 where a: "hit_step hint line kind r acc = Inr acc1" "fold_res (hit_step hint line kind) recs acc1 = Inr hits"
    using Cons.prems(1) by (cases "hit_step hint line kind r acc") auto
  have "hits_on S acc1"
    using a(1) Cons.prems(2,3)
    by (cases r) (auto simp: hit_step_def hits_on_def split: if_splits option.splits dest!: update_entry)
  with Cons.IH [OF a(2)] Cons.prems(2) show ?case by simp
qed simp

lemma suggest_cong:
  assumes "\<forall>p \<in> (fst \<circ> snd) ` set recs. fs p = fs' p"
  shows "suggest_entries fs recs hint line kind = suggest_entries fs' recs hint line kind"
proof (cases "gather hint line kind recs")
  case (Inr hits)
  have "src_anchor fs path n want = src_anchor fs' path n want"
    if "((page, path, sg), c) = hd (filter (\<lambda>h. snd h = 0) hits)" "filter (\<lambda>h. snd h = 0) hits \<noteq> []" for page path sg c n want
  proof -
    have "((page, path, sg), c) \<in> set hits" using that hd_in_set [of "filter (\<lambda>h. snd h = 0) hits"] by auto
    then have "fs path = fs' path" using gather_on [OF Inr [unfolded gather_def], of "{p. fs p = fs' p}"] assms by (fastforce simp: hits_on_def)
    then show ?thesis unfolding src_anchor_def by simp
  qed
  then show ?thesis
    by (cases "hd (filter (\<lambda>h. snd h = 0) hits)"; cases "fst (hd (filter (\<lambda>h. snd h = 0) hits))")
      (simp add: suggest_entries_def Inr Let_def)
qed (simp add: suggest_entries_def)

lemma const_entries_cong:
  assumes "\<forall>p \<in> (fst \<circ> snd) ` set recs. fs p = fs' p"
  shows "const_entries fs st recs = const_entries fs' st recs"
proof -
  have "\<forall>p \<in> (fst \<circ> snd) ` set (fake_records cs path lno recs). fs p = fs' p" for cs path lno
    using assms by (auto simp: fake_records_def)
  note s = suggest_cong [OF this]
  have "entries_at fs st recs (path, lno) = entries_at fs' st recs (path, lno)" for path lno
    unfolding entries_at_def prod.case by (subst s) (rule refl)
  then have "entries_at fs st recs = entries_at fs' st recs" by (intro ext) (metis surj_pair)
  then show ?thesis by (simp add: const_entries_def)
qed

lemma fold_judge_cong:
  "\<forall>h \<in> set hs. fs (fst h) = fs' (fst h) \<Longrightarrow> fold_res (judge limit fs ycon) hs st = fold_res (judge limit fs' ycon) hs st"
proof (induction hs arbitrary: st)
  case (Cons h hs)
  have "judge limit fs ycon h = judge limit fs' ycon h" using Cons.prems by (intro judge_cong) simp
  moreover have "fold_res (judge limit fs ycon) hs = fold_res (judge limit fs' ycon) hs"
    using Cons by (intro ext) simp
  ultimately show ?case by simp
qed simp

lemma record_paths:
  "records_from_report pts = Inr recs \<Longrightarrow> (fst \<circ> snd) ` set recs \<subseteq> (\<lambda>(k, page, path, c). path) ` set pts"
proof (induction pts arbitrary: recs)
  case (Cons pt pts)
  obtain key page path cnt where pt: "pt = (key, page, path, cnt)" by (metis prod_cases4)
  from Cons.prems obtain n rs where rs: "records_from_report pts = Inr rs"
    and recs: "recs = (before ''/'' page, path, n, get_or ''o'' [] (key_fields key), cnt) # rs"
    unfolding records_from_report_def pt Let_def by (auto simp: bind_res_Inr_iff)
  from Cons.IH [OF rs] show ?case unfolding recs pt by auto
qed (simp add: records_from_report_def)

text \<open>The run up to the point where it writes: what it prints and the entries; \<open>hw\<close> is the hand-written set.\<close>

definition found ::
    "(str \<Rightarrow> str option) \<Rightarrow> nat \<Rightarrow> bool \<Rightarrow> bool \<Rightarrow> bool \<Rightarrow> (constants \<times> str list) option res \<Rightarrow> waivers \<Rightarrow> points \<Rightarrow>
     (str list \<times> entry list) option res" where
  "found fs limit installed use_yosys flatten cs hw pts =
     bind_res (records_from_report pts) (\<lambda>recs.
     bind_res (if use_yosys \<and> installed then cs else Inr (Some ([], []))) (\<lambda>ans.
        case ans of
          None \<Rightarrow> Inr None
        | Some (y, labels) \<Rightarrow>
            bind_res (fold_res (judge limit fs (if use_yosys \<and> installed then Some (y, labels) else None))
                (find_holes fs hw recs) \<lparr>stats = [], const_bits = [], whys = []\<rparr>) (\<lambda>st.
            bind_res (const_entries fs st recs) (\<lambda>es.
              Inr (Some ([method_line (use_yosys \<and> installed) installed flatten labels,
                   ''uncovered toggle points (after hand-written waivers): '' @ nat_str (length (find_holes fs hw recs))] @
                 map stat_line (most_common (stats st)) @ [''generated entries: '' @ nat_str (length es)], es))))))"

definition finish :: "bool \<Rightarrow> str \<Rightarrow> str option \<Rightarrow> str list \<times> entry list \<Rightarrow> run_result option res" where
  "finish write wpath doc pe =
     (if \<not> write then Inr (Some \<lparr>printed = fst pe, written = None\<rparr>)
      else
        (case doc of
           None \<Rightarrow> Inl (RuntimeError ''FileNotFoundError'')
         | Some t \<Rightarrow>
             bind_res (write_section (join [nl] (section_lines (snd pe))) t) (\<lambda>t1.
               Inr (Some \<lparr>printed = fst pe @ [''wrote '' @ wpath], written = Some (wpath, t1)\<rparr>))))"

lemma bind_assoc: "bind_res (bind_res m f) g = bind_res m (\<lambda>x. bind_res (f x) g)"
  by (cases m) simp_all

lemma main_split:
  "const_main rxc fs limit installed use_yosys flatten write cs wpath pts =
     bind_res (found fs limit installed use_yosys flatten cs (hand_waivers rxc fs wpath) pts)
       (\<lambda>ans. case ans of None \<Rightarrow> Inr None | Some pe \<Rightarrow> finish write wpath (fs wpath) pe)"
proof -
  have bind_case: "bind_res (case m of None \<Rightarrow> Inr None | Some (y, labels) \<Rightarrow> f y labels) g =
      (case m of None \<Rightarrow> g None | Some (y, labels) \<Rightarrow> bind_res (f y labels) g)" for m :: "('a \<times> 'b) option" and f and g :: "'c option \<Rightarrow> 'd res"
    by (simp split: option.split)
  show ?thesis
    unfolding const_main_def found_def finish_def Let_def bind_assoc bind_case bind_res_simps option.case fst_conv snd_conv
    by (rule refl)
qed

lemma found_cong:
  assumes "\<forall>p \<in> (\<lambda>(k, page, path, c). path) ` set pts. fs p = fs' p"
  shows "found fs limit installed use_yosys flatten cs hw pts = found fs' limit installed use_yosys flatten cs hw pts"
proof (cases "records_from_report pts")
  case (Inr recs)
  have eq: "\<forall>p \<in> (fst \<circ> snd) ` set recs. fs p = fs' p" using assms record_paths [OF Inr] by blast
  have "\<forall>h \<in> set (find_holes fs' hw recs). fs (fst h) = fs' (fst h)" using holes_on_paths eq by blast
  note j = fold_judge_cong [OF this]
  show ?thesis
    unfolding found_def Inr bind_res_simps find_holes_cong [OF eq] const_entries_cong [OF eq] j ..
qed (simp add: found_def)

lemma run_section_again:
  fixes rxc fs limit installed use_yosys flatten cs wpath pts
  assumes "\<not> contains t begin_mark" and "\<not> contains old end_mark" and "wpath \<notin> (\<lambda>(k, page, path, c). path) ` set pts"
  defines "go \<equiv> \<lambda>doc. const_main rxc (fs(wpath := Some doc)) limit installed use_yosys flatten True cs wpath pts"
  assumes "go t = Inr (Some r)"
  obtains es where "written r = Some (wpath, with_section t (section_body es))"
    and "stable (section_body es) \<Longrightarrow> go (with_section t old) = Inr (Some r)"
proof -
  let ?found = "\<lambda>doc. found (fs(wpath := Some doc)) limit installed use_yosys flatten cs (hand_waivers rxc (fs(wpath := Some t)) wpath) pts"
  have agree: "\<forall>p \<in> (\<lambda>(k, page, path, c). path) ` set pts. (fs(wpath := Some (with_section t old))) p = (fs(wpath := Some t)) p"
    using assms(3) by (metis fun_upd_other)
  have go: "go t = bind_res (?found t) (\<lambda>ans. case ans of None \<Rightarrow> Inr None | Some pe \<Rightarrow> finish True wpath (Some t) pe)"
    "go (with_section t old) =
       bind_res (?found t) (\<lambda>ans. case ans of None \<Rightarrow> Inr None | Some pe \<Rightarrow> finish True wpath (Some (with_section t old)) pe)"
    unfolding go_def main_split hand_waivers_section [OF assms(1,2)] found_cong [OF agree] fun_upd_same by (rule refl)+
  from assms(5) obtain printout es where f: "?found t = Inr (Some (printout, es))"
    and r: "finish True wpath (Some t) (printout, es) = Inr (Some r)"
    unfolding go(1) by (auto simp: bind_res_Inr_iff split: option.splits)
  have w: "written r = Some (wpath, with_section t (section_body es))"
    using r by (auto simp: finish_def section_block first_write [OF assms(1)])
  moreover have "go (with_section t old) = Inr (Some r)" if "stable (section_body es)"
    unfolding go(2) f using r later_write [OF assms(1,2) that]
    by (simp add: finish_def section_block first_write [OF assms(1)])
  ultimately show ?thesis by (rule that)
qed

text \<open>
  C4. Writing again gives what a first write gives: whatever an earlier run left between the marks, a
  run on that document prints the same report, keeps the hand-written text and ends with the same file as a run on the
  document without a section, if no entry holds a backslash or a control character.
\<close>

theorem later_run_as_first:
  assumes "\<not> contains t begin_mark" and "\<not> contains old end_mark" and "wpath \<notin> (\<lambda>(k, page, path, c). path) ` set pts"
    and "const_main rxc (fs(wpath := Some t)) limit installed use_yosys flatten True cs wpath pts = Inr (Some r)"
    and "written r = Some (wpath, with_section t (section_body es))" and "\<forall>e \<in> set es. ordinary_entry e"
  shows "const_main rxc (fs(wpath := Some (with_section t old))) limit installed use_yosys flatten True cs wpath pts =
    Inr (Some r)"
proof -
  from assms(1-4) obtain es0 where "written r = Some (wpath, with_section t (section_body es0))"
    and again: "stable (section_body es0) \<Longrightarrow>
      const_main rxc (fs(wpath := Some (with_section t old))) limit installed use_yosys flatten True cs wpath pts = Inr (Some r)"
    using run_section_again [OF assms(1-4)] by blast
  with assms(5) have "section_body es0 = section_body es" by (simp add: with_section_def)
  with again stable_body [OF assms(6)] show ?thesis by simp
qed

definition two_holes :: points where
  "two_holes = map (\<lambda>sg. ([CHR 0x01] @ ''l'' @ [CHR 0x02] @ ''2'' @ [CHR 0x01] @ ''o'' @ [CHR 0x02] @ sg, ''v_toggle/t'', ''rtl/t.v'', 0))
     [''q[0]'', ''q[1]'']"

definition one_constant :: "(constants \<times> str list) option res" where
  "one_constant = Inr (Some ([(''t'', [(''q'', ({0}, 0, 3))])], [''base'']))"

definition sample_file :: "str \<Rightarrow> str option" where
  "sample_file = sample_rtl(''w.md'' := Some sample_md)"

definition found_entry :: entry where
  "found_entry = (mk_entry ''/assign q = a/'' ''v_toggle'' ''rtl/t.v'' ''q[[]0]'' None)\<lparr>e_why :=
     ''constant by construction: tied to a constant in every coverage configuration (base), driver at t.v:2''\<rparr>"

definition sample_result :: run_result where
  "sample_result = \<lparr>printed = [''method: Yosys elaboration (flattened) of base'',
       ''uncovered toggle points (after hand-written waivers): 2'', ''   constant                            1'',
       ''   not constant                        1'', ''generated entries: 1'', ''wrote w.md''],
     written = Some (''w.md'', with_section sample_md (section_body [found_entry]))\<rparr>"

definition sample_source :: source where
  "sample_source = \<lparr>s_text = ''wire a;'' @ [nl] @ ''assign q = a;'', s_lines = [''wire a;'', ''assign q = a;''], s_params = [],
     s_widths = [(''a'', 0, 0)], s_gen = [], s_drivers = [(''q'', [(2, ''a'')])]\<rparr>"

lemma sample_read: "read_source (''wire a;'' @ [nl] @ ''assign q = a;'') = sample_source"
  by code_simp

lemma sample_locate:
  "locate (Some [(''t'', [(''q'', ({0}, 0, 3))])]) ''rtl/t.v'' (replace_all ''__05F'' ''_'' ''q[0]'') = Some (''q'', ''q'', 0)"
  "locate (Some [(''t'', [(''q'', ({0}, 0, 3))])]) ''rtl/t.v'' (replace_all ''__05F'' ''_'' ''q[1]'') = Some (''q'', ''q'', 1)"
  "module_consts [(''t'', [(''q'', ({0}, 0, 3))])] ''rtl/t.v'' = [(''q'', ({0}, 0, 3))]"
  "yosys_reason [''base''] sample_source ''q'' ''rtl/t.v'' 2 = e_why found_entry"
  by code_simp+

definition sample_verdicts :: findings where
  "sample_verdicts = \<lparr>stats = [(''constant'', 1), (''not constant'', 1)], const_bits = [(''rtl/t.v'', 2, ''q[0]'')],
     whys = [((''rtl/t.v'', 2), e_why found_entry)]\<rparr>"

lemma sample_judged:
  "fold_res (judge 5 sample_file (Some ([(''t'', [(''q'', ({0}, 0, 3))])], [''base''])))
     [(''rtl/t.v'', 2, ''q[0]''), (''rtl/t.v'', 2, ''q[1]'')] \<lparr>stats = [], const_bits = [], whys = []\<rparr> = Inr sample_verdicts"
proof -
  have raw: "sample_file ''rtl/t.v'' = Some (''wire a;'' @ [nl] @ ''assign q = a;'')" by (simp add: sample_file_def sample_rtl_def)
  show ?thesis
    unfolding fold_res.simps judge_def prod.case option.map fst_conv sample_locate option.case raw sample_read Let_def
    by (simp add: sample_locate note_const_def count_stat_def sample_verdicts_def bump_def)
qed

lemma two_records:
  "records_from_report two_holes = Inr [(''v_toggle'', ''rtl/t.v'', 2, ''q[0]'', 0), (''v_toggle'', ''rtl/t.v'', 2, ''q[1]'', 0)]"
  by code_simp

lemma sample_holes:
  "find_holes sample_file (hand_waivers (\<lambda>p. None) sample_file ''w.md'')
     [(''v_toggle'', ''rtl/t.v'', 2, ''q[0]'', 0), (''v_toggle'', ''rtl/t.v'', 2, ''q[1]'', 0)] =
   [(''rtl/t.v'', 2, ''q[0]''), (''rtl/t.v'', 2, ''q[1]'')]"
  by code_simp

lemma sample_entries:
  "const_entries sample_file sample_verdicts [(''v_toggle'', ''rtl/t.v'', 2, ''q[0]'', 0), (''v_toggle'', ''rtl/t.v'', 2, ''q[1]'', 0)] =
     Inr [found_entry]"
  by code_simp

lemma sample_found:
  "found sample_file 5 True True True one_constant (hand_waivers (\<lambda>p. None) sample_file ''w.md'') two_holes =
     Inr (Some (butlast (printed sample_result), [found_entry]))"
proof -
  have "[method_line (True \<and> True) True True [''base''],
       ''uncovered toggle points (after hand-written waivers): '' @ nat_str (length [(''rtl/t.v'', 2 :: int, ''q[0]''), (''rtl/t.v'', 2, ''q[1]'')])] @
     map stat_line (most_common (stats sample_verdicts)) @ [''generated entries: '' @ nat_str (length [found_entry])] =
     butlast (printed sample_result)" by code_simp
  then show ?thesis
    unfolding found_def two_records bind_res_simps one_constant_def simp_thms if_True option.case prod.case sample_holes sample_judged
      sample_entries by (simp only:)
qed

lemma sample_md_plain: "\<not> contains sample_md begin_mark"
  by code_simp

lemma sample_run: "const_main (\<lambda>p. None) sample_file 5 True True True True one_constant ''w.md'' two_holes = Inr (Some sample_result)"
proof -
  have doc: "sample_file ''w.md'' = Some sample_md" by (simp add: sample_file_def)
  show ?thesis
    unfolding main_split sample_found doc
    by (simp add: finish_def section_block first_write [OF sample_md_plain] sample_result_def)
qed

theorem later_run_as_first_witness:
  "const_main (\<lambda>p. None) (sample_file(''w.md'' := Some (with_section sample_md ''stale''))) 5 True True True True one_constant
     ''w.md'' two_holes = Inr (Some sample_result)"
proof -
  have same: "sample_file(''w.md'' := Some sample_md) = sample_file" by (simp add: sample_file_def)
  have "\<not> contains ''stale'' end_mark" by code_simp
  moreover have "''w.md'' \<notin> (\<lambda>(k, page, path, c). path) ` set two_holes" by (auto simp: two_holes_def)
  moreover have "\<forall>e \<in> set [found_entry]. ordinary_entry e"
  proof -
    have "ordinary_entry found_entry" unfolding ordinary_entry_def ordinary_def by code_simp
    then show ?thesis by simp
  qed
  ultimately show ?thesis
    using sample_run by (intro later_run_as_first [OF sample_md_plain, where es = "[found_entry]"]) (simp_all add: same sample_result_def)
qed

end
