(* ===== verification/WrittenWaivers.thy ===== *)
theory WrittenWaivers
  imports SectionRewrite
begin

text \<open>
  \<open>cov_const.py --write\<close> from end to end: which points the waivers in the written document cover. The
  theory follows the run: the uncovered points, the verdicts, the entries of every source line, the
  section, and what \<open>cov_waive.py\<close> loads from it.
\<close>

subsection \<open>The holes\<close>

text \<open>A toggle point that is in the report and was hit by no instance.\<close>

definition uncovered :: "rec5 list \<Rightarrow> hole \<Rightarrow> bool" where
  "uncovered recs h \<longleftrightarrow>
     (case h of (P, n, sg) \<Rightarrow> (\<exists>c. (''v_toggle'', P, n, sg, c) \<in> set recs) \<and>
        (\<forall>(page, p, l, s, c) \<in> set recs. page = ''v_toggle'' \<and> (p, l, s) = h \<longrightarrow> c \<le> 0))"

definition unwaived :: "(str \<Rightarrow> str option) \<Rightarrow> waiver list \<Rightarrow> hole \<Rightarrow> bool" where
  "unwaived fs ws h \<longleftrightarrow> (case h of (P, n, sg) \<Rightarrow> \<forall>w \<in> set ws. \<not> covers fs w P n ''v_toggle'' sg)"

definition toggle_counts :: "rec5 list \<Rightarrow> hole \<Rightarrow> int list" where
  "toggle_counts recs h =
     map (\<lambda>(page, p, l, s, c). c) (filter (\<lambda>(page, p, l, s, c). page = ''v_toggle'' \<and> (p, l, s) = h) recs)"

lemma map_of_toggles:
  "map_of (fold toggle_count recs acc) h =
     (if toggle_counts recs h = [] then map_of acc h
      else Some (fold max (toggle_counts recs h) (case map_of acc h of None \<Rightarrow> 0 | Some c \<Rightarrow> c)))"
proof (induction recs arbitrary: acc)
  case (Cons r recs)
  obtain page p l s c where r: "r = (page, p, l, s, c)" by (metis prod_cases5)
  have cs: "toggle_counts (r # recs) h = (if page = ''v_toggle'' \<and> (p, l, s) = h then [c] else []) @ toggle_counts recs h"
    by (simp add: toggle_counts_def r)
  show ?case
    unfolding cs using Cons.IH [of "toggle_count r acc"]
    by (cases "page = ''v_toggle'' \<and> (p, l, s) = h") (auto simp: r toggle_count_def update_conv' max.commute)
qed (simp add: toggle_counts_def)

lemma distinct_toggles: "distinct (map fst acc) \<Longrightarrow> distinct (map fst (fold toggle_count recs acc))"
  by (induction recs arbitrary: acc) (auto simp: toggle_count_def distinct_update split: prod.split)

lemma toggles_uncovered: "(h, 0) \<in> set (fold toggle_count recs []) \<longleftrightarrow> uncovered recs h"
proof -
  obtain P n sg where h: "h = (P, n, sg)" by (metis prod_cases3)
  have "(h, 0) \<in> set (fold toggle_count recs []) \<longleftrightarrow> map_of (fold toggle_count recs []) h = Some 0"
    using distinct_toggles [of "[]" recs] by simp
  also have "\<dots> \<longleftrightarrow> toggle_counts recs h \<noteq> [] \<and> (\<forall>c \<in> set (toggle_counts recs h). c \<le> 0)"
    by (simp add: map_of_toggles fold_max_0)
  also have "toggle_counts recs h \<noteq> [] \<longleftrightarrow> (\<exists>c. (''v_toggle'', P, n, sg, c) \<in> set recs)"
    by (auto simp: toggle_counts_def h filter_empty_conv)
  also have "(\<forall>c \<in> set (toggle_counts recs h). c \<le> 0) \<longleftrightarrow>
      (\<forall>(page, p, l, s, c) \<in> set recs. page = ''v_toggle'' \<and> (p, l, s) = h \<longrightarrow> c \<le> 0)"
    by (auto simp: toggle_counts_def)
  finally show ?thesis by (simp add: uncovered_def h)
qed

lemma match_unwaived:
  assumes "cache_ok fs (srccache wv)" and "match fs p l ''v_toggle'' sg wv = (a, wv1)"
  shows "a = None \<longleftrightarrow> unwaived fs (items wv) (p, l, sg)" and "cache_ok fs (srccache wv1)"
    and "unwaived fs (items wv1) = unwaived fs (items wv)"
proof -
  note m = match_spec [OF assms]
  show "a = None \<longleftrightarrow> unwaived fs (items wv) (p, l, sg)" and "cache_ok fs (srccache wv1)"
    using m by (simp_all add: first_index_None unwaived_def)
  have "first_index (\<lambda>w. covers fs w P n pg s) (items wv1) = first_index (\<lambda>w. covers fs w P n pg s) (items wv)" for P n pg s
    using m by (simp add: first_index_update_hits split: option.splits)
  then show "unwaived fs (items wv1) = unwaived fs (items wv)"
    by (intro ext) (simp add: unwaived_def split_beta flip: first_index_None)
qed

lemma fold_holes:
  "cache_ok fs (srccache wv) \<Longrightarrow>
   set (fst (fold (hole_step fs) acc (hs, wv))) = set hs \<union> {h. (h, 0) \<in> set acc \<and> unwaived fs (items wv) h}"
proof (induction acc arbitrary: hs wv)
  case (Cons hc acc)
  obtain p l sg c where hc: "hc = ((p, l, sg), c)" by (metis prod.collapse)
  obtain a wv1 where m: "match fs p l ''v_toggle'' sg wv = (a, wv1)" by fastforce
  note mu = match_unwaived [OF Cons.prems m]
  show ?case
  proof (cases "c = 0")
    case True
    show ?thesis
      using True mu(1) Cons.IH [OF mu(2)] unfolding mu(3)
      by (cases a) (auto simp: hole_step_def hc m)
  next
    case False
    then show ?thesis using Cons.IH [OF Cons.prems] by (auto simp: hole_step_def hc)
  qed
qed simp

lemma holes_exact: "h \<in> set (find_holes fs (hand_waivers rxc fs wpath) recs) \<longleftrightarrow>
    uncovered recs h \<and> unwaived fs (items (hand_waivers rxc fs wpath)) h"
proof -
  have "set_ok (hand_waivers rxc fs wpath)"
    by (simp add: hand_waivers_def set_ok_load_waivers Let_def split: option.split)
  then have "cache_ok fs (srccache (hand_waivers rxc fs wpath))" by (simp add: set_ok_def)
  from fold_holes [OF this, of "fold toggle_count recs []" "[]"] show ?thesis
    unfolding find_holes_def by (auto simp: toggles_uncovered)
qed

subsection \<open>The verdicts\<close>

text \<open>The hole the run finds constant, by Yosys or by the text parser.\<close>

definition found_constant :: "nat \<Rightarrow> (str \<Rightarrow> str option) \<Rightarrow> (constants \<times> str list) option \<Rightarrow> hole \<Rightarrow> bool" where
  "found_constant limit fs ycon h =
     (case h of (path, lno, vsig) \<Rightarrow>
        case locate (map_option fst ycon) path (replace_all ''__05F'' ''_'' vsig) of
          None \<Rightarrow> False
        | Some (name, base, b) \<Rightarrow>
            (case ycon of
               Some (y, labels) \<Rightarrow> (case map_of (module_consts y path) base of None \<Rightarrow> False | Some c \<Rightarrow> b \<in> fst c)
             | None \<Rightarrow> (case fs path of None \<Rightarrow> False | Some raw \<Rightarrow>
                 (case text_verdict limit (read_source raw) base b of Inr (Inr n) \<Rightarrow> True | _ \<Rightarrow> False))))"

definition angle_free :: "str \<Rightarrow> bool" where
  "angle_free s \<longleftrightarrow> CHR ''<'' \<notin> set s"

lemma angle_free_placeholder: "angle_free s \<Longrightarrow> \<not> contains s placeholder"
  by (auto simp: angle_free_def contains_iff placeholder_def)

text \<open>Every bit noted has a reason, and every reason is one the loader takes.\<close>

definition reasons_ok :: "findings \<Rightarrow> bool" where
  "reasons_ok st \<longleftrightarrow>
     (\<forall>(p, l, sg) \<in> set (const_bits st). \<exists>r. map_of (whys st) (p, l) = Some r \<and> r \<noteq> [] \<and> angle_free r)"

lemma reasons_count [simp]: "reasons_ok (count_stat k st) = reasons_ok st" "const_bits (count_stat k st) = const_bits st"
  by (simp_all add: reasons_ok_def count_stat_def)

lemma reasons_note:
  assumes "reasons_ok st" and "r \<noteq> []" and "angle_free r"
  shows "reasons_ok (note_const h r st)" and "set (const_bits (note_const h r st)) = insert h (set (const_bits st))"
proof -
  obtain p l sg where h: "h = (p, l, sg)" by (metis prod_cases3)
  show "reasons_ok (note_const h r st)"
    using assms by (auto simp: reasons_ok_def note_const_def h count_stat_def update_conv')
  show "set (const_bits (note_const h r st)) = insert h (set (const_bits st))"
    by (simp add: note_const_def h count_stat_def)
qed

lemma angle_free_simps [simp]:
  "angle_free []" "angle_free (c # s) \<longleftrightarrow> c \<noteq> CHR ''<'' \<and> angle_free s" "angle_free (s @ t) \<longleftrightarrow> angle_free s \<and> angle_free t"
  by (auto simp: angle_free_def)

lemma angle_free_int: "angle_free (int_str n)"
proof -
  have "angle_free (nat_str k)" for k
    unfolding angle_free_def using nat_str_digits [of "CHR ''<''" k] by (auto simp: is_digit_def)
  then show ?thesis by (simp add: int_str_def)
qed

lemma angle_free_place: "angle_free path \<Longrightarrow> angle_free (place path n)"
proof -
  have parts: "w \<in> set (split_char d s) \<Longrightarrow> set w \<subseteq> set s" for w d s
  proof (induction s arbitrary: w)
    case (Cons c s)
    then show ?case using Cons.IH by (cases "split_char d s") (auto split: if_splits, blast+)
  qed simp
  have "set (basename path) \<subseteq> set path" unfolding basename_def by (rule parts [OF last_in_set]) simp
  moreover assume "angle_free path"
  ultimately show ?thesis by (auto simp: place_def angle_free_int) (auto simp: angle_free_def)
qed

lemma judge_exact:
  assumes "judge limit fs ycon h st = Inr st'" and "reasons_ok st" and "angle_free (fst h)"
    and "\<forall>y labels. ycon = Some (y, labels) \<longrightarrow> angle_free (join '', '' labels)"
  shows "reasons_ok st' \<and> set (const_bits st') = set (const_bits st) \<union> {h'. h' = h \<and> found_constant limit fs ycon h}"
proof -
  obtain path lno vsig where h: "h = (path, lno, vsig)" by (metis prod_cases3)
  have ap: "angle_free path" using assms(3) h by simp
  show ?thesis
  proof (cases "locate (map_option fst ycon) path (replace_all ''__05F'' ''_'' vsig)")
    case None
    with assms(1,2) show ?thesis by (auto simp: judge_def found_constant_def h)
  next
    case (Some loc)
    obtain name base b where loc: "loc = (name, base, b)" by (metis prod_cases3)
    obtain raw where raw: "fs path = Some raw" using assms(1) Some loc by (auto simp: judge_def h split: option.splits)
    show ?thesis
    proof (cases ycon)
      case Y: (Some yl)
      obtain y labels where yl: "yl = (y, labels)" by fastforce
      have "angle_free (join '', '' labels)" using assms(4) Y yl by simp
      then have "angle_free (yosys_reason labels src name path lno)" "yosys_reason labels src name path lno \<noteq> []" for src
        by (simp_all add: yosys_reason_def Let_def angle_free_place [OF ap])
      then show ?thesis
        using assms(1,2) Some reasons_note by (auto simp: judge_def found_constant_def h loc raw Y yl split: if_splits)
    next
      case None
      define msg where "msg n = ''constant by construction: literal bits of the assignment at '' @ place path (int n)" for n
      have ok: "angle_free (msg n)" "msg n \<noteq> []" for n by (simp_all add: msg_def angle_free_place [OF ap])
      obtain v where v: "text_verdict limit (read_source raw) base b = Inr v"
        and st': "st' = (case v of Inl k \<Rightarrow> count_stat k st | Inr n \<Rightarrow> note_const h (msg n) st)"
        using assms(1) Some unfolding judge_def h loc raw None msg_def by (auto simp: loc raw bind_res_Inr_iff)
      show ?thesis
      proof (cases v)
        case (Inl k)
        then show ?thesis using assms(2) Some by (simp add: st' found_constant_def h loc raw None v)
      next
        case (Inr n)
        then show ?thesis
          using reasons_note [OF assms(2) ok(2,1)] Some by (auto simp: st' found_constant_def h loc raw None v)
      qed
    qed
  qed
qed

lemma judge_all:
  "fold_res (judge limit fs ycon) hs st = Inr st' \<Longrightarrow> reasons_ok st \<Longrightarrow> \<forall>h \<in> set hs. angle_free (fst h) \<Longrightarrow>
   \<forall>y labels. ycon = Some (y, labels) \<longrightarrow> angle_free (join '', '' labels) \<Longrightarrow>
   reasons_ok st' \<and> set (const_bits st') = set (const_bits st) \<union> {h \<in> set hs. found_constant limit fs ycon h}"
proof (induction hs arbitrary: st)
  case (Cons h hs)
  obtain st1 where st1: "judge limit fs ycon h st = Inr st1" "fold_res (judge limit fs ycon) hs st1 = Inr st'"
    using Cons.prems(1) by (auto simp: bind_res_Inr_iff)
  from judge_exact [OF st1(1) Cons.prems(2) _ Cons.prems(4)] Cons.IH [OF st1(2)] Cons.prems(3,4)
  show ?case by auto
qed simp

subsection \<open>The entries of a source line\<close>

text \<open>A waiver for the toggle points of one line of one file.\<close>

definition for_line :: "(str \<Rightarrow> str option) \<Rightarrow> str \<Rightarrow> int \<Rightarrow> entry \<Rightarrow> bool" where
  "for_line fs P n e \<longleftrightarrow> e_file e = basename P \<and> e_type e = ''toggle'' \<and> e_sig e \<noteq> [] \<and>
     (e_at e = int_str n \<or> (\<exists>a want. src_anchor fs P n want = Some a \<and> e_at e = ''/'' @ a @ ''/''))"

lemma group_for_line:
  assumes "loc = int_str n \<or> (\<exists>a want. src_anchor fs P n want = Some a \<and> loc = ''/'' @ a @ ''/'')"
    and "\<forall>((page, path, sg), c) \<in> set hits. page = ''v_toggle'' \<and> path = P \<and> sg \<noteq> []"
    and "g \<in> set (by_base hits)" and "e \<in> set (group_entries loc g)"
  shows "for_line fs P n e"
proof -
  obtain page path base ms where g: "g = ((page, path, base), ms)" by (metis prod.exhaust)
  have ms: "ms = map hit_member (filter (\<lambda>h. hit_group h = (page, path, base)) hits)" "ms \<noteq> []"
    using assms(3) unfolding g by_base_mem by auto
  have mem: "page = ''v_toggle'' \<and> path = P \<and> sg \<noteq> []" if "(sg, c) \<in> set ms" for sg c
    using that assms(2) unfolding ms(1) by fastforce
  then have p: "page = ''v_toggle''" "path = P" using ms(2) by (cases ms; fastforce)+
  have "entry_ok loc page path e"
    using assms(4) mem unfolding g by (intro group_entries_ok) blast+
  then show ?thesis using assms(1) by (auto simp: for_line_def entry_ok_def p rev_type_def waiver_types_def)
qed

lemma suggest_for_line:
  assumes "suggest_entries fs recs (basename P) (int_str n) (Some ''toggle'') = Inr (es, skipped, uniq)"
    and "gather (basename P) (int_str n) (Some ''toggle'') recs = Inr hits"
    and "\<forall>((page, path, sg), c) \<in> set hits. page = ''v_toggle'' \<and> path = P \<and> sg \<noteq> []" and "e \<in> set es"
  shows "for_line fs P n e"
proof -
  define live where "live = filter (\<lambda>h. snd h = 0) hits"
  have ne: "live \<noteq> []"
  proof
    assume "live = []"
    then have "es = []" using assms(1) unfolding suggest_entries_def assms(2) live_def by (simp split: if_splits)
    with assms(4) show False by simp
  qed
  then have "hits \<noteq> []" by (auto simp: live_def)
  obtain page path sg where l0: "fst (hd live) = (page, path, sg)" by (metis prod_cases3)
  have "hd live \<in> set hits" using ne hd_in_set [of live] by (simp add: live_def)
  then have "((page, path, sg), snd (hd live)) \<in> set hits" using l0 by (metis prod.collapse)
  then have P: "path = P" using assms(3) by blast
  define loc where "loc = (case src_anchor fs P n (before ''['' sg) of Some a \<Rightarrow> ''/'' @ a @ ''/'' | None \<Rightarrow> int_str n)"
  have es: "es = concat (map (group_entries loc) (by_base hits))"
    using assms(1) ne l0 P \<open>hits \<noteq> []\<close> unfolding suggest_entries_def assms(2) loc_def
    by (simp add: Let_def flip: live_def)
  have "loc = int_str n \<or> (\<exists>a want. src_anchor fs P n want = Some a \<and> loc = ''/'' @ a @ ''/'')"
    by (auto simp: loc_def split: option.splits)
  from group_for_line [OF this assms(3)] assms(4) show ?thesis unfolding es set_concat set_map by blast
qed

lemma for_line_locator:
  assumes "for_line fs P n e"
  shows "at_matches fs (entry_locator (e_at e)) P l \<longleftrightarrow> l = n"
proof -
  consider "e_at e = int_str n" | a want where "src_anchor fs P n want = Some a" "e_at e = ''/'' @ a @ ''/''"
    using assms by (auto simp: for_line_def)
  then show ?thesis
  proof cases
    case 1
    have "\<not> startswith (int_str n) ''/''" using py_int_no_slash [OF py_int_int_str [of n]] by simp
    with 1 show ?thesis by (auto simp: entry_locator_def at_matches_def Let_def)
  next
    case 2
    then have "entry_locator (e_at e) = AtText a" by (simp add: entry_locator_def butlast_append)
    with anchor_exact [OF 2(1)] show ?thesis by simp
  qed
qed

lemma for_line_loadable:
  assumes "for_line fs P n e" and "basename P \<noteq> []" and "e_why e \<noteq> []" and "angle_free (e_why e)"
  shows "loadable e"
proof -
  have "(\<exists>m. e_at e = int_str m) \<or> (\<exists>u. u \<noteq> [] \<and> e_at e = ''/'' @ u @ ''/'')"
    using assms(1) src_anchor_cases unfolding for_line_def by metis
  then show ?thesis
    using assms by (simp add: loadable_def for_line_def angle_free_placeholder waiver_types_def)
qed

lemma for_line_covers:
  assumes "for_line fs P n e" and "covers fs (loaded_entry wh e) Q l page sg"
  shows "basename Q = basename P \<and> page = ''v_toggle'' \<and> (Q = P \<longrightarrow> l = n)"
  using assms for_line_locator [OF assms(1)]
  by (auto simp: covers_def loaded_entry_def for_line_def waiver_types_def)

lemma line_entries:
  assumes "entries_at fs st recs (P, n) = Inr es" and "reasons_ok st" and "(P, n, sg) \<in> set (const_bits st)"
    and "\<forall>(page, p, l, s, c) \<in> set recs. page = ''v_toggle'' \<longrightarrow> clean_sig s" and "basename P \<noteq> []" and "e \<in> set es"
  shows "for_line fs P n e \<and> loadable e"
proof -
  obtain why where why: "map_of (whys st) (P, n) = Some why" "why \<noteq> []" "angle_free why"
    using assms(2,3) by (fastforce simp: reasons_ok_def)
  obtain es0 skipped uniq where s: "suggest_entries fs (fake_records (const_bits st) P n recs) (basename P) (int_str n)
      (Some ''toggle'') = Inr (es0, skipped, uniq)"
    and es: "es = map (\<lambda>e. e\<lparr>e_folded := None, e_why := why\<rparr>) es0"
    using assms(1) why(1) by (auto simp: entries_at_def bind_res_Inr_iff)
  obtain hits where g: "gather (basename P) (int_str n) (Some ''toggle'') (fake_records (const_bits st) P n recs) = Inr hits"
    using s by (auto simp: suggest_entries_def bind_res_Inr_iff)
  have "\<forall>((page, path, sg), c) \<in> set hits. page = ''v_toggle'' \<and> path = P \<and> sg \<noteq> []"
    using fake_hits [OF g py_int_int_str] assms(4) by (fastforce simp: clean_sig_def)
  note line = suggest_for_line [OF s g this]
  from assms(6) obtain e0 where e0: "e0 \<in> set es0" "e = e0\<lparr>e_folded := None, e_why := why\<rparr>" unfolding es by auto
  have "for_line fs P n e" using line [OF e0(1)] by (simp add: for_line_def e0(2))
  with for_line_loadable [OF this assms(5)] why(2,3) show ?thesis by (simp add: e0(2))
qed

lemma map_res_set:
  "map_res f xs = Inr ys \<Longrightarrow> (\<forall>x \<in> set xs. \<exists>y. f x = Inr y) \<and> set ys = {y. \<exists>x \<in> set xs. f x = Inr y}"
  by (induction xs arbitrary: ys) (auto simp: bind_res_Inr_iff)

lemma const_entries_lines:
  assumes "const_entries fs st recs = Inr es"
  shows "(P, n, sg) \<in> set (const_bits st) \<Longrightarrow> \<exists>es1. entries_at fs st recs (P, n) = Inr es1"
    and "e \<in> set es \<longleftrightarrow> (\<exists>P n sg es1. (P, n, sg) \<in> set (const_bits st) \<and> entries_at fs st recs (P, n) = Inr es1 \<and> e \<in> set es1)"
proof -
  obtain ess where ess: "map_res (entries_at fs st recs) (sort (remdups (map (\<lambda>(p, l, sg). (p, l)) (const_bits st)))) = Inr ess"
    and es: "es = concat ess"
    using assms by (auto simp: const_entries_def bind_res_Inr_iff)
  have pairs: "(p, l) \<in> set (sort (remdups (map (\<lambda>(p, l, sg). (p, l)) (const_bits st)))) \<longleftrightarrow> (\<exists>sg. (p, l, sg) \<in> set (const_bits st))" for p l
    by force
  note all = map_res_set [OF ess]
  show "(P, n, sg) \<in> set (const_bits st) \<Longrightarrow> \<exists>es1. entries_at fs st recs (P, n) = Inr es1"
    using all pairs by blast
  have "e \<in> set es \<longleftrightarrow> (\<exists>es1. (\<exists>x \<in> set (sort (remdups (map (\<lambda>(p, l, sg). (p, l)) (const_bits st)))). entries_at fs st recs x = Inr es1) \<and> e \<in> set es1)"
    using all unfolding es by auto
  also have "\<dots> \<longleftrightarrow> (\<exists>P n sg es1. (P, n, sg) \<in> set (const_bits st) \<and> entries_at fs st recs (P, n) = Inr es1 \<and> e \<in> set es1)"
    using pairs by (metis surj_pair)
  finally show "e \<in> set es \<longleftrightarrow> (\<exists>P n sg es1. (P, n, sg) \<in> set (const_bits st) \<and> entries_at fs st recs (P, n) = Inr es1 \<and> e \<in> set es1)" .
qed

subsection \<open>The loaded document\<close>

text \<open>What the waiver documents can tell apart: a file by its base name, a bit by the way Verilator writes names.\<close>

definition clean_report :: "rec5 list \<Rightarrow> bool" where
  "clean_report recs \<longleftrightarrow>
     (\<forall>(page, P, n, sg, c) \<in> set recs. basename P \<noteq> [] \<and> angle_free P \<and> (page = ''v_toggle'' \<longrightarrow> clean_sig sg)) \<and>
     inj_on basename ((fst \<circ> snd) ` set recs)"

lemma uncovered_point:
  assumes "uncovered recs (P, n, sg)"
  obtains c where "(''v_toggle'', P, n, sg, c) \<in> set recs"
  using assms by (auto simp: uncovered_def)

lemma clean_point:
  "clean_report recs \<Longrightarrow> (page, P, n, sg, c) \<in> set recs \<Longrightarrow>
   basename P \<noteq> [] \<and> angle_free P \<and> (page = ''v_toggle'' \<longrightarrow> clean_sig sg)"
  unfolding clean_report_def by (drule conjunct1, drule (1) bspec) simp

lemma clean_names: "clean_report recs \<Longrightarrow> \<forall>(page, p, l, s, c) \<in> set recs. page = ''v_toggle'' \<longrightarrow> clean_sig s"
  by (simp add: clean_report_def split_beta)

lemma generated_lines:
  assumes "const_entries fs st recs = Inr es" and "reasons_ok st" and "clean_report recs"
    and "\<forall>(P, n, sg) \<in> set (const_bits st). uncovered recs (P, n, sg)"
    and "(page, P, n, sg, c) \<in> set recs"
  shows "(\<exists>e \<in> set es. covers fs (loaded_entry wh e) P n page sg) \<longleftrightarrow> page = ''v_toggle'' \<and> (P, n, sg) \<in> set (const_bits st)"
proof -
  note clean = clean_names [OF assms(3)]
  have base: "basename p \<noteq> []" if "(pg, p, l, s, x) \<in> set recs" for pg p l s x
    using clean_point [OF assms(3) that] by blast
  have line: "for_line fs Q m e \<and> loadable e"
    if "(Q, m, s) \<in> set (const_bits st)" "entries_at fs st recs (Q, m) = Inr es1" "e \<in> set es1" for Q m s es1 e
  proof -
    have "uncovered recs (Q, m, s)" using assms(4) that(1) by blast
    then obtain x where "(''v_toggle'', Q, m, s, x) \<in> set recs" by (rule uncovered_point)
    from line_entries [OF that(2) assms(2) that(1) clean base [OF this] that(3)] assms(5) show ?thesis by blast
  qed
  have at_line: "(\<exists>e \<in> set es1. covers fs (loaded_entry wh e) P n ''v_toggle'' sg) \<longleftrightarrow> (P, n, sg) \<in> set (const_bits st)"
    if t: "(''v_toggle'', P, n, sg, c) \<in> set recs" and s: "(P, n, s) \<in> set (const_bits st)"
      and es1: "entries_at fs st recs (P, n) = Inr es1" for s es1
  proof -
    obtain why where why: "map_of (whys st) (P, n) = Some why" "why \<noteq> []" "angle_free why"
      using assms(2) s by (fastforce simp: reasons_ok_def)
    have "entry_waiver rxc (e_why e) wh e = Some (loaded_entry wh e)" if "e \<in> set es1" for e rxc
      using build_loadable [of e rxc wh] line [OF s es1 that] by (simp add: entry_waiver_def)
    then have "(\<exists>e \<in> set es1. covers fs (loaded_entry wh e) P n ''v_toggle'' sg) \<longleftrightarrow>
        (\<exists>e \<in> set es1. \<exists>w. entry_waiver (\<lambda>p. None) (e_why e) wh e = Some w \<and> covers fs w P n ''v_toggle'' sg)"
      by auto
    also have "\<dots> \<longleftrightarrow> (P, n, sg) \<in> set (const_bits st) \<and> (\<forall>c. (''v_toggle'', P, n, sg, c) \<in> set recs \<longrightarrow> c \<le> 0)"
      using clean t by (intro generated_entries_exact [OF es1 _ base [OF t] why(1,2) angle_free_placeholder [OF why(3)] t]) fastforce
    also have "\<dots> \<longleftrightarrow> (P, n, sg) \<in> set (const_bits st)"
      using assms(4) by (fastforce simp: uncovered_def)
    finally show ?thesis .
  qed
  show ?thesis
  proof
    assume "\<exists>e \<in> set es. covers fs (loaded_entry wh e) P n page sg"
    then obtain Q m s es1 e where e: "(Q, m, s) \<in> set (const_bits st)" "entries_at fs st recs (Q, m) = Inr es1" "e \<in> set es1"
      and cov: "covers fs (loaded_entry wh e) P n page sg"
      using const_entries_lines(2) [OF assms(1)] by blast
    have fc: "basename P = basename Q \<and> page = ''v_toggle'' \<and> (P = Q \<longrightarrow> n = m)"
      using for_line_covers [OF _ cov] line [OF e] by blast
    have "uncovered recs (Q, m, s)" using assms(4) e(1) by blast
    then have "Q \<in> (fst \<circ> snd) ` set recs" "P \<in> (fst \<circ> snd) ` set recs"
      using assms(5) by (force simp: uncovered_def)+
    then have PQ: "P = Q" "n = m" using assms(3) fc by (auto simp: clean_report_def dest: inj_onD)
    with at_line [of s es1] e cov fc assms(5) show "page = ''v_toggle'' \<and> (P, n, sg) \<in> set (const_bits st)" by blast
  next
    assume a: "page = ''v_toggle'' \<and> (P, n, sg) \<in> set (const_bits st)"
    then obtain es1 where es1: "entries_at fs st recs (P, n) = Inr es1" using const_entries_lines(1) [OF assms(1)] by blast
    with at_line [OF _ _ es1, of sg] a assms(5) obtain e where "e \<in> set es1" "covers fs (loaded_entry wh e) P n page sg" by blast
    with const_entries_lines(2) [OF assms(1), of e] a es1 show "\<exists>e \<in> set es. covers fs (loaded_entry wh e) P n page sg" by blast
  qed
qed

lemma write_result:
  assumes "const_main rxc fs limit installed use_yosys flatten True cs wpath pts = Inr (Some r)"
    and "(if use_yosys \<and> installed then cs else Inr (Some ([], []))) = Inr (Some (y, labels))"
    and "fs wpath = Some t" and "errors (load_md rxc path t) = []" and "\<not> contains t begin_mark"
    and "records_from_report pts = Inr recs" and "clean_report recs" and "angle_free (join '', '' labels)"
  shows "\<exists>u ws. written r = Some (wpath, u) \<and> errors (load_md rxc path u) = [] \<and>
    items (load_md rxc path u) = items (load_md rxc path t) @ ws \<and>
    (\<forall>(page, P, n, sg, c) \<in> set recs. (\<exists>w \<in> set ws. covers fs w P n page sg) \<longleftrightarrow>
       page = ''v_toggle'' \<and> uncovered recs (P, n, sg) \<and> unwaived fs (items (hand_waivers rxc fs wpath)) (P, n, sg) \<and>
       found_constant limit fs (if use_yosys \<and> installed then Some (y, labels) else None) (P, n, sg))"
proof -
  let ?ycon = "if use_yosys \<and> installed then Some (y, labels) else None"
  let ?hs = "find_holes fs (hand_waivers rxc fs wpath) recs"
  obtain printout es where f: "found fs limit installed use_yosys flatten cs (hand_waivers rxc fs wpath) pts = Inr (Some (printout, es))"
    and fin: "finish True wpath (Some t) (printout, es) = Inr (Some r)"
    using assms(1) unfolding main_split assms(3) by (auto simp: bind_res_Inr_iff split: option.splits)
  obtain st where st: "fold_res (judge limit fs ?ycon) ?hs \<lparr>stats = [], const_bits = [], whys = []\<rparr> = Inr st"
    and es: "const_entries fs st recs = Inr es"
    using f unfolding found_def assms(2,6) bind_res_simps option.case prod.case
    by (simp only: bind_res_Inr_iff sum.inject option.inject prod.inject) blast
  have hole: "h \<in> set ?hs \<longleftrightarrow> uncovered recs h \<and> unwaived fs (items (hand_waivers rxc fs wpath)) h" for h
    by (rule holes_exact)
  have "angle_free P" if "(P, n, sg) \<in> set ?hs" for P n sg
  proof -
    have "uncovered recs (P, n, sg)" using that hole by blast
    with clean_point [OF assms(7)] show ?thesis by (metis uncovered_point)
  qed
  then have "\<forall>h \<in> set ?hs. angle_free (fst h)" by auto
  moreover have "\<forall>y labels. ?ycon = Some (y, labels) \<longrightarrow> angle_free (join '', '' labels)" using assms(8) by simp
  ultimately have ok: "reasons_ok st" and bits: "set (const_bits st) = {h \<in> set ?hs. found_constant limit fs ?ycon h}"
    using judge_all [OF st] by (simp_all add: reasons_ok_def)
  have unc: "\<forall>(P, n, sg) \<in> set (const_bits st). uncovered recs (P, n, sg)" unfolding bits using hole by auto
  have load: "\<forall>e \<in> set es. loadable e"
  proof
    fix e assume "e \<in> set es"
    then obtain P n s es1 where e: "(P, n, s) \<in> set (const_bits st)" "entries_at fs st recs (P, n) = Inr es1" "e \<in> set es1"
      using const_entries_lines(2) [OF es] by blast
    then have "uncovered recs (P, n, s)" using unc by blast
    then obtain c where "(''v_toggle'', P, n, s, c) \<in> set recs" by (rule uncovered_point)
    then have "basename P \<noteq> []" using clean_point [OF assms(7)] by blast
    with line_entries [OF e(2) ok e(1) clean_names [OF assms(7)] _ e(3)] show "loadable e" by blast
  qed
  obtain u k where u: "write_section (join [nl] (section_lines es)) t = Inr u"
    and "scan_fences None 1 (split_nl u) = (fst (scan_fences None 1 (split_nl t)) @ [entry_fence k es], None)"
    using appended_scan [OF no_errors_closed [OF assms(4)] assms(5)] by blast
  with load_continued [OF assms(4) load] have l: "errors (load_md rxc path u) = []"
    "items (load_md rxc path u) = items (load_md rxc path t) @ map (loaded_entry (path, k)) es" by blast+
  have w: "written r = Some (wpath, u)" using fin u by (auto simp: finish_def)
  have "(\<exists>w \<in> set (map (loaded_entry (path, k)) es). covers fs w P n page sg) \<longleftrightarrow>
      page = ''v_toggle'' \<and> uncovered recs (P, n, sg) \<and> unwaived fs (items (hand_waivers rxc fs wpath)) (P, n, sg) \<and>
      found_constant limit fs ?ycon (P, n, sg)" if "(page, P, n, sg, c) \<in> set recs" for page P n sg c
    using generated_lines [OF es ok assms(7) unc that, of "(path, k)"]
    by (simp only: bits mem_Collect_eq hole set_map bex_simps conj_assoc)
  with l w show ?thesis by blast
qed

text \<open>
  C2. The document \<open>--write\<close> produces, loaded by \<open>cov_waive.py\<close>, holds the hand-written waivers as before
  and a list of new ones. Of the points of the report the new ones cover exactly the toggle points that no
  instance hits, that no hand-written waiver covers and that the search found constant: no other point of
  any page, file or line is waived, and none of these is missed.
\<close>

theorem written_waivers_exact:
  assumes "const_main rxc fs limit installed use_yosys flatten True cs wpath pts = Inr (Some r)"
    and "(if use_yosys \<and> installed then cs else Inr (Some ([], []))) = Inr (Some (y, labels))"
    and "fs wpath = Some t" and "errors (load_md rxc path t) = []" and "\<not> contains t begin_mark"
    and "records_from_report pts = Inr recs" and "clean_report recs" and "angle_free (join '', '' labels)"
  shows "\<exists>u ws. written r = Some (wpath, u) \<and> errors (load_md rxc path u) = [] \<and>
    items (load_md rxc path u) = items (load_md rxc path t) @ ws \<and>
    (\<forall>(page, P, n, sg, c) \<in> set recs. (\<exists>w \<in> set ws. covers fs w P n page sg) \<longleftrightarrow>
       page = ''v_toggle'' \<and> uncovered recs (P, n, sg) \<and> unwaived fs (items (hand_waivers rxc fs wpath)) (P, n, sg) \<and>
       found_constant limit fs (if use_yosys \<and> installed then Some (y, labels) else None) (P, n, sg))"
  using assms by (rule write_result)

lemma two_clean: "clean_report [(''v_toggle'', ''rtl/t.v'', 2, ''q[0]'', 0), (''v_toggle'', ''rtl/t.v'', 2, ''q[1]'', 0)]"
proof -
  have "bit_split ''q[0]'' = Some (''q'', nat_str 0)" "bit_split ''q[1]'' = Some (''q'', nat_str 1)"
    "basename ''rtl/t.v'' = ''t.v''" by code_simp+
  then show ?thesis by (auto simp: clean_report_def clean_sig_def plain_glob_def)
qed

lemma two_found:
  "found_constant 5 sample_file (Some ([(''t'', [(''q'', ({0}, 0, 3))])], [''base''])) (''rtl/t.v'', 2, ''q[0]'')"
  "\<not> found_constant 5 sample_file (Some ([(''t'', [(''q'', ({0}, 0, 3))])], [''base''])) (''rtl/t.v'', 2, ''q[1]'')"
  by code_simp+

theorem written_waivers_exact_witness:
  "\<exists>u ws. written sample_result = Some (''w.md'', u) \<and> errors (load_md (\<lambda>p. None) ''w.md'' u) = [] \<and>
    items (load_md (\<lambda>p. None) ''w.md'' u) = items (load_md (\<lambda>p. None) ''w.md'' sample_md) @ ws \<and>
    (\<exists>w \<in> set ws. covers sample_file w ''rtl/t.v'' 2 ''v_toggle'' ''q[0]'') \<and>
    \<not> (\<exists>w \<in> set ws. covers sample_file w ''rtl/t.v'' 2 ''v_toggle'' ''q[1]'')"
proof -
  let ?recs = "[(''v_toggle'', ''rtl/t.v'', 2, ''q[0]'', 0), (''v_toggle'', ''rtl/t.v'', 2, ''q[1]'', 0)] :: rec5 list"
  have doc: "sample_file ''w.md'' = Some sample_md" by (simp add: sample_file_def)
  have cs: "(if True \<and> True then one_constant else Inr (Some ([], []))) = Inr (Some ([(''t'', [(''q'', ({0}, 0, 3))])], [''base'']))"
    by (simp add: one_constant_def)
  have "angle_free (join '', '' [''base''])" by simp
  from written_waivers_exact [OF sample_run cs doc sample_md_loads sample_md_plain two_records two_clean this]
  obtain u ws where u: "written sample_result = Some (''w.md'', u)" "errors (load_md (\<lambda>p. None) ''w.md'' u) = []"
    "items (load_md (\<lambda>p. None) ''w.md'' u) = items (load_md (\<lambda>p. None) ''w.md'' sample_md) @ ws"
    and all: "\<forall>(page, P, n, sg, c) \<in> set ?recs. (\<exists>w \<in> set ws. covers sample_file w P n page sg) \<longleftrightarrow>
      page = ''v_toggle'' \<and> uncovered ?recs (P, n, sg) \<and> unwaived sample_file (items (hand_waivers (\<lambda>p. None) sample_file ''w.md'')) (P, n, sg) \<and>
      found_constant 5 sample_file (if True \<and> True then Some ([(''t'', [(''q'', ({0}, 0, 3))])], [''base'']) else None) (P, n, sg)"
    by blast
  have "unwaived sample_file (items (hand_waivers (\<lambda>p. None) sample_file ''w.md'')) (''rtl/t.v'', 2, ''q[0]'')" by code_simp
  moreover have "uncovered ?recs (''rtl/t.v'', 2, ''q[0]'')" by (auto simp: uncovered_def)
  ultimately have "(\<exists>w \<in> set ws. covers sample_file w ''rtl/t.v'' 2 ''v_toggle'' ''q[0]'') \<and>
      \<not> (\<exists>w \<in> set ws. covers sample_file w ''rtl/t.v'' 2 ''v_toggle'' ''q[1]'')"
    using all two_found by simp
  with u show ?thesis by blast
qed

end
