(* ===== verification/ReportAfterWrite.thy ===== *)
theory ReportAfterWrite
  imports WrittenWaivers SameTotals Flatten
begin

text \<open>
  From the constant search to the report: \<open>cov_report.py\<close> run before and after \<open>cov_const.py --write\<close>. The
  second report leaves out what the first one left out and, beyond that, exactly the toggle points of the
  source locations found constant.
\<close>

subsection \<open>The same document under another name\<close>

text \<open>The path of a document enters the waivers only as their origin.\<close>

definition unsourced :: "waiver list \<Rightarrow> waiver list" where
  "unsourced ws = map (\<lambda>w. w\<lparr>w_src := ([], 0)\<rparr>) ws"

lemma unsourced_covers:
  assumes "unsourced ws = unsourced vs"
  shows "(\<exists>w \<in> set ws. covers fs w P n page sg) \<longleftrightarrow> (\<exists>w \<in> set vs. covers fs w P n page sg)"
proof -
  have "(\<exists>w \<in> set us. covers fs w P n page sg) \<longleftrightarrow> (\<exists>w \<in> set (unsourced us). covers fs w P n page sg)" for us
    by (simp add: unsourced_def covers_def)
  with assms show ?thesis by metis
qed

lemma parse_types_origin: "fst (parse_types wh ts) = fst (parse_types wh' ts)"
  by (induction ts) (auto simp: Let_def split: prod.splits option.splits)

lemma parse_locator_origin: "parse_locator rxc wh s = Inr loc \<Longrightarrow> parse_locator rxc wh' s = Inr loc"
  by (auto simp: parse_locator_def Let_def split: if_splits option.splits)

lemma build_origin:
  "map_option (w_src_update (\<lambda>s. ([], 0))) (snd (build_waiver rxc wh w)) =
   map_option (w_src_update (\<lambda>s. ([], 0))) (snd (build_waiver rxc wh' w))"
proof (cases w)
  case (JObj ms)
  let ?erase = "map_option (w_src_update (\<lambda>s. ([], 0)))"
  have distrib: "?erase (snd (if c then x else y)) = (if c then ?erase (snd x) else ?erase (snd y))"
    "?erase (if c then None else Some v) = (if c then None else Some (v\<lparr>w_src := ([], 0)\<rparr>))" for c v and x y :: "werror list \<times> waiver option"
    by simp_all
  have point: "?erase (snd (case parse_locator rxc wh loc of Inl e \<Rightarrow> ([e], None)
        | Inr l \<Rightarrow> case parse_types wh ts of (pgs, errs) \<Rightarrow>
            (errs, if pgs = {} then None else Some \<lparr>w_file = fname, w_at = l, w_pages = pgs, w_sig = sg, w_reason = why, w_src = wh, w_hits = 0\<rparr>))) =
      ?erase (snd (case parse_locator rxc wh' loc of Inl e \<Rightarrow> ([e], None)
        | Inr l \<Rightarrow> case parse_types wh' ts of (pgs, errs) \<Rightarrow>
            (errs, if pgs = {} then None else Some \<lparr>w_file = fname, w_at = l, w_pages = pgs, w_sig = sg, w_reason = why, w_src = wh', w_hits = 0\<rparr>)))"
    for loc ts fname sg why
  proof (cases "parse_locator rxc wh loc")
    case (Inl e)
    obtain e' where "parse_locator rxc wh' loc = Inl e'"
    proof (cases "parse_locator rxc wh' loc")
      case (Inr l)
      from parse_locator_origin [OF Inr, of wh] Inl show ?thesis by simp
    qed (rule that)
    with Inl show ?thesis by simp
  next
    case (Inr l)
    with parse_types_origin [of wh ts wh'] parse_locator_origin [OF Inr, of wh'] show ?thesis by (simp add: split_beta)
  qed
  show ?thesis
    unfolding build_waiver_def JObj json.case Let_def distrib(1) point by (simp only: snd_conv option.map)
qed (simp_all add: build_waiver_def)

lemma add_dict_origin:
  assumes "unsourced (items wv) = unsourced (items vv)"
  shows "unsourced (items (add_dict rxc w wh wv)) = unsourced (items (add_dict rxc w wh' vv))"
  using assms build_origin [of rxc wh w wh']
  by (cases "snd (build_waiver rxc wh w)"; cases "snd (build_waiver rxc wh' w)")
     (simp_all add: add_dict_def add_built_def add_errors_def add_item_def unsourced_def)

lemma load_fence_origin:
  assumes "unsourced (items (snd st)) = unsourced (items (snd st'))"
  shows "unsourced (items (snd (load_fence rxc p f st))) = unsourced (items (snd (load_fence rxc q f st')))"
proof -
  have fold: "unsourced (items (fold (\<lambda>w. add_dict rxc w wh) ws wv)) = unsourced (items (fold (\<lambda>w. add_dict rxc w wh') ws vv))"
    if "unsourced (items wv) = unsourced (items vv)" for ws wh wh' wv vv
    using that
  proof (induction ws arbitrary: wv vv)
    case (Cons w ws)
    from Cons.IH [OF add_dict_origin [OF Cons.prems]] show ?case by simp
  qed simp
  show ?thesis
    using assms by (cases f; cases st; cases st')
      (auto simp: load_fence_def add_errors_def fold split: option.split json.split)
qed

lemma load_md_origin: "unsourced (items (load_md rxc p t)) = unsourced (items (load_md rxc q t))"
proof -
  have fold: "unsourced (items (snd (fold (load_fence rxc p) bs st))) = unsourced (items (snd (fold (load_fence rxc q) bs st')))"
    if "unsourced (items (snd st)) = unsourced (items (snd st'))" for bs st st'
    using that
  proof (induction bs arbitrary: st st')
    case (Cons b bs)
    from Cons.IH [OF load_fence_origin [OF Cons.prems]] show ?case by simp
  qed simp
  from fold [of "(0, no_waivers)" "(0, no_waivers)"] show ?thesis
    by (auto simp: load_md_def add_errors_def split_beta split: prod.split option.split)
qed

lemma hand_waivers_covers:
  assumes "fs wpath = Some t" and "\<not> contains t begin_mark"
  shows "(\<exists>w \<in> set (items (hand_waivers rxc fs wpath)). covers fs w P n page sg) \<longleftrightarrow>
    (\<exists>w \<in> set (items (load_md rxc path t)). covers fs w P n page sg)"
proof -
  have "endswith (w @ ''.manual.tmp.md'') ''.md''" for w by (simp add: endswith_def)
  then have "hand_waivers rxc fs wpath = load_md rxc (take (length wpath - 3) wpath @ ''.manual.tmp.md'') t"
    using assms no_section [of t] by (simp add: hand_waivers_def load_waivers_def manual_part_def)
  then show ?thesis using unsourced_covers [OF load_md_origin] by simp
qed

subsection \<open>Points of the report\<close>

lemma parse_pages: "(key, page, path, c) \<in> set (parse pats dats) \<Longrightarrow> before ''/'' page = page"
proof -
  have cut: "before ''/'' (before ''/'' s) = before ''/'' s" for s :: str
    using before_not_contains [of "''/''" s] by (simp add: before_def [of _ "before ''/'' s"] split: option.splits) (metis cut_None_iff option.distinct(1))
  let ?ok = "\<lambda>pts. \<forall>p \<in> set pts. before ''/'' (fst (snd p)) = fst (snd p)"
  have upd: "?ok pts \<Longrightarrow> before ''/'' pg = pg \<Longrightarrow> ?ok (AList.update k (pg, pa, x) pts)"
    for pts :: points and pg k pa x
    by (auto dest!: update_entry)
  have raw: "?ok (parse_raw pats dats)"
    using parse_raw_fields cut by (fastforce simp: page_of_key_def)
  have dirs: "?ok pts \<Longrightarrow> ?ok out \<Longrightarrow> ?ok (fold fold_dir pts out)" for pts out :: points
  proof (induction pts arbitrary: out)
    case (Cons p pts)
    obtain k pg pa x where p: "p = (k, pg, pa, x)" by (metis prod_cases4)
    have "before ''/'' pg = pg" using Cons.prems(1) by (simp add: p)
    then have "?ok (fold_dir p out)"
      unfolding fold_dir_def p prod.case by (split if_split) (intro conjI impI upd Cons.prems(2))
    with Cons show ?case by simp
  qed simp
  have cols: "?ok pts \<Longrightarrow> ?ok out \<Longrightarrow> ?ok (fold (\<lambda>(key, page, path, c) out. AList.update (g key page path) (page, path, c) out) pts out)"
    for pts and out :: points and g :: "str \<Rightarrow> str \<Rightarrow> str \<Rightarrow> str"
  proof (induction pts arbitrary: out)
    case (Cons p pts)
    obtain k pg pa x where p: "p = (k, pg, pa, x)" by (metis prod_cases4)
    have "before ''/'' pg = pg" using Cons.prems(1) by (simp add: p)
    then have "?ok (AList.update (g k pg pa) (pg, pa, x) out)" by (rule upd [OF Cons.prems(2)])
    with Cons show ?case by (simp add: p)
  qed simp
  have "?ok (fold_dirs (parse_raw pats dats))" unfolding fold_dirs_def by (rule dirs [OF raw]) (simp only: list.set ball_empty)
  then have "?ok (parse pats dats)"
    unfolding parse_def name_columns_def using cols [of _ "[]" "\<lambda>key page path. _ key page path"] by simp
  moreover assume "(key, page, path, c) \<in> set (parse pats dats)"
  ultimately show ?thesis by fastforce
qed

lemma accumulated_point:
  assumes "(k, page, path, c) \<in> set (accumulate pts)"
  shows "\<exists>key c0. (key, page, path, c0) \<in> set pts \<and> k = acc_key (key, page, path, c0)"
proof -
  let ?Q = "\<lambda>k v. \<exists>key c0. (key, fst v, fst (snd v), c0) \<in> set pts \<and> k = acc_key (key, fst v, fst (snd v), c0)"
  have "?Q k (page, path, c)"
    using assms unfolding accumulate_table
    by (rule table_inv [where Q = ?Q, rotated 2]) (auto simp: acc_val_def intro!: exI)
  then show ?thesis by simp
qed

text \<open>The location of a point of the report, as the waivers see it.\<close>

definition place_of :: "pkey \<times> pval \<Rightarrow> hole" where
  "place_of p = (case p of (k, page, path, c) \<Rightarrow> (path, (case key_line k of Inr n \<Rightarrow> n | Inl e \<Rightarrow> 0), key_sig k))"

lemma point_record:
  assumes "records_from_report pts = Inr recs" and "p \<in> set (accumulate pts)" and "place_of p = (P, n, sg)"
    and "\<forall>(key, page, path, c) \<in> set pts. before ''/'' page = page"
  shows "(\<exists>c. (fst (snd p), P, n, sg, c) \<in> set recs) \<and> fst (snd (snd p)) = P \<and>
    (waived_by fs ws p \<longleftrightarrow> (\<exists>w \<in> set ws. covers fs w P n (fst (snd p)) sg))"
proof -
  obtain k page path c where p: "p = (k, page, path, c)" by (metis prod_cases4)
  obtain key c0 where key: "(key, page, path, c0) \<in> set pts" and k: "k = acc_key (key, page, path, c0)"
    using accumulated_point assms(2) unfolding p by blast
  have pg: "before ''/'' page = page" using assms(4) key by blast
  obtain line where line: "int_or_0 (get_or ''l'' [] (key_fields key)) = Inr line"
    and rec: "(page, path, line, get_or ''o'' [] (key_fields key), c0) \<in> set recs"
    using map_res_set [OF assms(1) [unfolded records_from_report_def]] key pg
    by (fastforce simp: Let_def bind_res_Inr_iff)
  have kl: "key_line k = Inr line" "key_sig k = get_or ''o'' [] (key_fields key)"
    using line by (simp_all add: k acc_key_def Let_def)
  with assms(3) have "P = path" "n = line" "sg = get_or ''o'' [] (key_fields key)" by (simp_all add: place_of_def p)
  with rec kl show ?thesis by (auto simp: p waived_by_def first_index_None)
qed

subsection \<open>The report before and after\<close>

lemma waived_append: "waived_by fs (ws @ vs) p \<longleftrightarrow> waived_by fs ws p \<or> waived_by fs vs p"
proof -
  obtain k page path c where p: "p = (k, page, path, c)" by (metis prod_cases4)
  show ?thesis
  proof (cases "key_line k")
    case (Inr line)
    have eq: "waived_by fs us p \<longleftrightarrow> \<not> (\<forall>w \<in> set us. \<not> covers fs w path line page (key_sig k))" for us
      unfolding waived_by_def p prod.case Inr sum.case first_index_None ..
    show ?thesis unfolding eq set_append ball_Un by (rule de_Morgan_conj)
  qed (simp add: waived_by_def p)
qed

lemma waive_all_kept:
  assumes "waive_all fs (load_waivers rxc fs' path) pts = Inr (kept, waived, wv)"
  shows "kept = filter (\<lambda>p. \<not> waived_by fs (items (load_waivers rxc fs' path)) p) pts"
proof -
  have "cache_ok fs (srccache (load_waivers rxc fs' path))" using set_ok_load_waivers [of rxc fs' path] by (simp add: set_ok_def)
  from waive_fold [OF this _ refl assms [unfolded waive_all_def]] show ?thesis by simp
qed

text \<open>The toggle points that \<open>--write\<close> finds constant and no test hits.\<close>

definition constant_hole :: "nat \<Rightarrow> (str \<Rightarrow> str option) \<Rightarrow> (constants \<times> str list) option \<Rightarrow> rec5 list \<Rightarrow> pkey \<times> pval \<Rightarrow> bool" where
  "constant_hole limit fs ycon recs p \<longleftrightarrow>
     fst (snd p) = ''v_toggle'' \<and> uncovered recs (place_of p) \<and> found_constant limit fs ycon (place_of p)"

text \<open>
  C3. The tools in a row: when \<open>cov_const.py --write\<close> has run on a set of databases, the report on the same
  databases leaves out the points it left out before and, beyond them, exactly the toggle points of locations no
  test hits that the search found constant. Every other point stays in the report, in its place.
\<close>

theorem report_after_write:
  assumes "const_main rxc fs limit installed use_yosys flatten True cs wpath (parse pats dats) = Inr (Some r)"
    and "(if use_yosys \<and> installed then cs else Inr (Some ([], []))) = Inr (Some (y, labels))"
    and "fs wpath = Some t" and "errors (load_md rxc wpath t) = []" and "\<not> contains t begin_mark"
    and "records_from_report (parse pats dats) = Inr recs" and "clean_report recs" and "angle_free (join '', '' labels)"
    and "endswith wpath ''.md''" and "wpath \<notin> (fst \<circ> snd) ` set recs" and "written r = Some (wpath, u)"
    and "waive_all fs (load_waivers rxc fs (Some wpath)) (accumulate (parse pats dats)) = Inr (kept, waived, wv)"
    and "waive_all (fs(wpath := Some u)) (load_waivers rxc (fs(wpath := Some u)) (Some wpath)) (accumulate (parse pats dats)) =
      Inr (kept', waived', wv')"
  shows "kept' = filter (\<lambda>p. \<not> constant_hole limit fs (if use_yosys \<and> installed then Some (y, labels) else None) recs p) kept"
proof -
  let ?ycon = "if use_yosys \<and> installed then Some (y, labels) else None"
  let ?fs = "fs(wpath := Some u)"
  have ne: "wpath \<noteq> []" using assms(9) by (auto simp: endswith_def)
  obtain ws where ws: "items (load_md rxc wpath u) = items (load_md rxc wpath t) @ ws"
    and exact: "\<forall>(page, P, n, sg, c) \<in> set recs. (\<exists>w \<in> set ws. covers fs w P n page sg) \<longleftrightarrow>
       page = ''v_toggle'' \<and> uncovered recs (P, n, sg) \<and> unwaived fs (items (hand_waivers rxc fs wpath)) (P, n, sg) \<and>
       found_constant limit fs ?ycon (P, n, sg)"
    using write_result [OF assms(1-8)] assms(11) by auto
  have old: "load_waivers rxc fs (Some wpath) = load_md rxc wpath t"
    and new: "load_waivers rxc ?fs (Some wpath) = load_md rxc wpath u"
    using assms(3,9) ne by (simp_all add: load_waivers_def)
  note kept = waive_all_kept [OF assms(12), unfolded old] and kept' = waive_all_kept [OF assms(13), unfolded new ws waived_append]
  have "(waived_by ?fs (items (load_md rxc wpath t)) p \<or> waived_by ?fs ws p) \<longleftrightarrow>
      waived_by fs (items (load_md rxc wpath t)) p \<or> constant_hole limit fs ?ycon recs p"
    if p: "p \<in> set (accumulate (parse pats dats))" for p
  proof -
    obtain P n sg where pl: "place_of p = (P, n, sg)" by (metis prod_cases3)
    have slash: "\<forall>(key, page, path, c) \<in> set (parse pats dats). before ''/'' page = page" using parse_pages by blast
    note pr = point_record [OF assms(6) p pl slash]
    then obtain c where rec: "(fst (snd p), P, n, sg, c) \<in> set recs" by blast
    have "P \<noteq> wpath" using rec assms(10) by force
    then have cov: "covers ?fs w P n pg s \<longleftrightarrow> covers fs w P n pg s" for w pg s
      by (simp add: covers_def at_matches_def read_lines_def)
    have w: "waived_by ?fs vs p \<longleftrightarrow> waived_by fs vs p" for vs using pr cov by simp
    have "waived_by fs ws p \<longleftrightarrow> fst (snd p) = ''v_toggle'' \<and> uncovered recs (P, n, sg) \<and>
        unwaived fs (items (hand_waivers rxc fs wpath)) (P, n, sg) \<and> found_constant limit fs ?ycon (P, n, sg)"
      using pr exact rec by fastforce
    moreover have "unwaived fs (items (hand_waivers rxc fs wpath)) (P, n, sg) \<longleftrightarrow>
        \<not> (\<exists>w \<in> set (items (load_md rxc wpath t)). covers fs w P n ''v_toggle'' sg)"
      using hand_waivers_covers [where fs = fs and wpath = wpath and t = t and path = wpath, OF assms(3,5)] unfolding unwaived_def prod.case by blast
    moreover have "waived_by fs (items (load_md rxc wpath t)) p \<longleftrightarrow> (\<exists>w \<in> set (items (load_md rxc wpath t)). covers fs w P n (fst (snd p)) sg)"
      using pr by blast
    ultimately show ?thesis unfolding w constant_hole_def pl by metis
  qed
  then show ?thesis unfolding kept kept' filter_filter by (intro filter_cong refl) blast
qed

lemma waive_all_total:
  assumes "\<forall>p \<in> set pts. \<exists>n. key_line (fst p) = Inr n"
  shows "\<exists>kept waived wv'. waive_all fs wv pts = Inr (kept, waived, wv')"
proof -
  have "\<exists>kept waived wv'. fold_res (waive_step fs) pts (ks, ws, wv) = Inr (kept, waived, wv')" for ks ws wv
    using assms
  proof (induction pts arbitrary: ks ws wv)
    case (Cons p pts)
    obtain k page path c where p: "p = (k, page, path, c)" by (metis prod_cases4)
    obtain n where n: "key_line k = Inr n" using Cons.prems by (auto simp: p)
    obtain o' wv1 where m: "match fs path n page (key_sig k) wv = (o', wv1)" by fastforce
    have "\<exists>ks1 ws1 wv1. waive_step fs p (ks, ws, wv) = Inr (ks1, ws1, wv1)" by (cases o') (simp_all add: waive_step_def p n m)
    moreover have "\<exists>kept waived wv'. fold_res (waive_step fs) pts (ks1, ws1, wv1) = Inr (kept, waived, wv')" for ks1 ws1 wv1
      using Cons.IH Cons.prems by simp
    ultimately show ?case by auto
  qed simp
  then show ?thesis by (simp add: waive_all_def)
qed

definition toggle_db :: str where
  "toggle_db = concat (map (\<lambda>sg. ''C '' @ [CHR 0x27, x01] @ ''f'' @ [x02] @ ''rtl/t.v'' @ [x01] @ ''l'' @ [x02] @ ''2'' @ [x01] @
     ''page'' @ [x02] @ ''v_toggle/t'' @ [x01] @ ''o'' @ [x02] @ sg @ [CHR 0x27] @ '' 0'' @ [nl]) [''q[0]'', ''q[1]''])"

lemma toggle_records: "records_from_report (parse [''rtl/''] [toggle_db]) = records_from_report two_holes"
  unfolding two_records by code_simp

lemma toggle_points: "map (\<lambda>p. (key_line (fst p), fst (snd p), place_of p)) (accumulate (parse [''rtl/''] [toggle_db])) =
    [(Inr 2, ''v_toggle'', ''rtl/t.v'', 2, ''q[0]''), (Inr 2, ''v_toggle'', ''rtl/t.v'', 2, ''q[1]'')]"
  by code_simp

lemma toggle_kept: "\<exists>waived wv. waive_all sample_file (load_waivers (\<lambda>p. None) sample_file (Some ''w.md'')) (accumulate (parse [''rtl/''] [toggle_db])) =
    Inr (accumulate (parse [''rtl/''] [toggle_db]), waived, wv)"
proof -
  have "(case waive_all sample_file (load_waivers (\<lambda>p. None) sample_file (Some ''w.md'')) (accumulate (parse [''rtl/''] [toggle_db])) of
      Inr (kept, waived, wv) \<Rightarrow> kept = accumulate (parse [''rtl/''] [toggle_db]) | Inl e \<Rightarrow> False)" by code_simp
  then show ?thesis by (auto split: sum.splits)
qed

theorem report_after_write_witness:
  "\<exists>u kept' waived' wv'. written sample_result = Some (''w.md'', u) \<and>
    waive_all (sample_file(''w.md'' := Some u)) (load_waivers (\<lambda>p. None) (sample_file(''w.md'' := Some u)) (Some ''w.md''))
      (accumulate (parse [''rtl/''] [toggle_db])) = Inr (kept', waived', wv') \<and>
    map (\<lambda>p. place_of p) kept' = [(''rtl/t.v'', 2, ''q[1]'')]"
proof -
  let ?recs = "[(''v_toggle'', ''rtl/t.v'', 2, ''q[0]'', 0), (''v_toggle'', ''rtl/t.v'', 2, ''q[1]'', 0)] :: rec5 list"
  let ?pts = "accumulate (parse [''rtl/''] [toggle_db])"
  let ?u = "with_section sample_md (section_body [found_entry])"
  have run: "const_main (\<lambda>p. None) sample_file 5 True True True True one_constant ''w.md'' (parse [''rtl/''] [toggle_db]) = Inr (Some sample_result)"
    using sample_run unfolding const_main_def toggle_records .
  have recs: "records_from_report (parse [''rtl/''] [toggle_db]) = Inr ?recs" using toggle_records two_records by simp
  have doc: "sample_file ''w.md'' = Some sample_md" by (simp add: sample_file_def)
  have cs: "(if True \<and> True then one_constant else Inr (Some ([], []))) = Inr (Some ([(''t'', [(''q'', ({0}, 0, 3))])], [''base'']))"
    by (simp add: one_constant_def)
  have w: "angle_free (join '', '' [''base''])" "endswith ''w.md'' ''.md''" "''w.md'' \<notin> (fst \<circ> snd) ` set ?recs"
    "written sample_result = Some (''w.md'', ?u)" by (simp_all add: endswith_def sample_result_def)
  obtain waived wv where before: "waive_all sample_file (load_waivers (\<lambda>p. None) sample_file (Some ''w.md'')) ?pts = Inr (?pts, waived, wv)"
    using toggle_kept by blast
  have "fst ` (\<lambda>p. (key_line (fst p), fst (snd p), place_of p)) ` set ?pts \<subseteq> {Inr 2}"
    unfolding set_map [symmetric] toggle_points by simp
  then have "\<forall>p \<in> set ?pts. \<exists>n. key_line (fst p) = Inr n" by (fastforce simp: image_image)
  from waive_all_total [OF this] obtain kept' waived' wv' where after: "waive_all (sample_file(''w.md'' := Some ?u))
      (load_waivers (\<lambda>p. None) (sample_file(''w.md'' := Some ?u)) (Some ''w.md'')) ?pts = Inr (kept', waived', wv')" by blast
  have kept': "kept' = filter (\<lambda>p. \<not> constant_hole 5 sample_file (if True \<and> True then Some ([(''t'', [(''q'', ({0}, 0, 3))])], [''base'']) else None) ?recs p) ?pts"
    by (rule report_after_write [OF run cs doc sample_md_loads sample_md_plain recs two_clean w before after])
  obtain p q where pq: "?pts = [p, q]" "place_of p = (''rtl/t.v'', 2, ''q[0]'')" "place_of q = (''rtl/t.v'', 2, ''q[1]'')"
    "fst (snd p) = ''v_toggle''" "fst (snd q) = ''v_toggle''"
    using toggle_points by (auto simp: map_eq_Cons_conv)
  have "uncovered ?recs (''rtl/t.v'', 2, ''q[0]'')" by (auto simp: uncovered_def)
  then have places: "map place_of kept' = [(''rtl/t.v'', 2, ''q[1]'')]"
    unfolding kept' pq(1) using pq(2-5) two_found by (simp add: constant_hole_def)
  show ?thesis by (intro exI conjI, rule w(4), rule after, rule places)
qed

end
