(* ===== verification/PageWindow.thy ===== *)
theory PageWindow
  imports PageScript
begin

text \<open>
  The rest of the script of the page: the row that flashes when the walk arrives at it, the tip window that
  follows the mouse over the source pane, and the copy button of the suggestion box. The layout is the
  browser's: the size of the tip window and of the page come with the event of the mouse, and so does the answer
  of the clipboard. Scrolling is left out.
\<close>

subsection \<open>Attributes\<close>

text \<open>
  The script writes the text of a tip into an attribute of the row and reads the attribute back from the
  document. What the browser makes of the text between the double quotes is an argument \<open>attr\<close> of the model;
  the HTML standard describes it: the references \<open>esc\<close> writes stand for their characters and every other
  character for itself, except for carriage returns and null characters, which parsing replaces.
\<close>

definition reads_attributes :: "(jstr \<Rightarrow> jstr) \<Rightarrow> bool" where
  "reads_attributes attr \<longleftrightarrow> attr [] = [] \<and>
     (\<forall>t. attr (units ''&amp;'' @ t) = 38 # attr t) \<and> (\<forall>t. attr (units ''&lt;'' @ t) = 60 # attr t) \<and>
     (\<forall>t. attr (units ''&gt;'' @ t) = 62 # attr t) \<and> (\<forall>t. attr (units ''&quot;'' @ t) = 34 # attr t) \<and>
     (\<forall>c t. c \<notin> {0, 13, 34, 38} \<longrightarrow> attr (c # t) = c # attr t)"

text \<open>Text that parsing leaves alone.\<close>

definition kept_by_parsing :: "jstr \<Rightarrow> bool" where
  "kept_by_parsing t \<longleftrightarrow> 0 \<notin> set t \<and> 13 \<notin> set t"

subsection \<open>The state of the window\<close>

record mouse =
  client :: "int \<times> int"
  tip_size :: "int \<times> int"
  inner_size :: "int \<times> int"

record window =
  w_page :: page_state
  w_flash :: "nat option"
  w_tip :: jstr
  w_tip_open :: bool
  w_tip_at :: "int \<times> int"
  w_copies :: "jstr list"
  w_label :: str
  w_answers :: nat
  w_timers :: nat

datatype gesture = Do event | MouseAt "nat option" mouse | MouseLeave | CopyClick | CopyAnswer bool | CopyTimer

text \<open>The line of the row with the class \<open>flash\<close>: the walk moves it, drawing the pane removes it.\<close>

definition drawn :: "page_state \<Rightarrow> nat option \<Rightarrow> nat option" where
  "drawn st fl = (if cur_file st = None then fl else None)"

definition walked :: "page_state \<Rightarrow> nat option \<Rightarrow> nat option" where
  "walked st fl = (if hole_rows st = [] then fl else Some (hole_rows st ! nat (hole_idx st)))"

fun flash_after :: "event \<Rightarrow> page_state \<Rightarrow> nat option \<Rightarrow> nat option" where
  "flash_after (Metric p) st fl = drawn st fl"
| "flash_after (ClickFile n) st fl = drawn st fl"
| "flash_after (PerInstance b) st fl = drawn st fl"
| "flash_after NextHole st fl = walked st fl"
| "flash_after PrevHole st fl = walked st fl"
| "flash_after (WalkWaived b) st fl = fl"
| "flash_after WaiverButton st fl = fl"
| "flash_after SectionButton st fl = fl"
| "flash_after CloseBox st fl = fl"

text \<open>The tip is put below and right of the mouse, or on the other side when it does not fit there.\<close>

definition tip_place :: "mouse \<Rightarrow> int \<times> int" where
  "tip_place m =
     (let (cx, cy) = client m; (w, h) = tip_size m; (iw, ih) = inner_size m; x = cx + 16; y = cy + 14
      in (if iw - 8 < x + w then cx - w - 16 else x, if ih - 8 < y + h then max 8 (cy - h - 14) else y))"

definition row_data :: "(jstr \<Rightarrow> jstr) \<Rightarrow> page_state \<Rightarrow> nat option \<Rightarrow> jstr" where
  "row_data attr st row =
     (case row of
        None \<Rightarrow> []
      | Some l \<Rightarrow> (case List.find (\<lambda>r. fst r = l) (src_rows st) of None \<Rightarrow> [] | Some r \<Rightarrow> attr (snd (snd r))))"

fun window_step :: "(jstr \<Rightarrow> jstr) \<Rightarrow> (str \<Rightarrow> nat list) \<Rightarrow> site \<Rightarrow> gesture \<Rightarrow> window \<Rightarrow> window" where
  "window_step attr coll w (Do ev) win =
     (let st = page_step coll w ev (w_page win) in win\<lparr>w_page := st, w_flash := flash_after ev st (w_flash win)\<rparr>)"
| "window_step attr coll w (MouseAt row m) win =
     (let t = row_data attr (w_page win) row
      in if t = [] then win\<lparr>w_tip_open := False\<rparr> else win\<lparr>w_tip := t, w_tip_open := True, w_tip_at := tip_place m\<rparr>)"
| "window_step attr coll w MouseLeave win = win\<lparr>w_tip_open := False\<rparr>"
| "window_step attr coll w CopyClick win =
     (if box_open (w_page win)
      then win\<lparr>w_copies := w_copies win @ [box_text (w_page win)], w_answers := Suc (w_answers win)\<rparr> else win)"
| "window_step attr coll w (CopyAnswer ok) win =
     (if w_answers win = 0 then win
      else if ok then win\<lparr>w_answers := w_answers win - 1, w_label := ''copied'', w_timers := Suc (w_timers win)\<rparr>
      else win\<lparr>w_answers := w_answers win - 1, w_label := ''select+copy''\<rparr>)"
| "window_step attr coll w CopyTimer win =
     (if w_timers win = 0 then win else win\<lparr>w_timers := w_timers win - 1, w_label := ''copy''\<rparr>)"

definition window_start :: "(str \<Rightarrow> nat list) \<Rightarrow> site \<Rightarrow> window" where
  "window_start coll w =
     \<lparr>w_page = page_start coll w, w_flash = None, w_tip = [], w_tip_open = False, w_tip_at = (0, 0), w_copies = [],
      w_label = ''copy'', w_answers = 0, w_timers = 0\<rparr>"

inductive reachable_window :: "(jstr \<Rightarrow> jstr) \<Rightarrow> (str \<Rightarrow> nat list) \<Rightarrow> site \<Rightarrow> window \<Rightarrow> bool" for attr coll w where
  start: "reachable_window attr coll w (window_start coll w)"
| step: "reachable_window attr coll w win \<Longrightarrow> reachable_window attr coll w (window_step attr coll w g win)"

lemma window_page:
  "w_page (window_step attr coll w g win) = (case g of Do ev \<Rightarrow> page_step coll w ev (w_page win) | _ \<Rightarrow> w_page win)"
  by (cases g) (simp_all add: Let_def)

lemma reachable_window_page: "reachable_window attr coll w win \<Longrightarrow> reachable_page coll w (w_page win)"
proof (induction rule: reachable_window.induct)
  case start
  show ?case by (simp add: window_start_def reachable_page.start)
next
  case (step win g)
  then show ?case unfolding window_page by (auto intro: reachable_page.step split: gesture.split)
qed

subsection \<open>The tip of a row\<close>

lemma attr_esc:
  assumes "reads_attributes attr" "kept_by_parsing t"
  shows "attr (esc t) = t"
  using assms(2)
proof (induction t)
  case Nil
  then show ?case using assms(1) by (simp add: esc_def reads_attributes_def)
next
  case (Cons c t)
  have "attr (esc_unit c @ u) = c # attr u" for u
    using assms(1) Cons.prems by (auto simp: esc_unit_def reads_attributes_def kept_by_parsing_def)
  with Cons show ?case by (simp add: esc_def kept_by_parsing_def)
qed

lemma attr_tip_ne: "reads_attributes attr \<Longrightarrow> attr (esc (tip_text st n d)) \<noteq> []"
  by (simp add: tip_text_def jjoin_def units_def esc_def esc_unit_def reads_attributes_def split: list.split)

text \<open>What is written into an attribute cannot end it.\<close>

lemma esc_no_quote: "34 \<notin> set (esc t)" "60 \<notin> set (esc t)"
  by (auto simp: esc_def esc_unit_def units_def split: if_splits)

lemma tip_text_ne: "tip_text st n d \<noteq> []"
  by (simp add: tip_text_def jjoin_def units_def split: list.split)

lemma map_enumerate: "map (\<lambda>(l, x). f l) (enumerate k xs) = map f [k..<k + length xs]"
  by (induction xs arbitrary: k) (simp_all add: upt_rec)

lemma rows_of_find:
  assumes "0 < l" and "l \<le> length (f_src (the (map_of (data w) n)))"
  shows "List.find (\<lambda>r. fst r = l) (rows_of w st n) = Some (l, row_class (line_of_page w st n l), row_tip st l (line_of_page w st n l))"
proof -
  have find: "List.find (\<lambda>r. fst r = l) (map (\<lambda>l. (l, f l)) ls) = (if l \<in> set ls then Some (l, f l) else None)"
    for f :: "nat \<Rightarrow> str list \<times> jstr" and ls
    by (induction ls) auto
  have "l \<in> set [1..<1 + length (f_src (the (map_of (data w) n)))]" unfolding set_upt using assms by simp
  then show ?thesis unfolding rows_of_def map_enumerate find by (simp only: if_True)
qed

text \<open>
  C39. The tip window. Whatever the user did before, moving the mouse over a line of the file on display opens the tip
  when the line has points and closes it otherwise. The tip holds the text built from the line's data on the page
  and view on display, whatever markup its names, tests and reasons hold; a carriage return or a null character in
  them is the exception, since the parsing of the page does not keep it.
\<close>

theorem tip_shows_its_line:
  assumes "reads_attributes attr"
    and "reachable_window attr coll w win" and "cur_file (w_page win) = Some n"
    and "0 < l" and "l \<le> length (f_src (the (map_of (data w) n)))"
  shows "case line_of_page w (w_page win) n l of
      None \<Rightarrow> \<not> w_tip_open (window_step attr coll w (MouseAt (Some l) m) win)
    | Some d \<Rightarrow> w_tip_open (window_step attr coll w (MouseAt (Some l) m) win) \<and>
        (kept_by_parsing (tip_text (w_page win) l d) \<longrightarrow>
         w_tip (window_step attr coll w (MouseAt (Some l) m) win) = tip_text (w_page win) l d)"
proof -
  have "src_rows (w_page win) = rows_of w (w_page win) n"
    using reachable_page_ok [OF reachable_window_page [OF assms(2)]] assms(3) unfolding page_ok_def by blast
  then have "row_data attr (w_page win) (Some l) = attr (row_tip (w_page win) l (line_of_page w (w_page win) n l))"
    using rows_of_find [OF assms(4,5)] by (simp add: row_data_def)
  moreover have "attr [] = []" using assms(1) by (simp add: reads_attributes_def)
  ultimately show ?thesis
    using attr_esc [OF assms(1)] attr_tip_ne [OF assms(1)] by (auto simp: row_tip_def tip_text_ne Let_def split: option.split)
qed

text \<open>A reader of attributes that follows the standard, carriage returns and null characters included.\<close>

definition starts_units :: "str \<Rightarrow> jstr \<Rightarrow> bool" where
  "starts_units e t \<longleftrightarrow> take (length e) t = units e"

function read_attribute :: "jstr \<Rightarrow> jstr" where
  "read_attribute [] = []"
| "read_attribute (c # t) =
     (if starts_units ''&amp;'' (c # t) then 38 # read_attribute (drop 4 t)
      else if starts_units ''&lt;'' (c # t) then 60 # read_attribute (drop 3 t)
      else if starts_units ''&gt;'' (c # t) then 62 # read_attribute (drop 3 t)
      else if starts_units ''&quot;'' (c # t) then 34 # read_attribute (drop 5 t)
      else if c = 13 then (if t \<noteq> [] \<and> hd t = 10 then read_attribute t else 10 # read_attribute t)
      else if c = 0 then 65533 # read_attribute t
      else c # read_attribute t)"
  by pat_completeness auto

termination by (relation "measure length") auto

lemma read_attribute_reads: "reads_attributes read_attribute"
proof -
  have "read_attribute (c # t) = c # read_attribute t" if "c \<notin> {0, 13, 34, 38}" for c t
  proof -
    have "\<not> starts_units e (c # t)" if "e \<in> {''&amp;'', ''&lt;'', ''&gt;'', ''&quot;''}" for e
      using that \<open>c \<notin> {0, 13, 34, 38}\<close> by (auto simp: starts_units_def units_def)
    with that show ?thesis by simp
  qed
  then show ?thesis by (auto simp: reads_attributes_def starts_units_def units_def)
qed

definition noted :: site where
  "noted =
     (let d = \<lparr>l_hit = 0, l_tot = 1, l_miss = [], l_detail = [(''a<b'', 0, 0, None)], l_waived = []\<rparr>;
          g = \<lparr>p_lines = [(1, d)], p_hit = 0, p_found = 1, p_wv = 0\<rparr>
      in \<lparr>data = [(''a.v'', \<lparr>f_path = ''rtl/a.v'', f_src = [''x'', ''y''], f_views = [(''acc'', [(''v_line'', g)])]\<rparr>)],
          grand = [(''acc'', [(''v_line'', 0, 1)])], suggest_map = []\<rparr>)"

lemma tip_shows_its_line_witness:
  "w_tip (window_step read_attribute (\<lambda>n. []) noted (MouseAt (Some 1) \<lparr>client = (0, 0), tip_size = (90, 30), inner_size = (800, 600)\<rparr>)
      (window_start (\<lambda>n. []) noted)) =
    units (''line 1 '') @ dash @ units ('' Line 0/1'' @ [nl] @ ''  '') @ cross_sign @ units '' a<b  never taken''"
proof -
  let ?win = "window_start (\<lambda>n. []) noted" and ?m = "\<lparr>client = (0, 0), tip_size = (90, 30), inner_size = (800, 600)\<rparr>"
  let ?d = "\<lparr>l_hit = 0, l_tot = 1, l_miss = [], l_detail = [(''a<b'', 0, 0, None)], l_waived = []\<rparr>"
  have st: "cur_file (w_page ?win) = Some ''a.v'' \<and> cur_page (w_page ?win) = ''v_line'' \<and> cur_view (w_page ?win) = ''acc''"
    by (simp add: window_start_def page_start_def draw_src_def pick_file_def collect_holes_def file_rows_def file_row_def Let_def noted_def)
  then have d: "line_of_page noted (w_page ?win) ''a.v'' 1 = Some ?d"
    by (simp add: noted_def line_of_page_def page_of_def Let_def)
  let ?t = "units (''line 1 '') @ dash @ units ('' Line 0/1'' @ [nl] @ ''  '') @ cross_sign @ units '' a<b  never taken''"
  have shown: "tip_text (w_page ?win) 1 ?d = ?t"
    using st by (simp add: tip_text_def jjoin_def detail_tip_def point_title_def page_title_def units_def nat_str.simps digit_char_def)
  moreover have "kept_by_parsing ?t" by (simp add: kept_by_parsing_def units_def dash_def cross_sign_def)
  ultimately show ?thesis
    using tip_shows_its_line [OF read_attribute_reads reachable_window.start, of "\<lambda>n. []" noted "''a.v''" 1 ?m] st d
    by (simp add: noted_def Let_def del: window_step.simps)
qed

text \<open>
  The tip never sticks out on the right, nor below when it fits into the page at all. On the left it can: there
  is no bound like the one on top.
\<close>

lemma tip_inside:
  assumes "client m = (cx, cy)" and "tip_size m = (wd, ht)" and "inner_size m = (iw, ih)" and "tip_place m = (x, y)"
    and "cx \<le> iw" and "cy \<le> ih"
  shows "x + wd \<le> iw - 8" and "ht + 16 \<le> ih \<Longrightarrow> y + ht \<le> ih - 8"
  using assms by (auto simp: tip_place_def Let_def split: if_splits)

lemma tip_off_the_left: "tip_place \<lparr>client = (100, 10), tip_size = (300, 40), inner_size = (380, 600)\<rparr> = (-216, 24)"
  by (simp add: tip_place_def)

subsection \<open>What is copied\<close>

definition no_suggestion :: str where
  "no_suggestion = ''No suggestion for this line.'' @ [nl, nl] @
     ''Either every point here is already covered or waived,'' @ [nl] @
     ''or the hole is a partial line whose uncovered points sit elsewhere.''"

definition suggested :: "site \<Rightarrow> jstr \<Rightarrow> bool" where
  "suggested w t \<longleftrightarrow> t = units no_suggestion \<or>
     (\<exists>k s. map_of (suggest_map w) k = Some s \<and> (t = units (section_for k s) \<or> t = units (fence_for (fst s))))"

definition box_ok :: "site \<Rightarrow> page_state \<Rightarrow> bool" where
  "box_ok w st \<longleftrightarrow> (box_open st \<longrightarrow> suggested w (box_text st))"

lemma show_suggestion_box: "box_ok w (show_suggestion w b st)"
  by (auto simp: show_suggestion_def box_ok_def suggested_def no_suggestion_def split: option.split)

lemma redraw_box: "box_ok w (draw_src w (pick_file coll w st)) \<longleftrightarrow> box_ok w st"
  by (simp add: draw_src_def pick_file_def collect_holes_def box_ok_def split: option.split)

lemma goto_hole_box: "box_ok w st \<Longrightarrow> box_ok w (goto_hole w b st)"
  using show_suggestion_box by (simp add: goto_hole_def Let_def) (simp add: box_ok_def)

lemma page_step_box:
  assumes "box_ok w st"
  shows "box_ok w (page_step coll w ev st)"
proof (cases ev)
  case NextHole
  with assms show ?thesis by (simp add: goto_hole_box)
next
  case PrevHole
  with assms show ?thesis by (simp add: goto_hole_box)
qed (use assms show_suggestion_box in \<open>auto simp: redraw_box, auto simp: box_ok_def collect_holes_def\<close>)

text \<open>The copy button hands out suggestions of the page and nothing else.\<close>

lemma copied_is_suggested:
  assumes "reachable_window attr coll w win"
  shows "\<forall>t \<in> set (w_copies win). suggested w t"
proof -
  from assms have "box_ok w (w_page win) \<and> (\<forall>t \<in> set (w_copies win). suggested w t)"
  proof (induction rule: reachable_window.induct)
    case start
    have "box_ok w (page_start coll w)" unfolding page_start_def redraw_box by (simp add: box_ok_def)
    then show ?case by (simp add: window_start_def)
  next
    case (step win g)
    then show ?case using page_step_box [of w "w_page win"] by (cases g) (simp_all add: Let_def, auto simp: box_ok_def)
  qed
  then show ?thesis by blast
qed

end
