(* ===== verification/DocTools.thy ===== *)
theory DocTools
  imports PyRegex PyFloat Json PosixPath "HOL-Library.Multiset"
begin

text \<open>
  Two stand-alone tools: \<open>doc/img/render.py\<close> (diagrams to SVG) and \<open>extract_worst_path.py\<close> (the
  slack table of a timing report). WaveDrom and Graphviz are arguments, \<open>None\<close> when they are not
  installed; they map a source text to an error message or to the SVG.
\<close>

subsection \<open>\<open>render.py\<close>: patching an SVG\<close>

definition bg_mark :: str where
  "bg_mark = ''data-dark-mode-bg''"

definition white_bg_rect :: str where
  "white_bg_rect = ''<rect data-dark-mode-bg='' @ [dquote] @ ''true'' @ [dquote] @ '' width='' @ [dquote] @ ''100%'' @ [dquote] @
     '' height='' @ [dquote] @ ''100%'' @ [dquote] @ '' fill='' @ [dquote] @ ''#ffffff'' @ [dquote] @ ''/>''"

definition svg_open_rx :: rx where
  "svg_open_rx = Group 1 (seqs [lit ''<svg'', star (none_of ''>''), lit ''>''])"

definition patch_white_background :: "str \<Rightarrow> str" where
  "patch_white_background content =
     (if contains content bg_mark then content
      else re_sub_once svg_open_rx (\<lambda>m. whole m @ white_bg_rect) content)"

text \<open>\<open>(text\s*\{\s*font-size:)\d+pt\<close>, the number replaced by \<open>fontsize\<close>.\<close>

definition text_size_rx :: rx where
  "text_size_rx = seqs [Group 1 (seqs [lit ''text'', star space, lit ''{'', star space, lit ''font-size:'']), plus digit, lit ''pt'']"

definition override_text_fontsize :: "str \<Rightarrow> str \<Rightarrow> str" where
  "override_text_fontsize fontsize content =
     re_sub_once text_size_rx (\<lambda>m. group_text (snd m) 1 @ fontsize @ ''pt'') content"

text \<open>
  The font size hint, printed as Python prints the number; \<open>float_repr\<close> does so for the text of a
  JSON float. A Boolean is an \<open>int\<close> in Python.
\<close>

definition number_str :: "(str \<Rightarrow> str) \<Rightarrow> json \<Rightarrow> str option" where
  "number_str float_repr v =
     (case v of JInt i \<Rightarrow> Some (int_str i) | JFloat t \<Rightarrow> Some (float_repr t)
      | JBool b \<Rightarrow> Some (if b then ''True'' else ''False'') | _ \<Rightarrow> None)"

definition fontsize_hint :: "(str \<Rightarrow> str) \<Rightarrow> str \<Rightarrow> str option" where
  "fontsize_hint float_repr t =
     (case json_loads t of
        Some (JObj ms) \<Rightarrow>
          (case map_of ms ''config'' of
             Some (JObj cfg) \<Rightarrow> (case map_of cfg ''fontsize'' of None \<Rightarrow> None | Some v \<Rightarrow> number_str float_repr v)
           | _ \<Rightarrow> None)
      | _ \<Rightarrow> None)"

type_synonym files = "str \<Rightarrow> str option"
type_synonym wavedrom = "str \<Rightarrow> str + str option"
type_synonym graphviz = "str \<Rightarrow> str + str"

definition render_wavedrom :: "wavedrom \<Rightarrow> (str \<Rightarrow> str) \<Rightarrow> files \<Rightarrow> str \<Rightarrow> str \<Rightarrow> str + files" where
  "render_wavedrom wd float_repr fs src svg =
     (let t = the (fs src)
      in case wd t of
           Inl e \<Rightarrow> Inl e
         | Inr None \<Rightarrow> Inl (''wavedrom.render returned None for '' @ src)
         | Inr (Some out) \<Rightarrow>
             (let out1 = (case fontsize_hint float_repr t of None \<Rightarrow> out | Some f \<Rightarrow> override_text_fontsize f out)
              in Inr (fs(svg := Some (patch_white_background out1)))))"

definition render_dot :: "graphviz \<Rightarrow> files \<Rightarrow> str \<Rightarrow> str \<Rightarrow> str + files" where
  "render_dot gv fs src svg =
     (case gv (the (fs src)) of
        Inl e \<Rightarrow> Inl e
      | Inr out \<Rightarrow> Inr (fs(svg := Some (patch_white_background out))))"

subsection \<open>\<open>render.py\<close>: the main program\<close>

record render_state =
  r_files :: files
  r_out :: "str list"
  r_errors :: nat

definition note_out :: "str \<Rightarrow> render_state \<Rightarrow> render_state" where
  "note_out l st = st\<lparr>r_out := r_out st @ [l]\<rparr>"

definition note_error :: "str \<Rightarrow> render_state \<Rightarrow> render_state" where
  "note_error l st = (note_out l st)\<lparr>r_errors := Suc (r_errors st)\<rparr>"

definition finish_render :: "str \<Rightarrow> str \<Rightarrow> str \<Rightarrow> str + files \<Rightarrow> render_state \<Rightarrow> render_state" where
  "finish_render src base ext res st =
     (case res of
        Inl e \<Rightarrow> note_error (''  ERROR    '' @ basename src @ '': '' @ e) st
      | Inr fs \<Rightarrow> note_out (''  rendered '' @ base @ ext @ '' -> '' @ base @ ''.svg'') (st\<lparr>r_files := fs\<rparr>))"

definition render_step ::
    "wavedrom option \<Rightarrow> (str \<Rightarrow> str) \<Rightarrow> graphviz option \<Rightarrow> str \<Rightarrow> str \<Rightarrow> render_state \<Rightarrow> render_state" where
  "render_step wd float_repr gv script_dir src st =
     (if r_files st src = None then note_error (''  MISSING: '' @ src) st
      else
        (let (base, ext) = splitext (basename src); svg = path_join script_dir (base @ ''.svg'')
         in if ext = ''.json'' then
              (case wd of
                 None \<Rightarrow> note_error (''  SKIP:    '' @ basename src @ '' (need: pip install wavedrom)'') st
               | Some w \<Rightarrow> finish_render src base ext (render_wavedrom w float_repr (r_files st) src svg) st)
            else if ext = ''.dot'' then
              (case gv of
                 None \<Rightarrow> note_error (''  SKIP:    '' @ basename src @ '' (need: graphviz `dot` in PATH)'') st
               | Some d \<Rightarrow> finish_render src base ext (render_dot d (r_files st) src svg) st)
            else note_out (''  SKIP:    '' @ basename src @ '' (unsupported extension '' @ ext @ '')'') st))"

definition render_sources :: "str \<Rightarrow> str list \<Rightarrow> str list \<Rightarrow> str list" where
  "render_sources script_dir listing args =
     (if args \<noteq> [] then map (\<lambda>a. if startswith a ''/'' then a else path_join script_dir a) args
      else sort (map (path_join script_dir) (filter (\<lambda>f. endswith f ''.json'' \<or> endswith f ''.dot'') listing)))"

definition render_main ::
    "wavedrom option \<Rightarrow> (str \<Rightarrow> str) \<Rightarrow> graphviz option \<Rightarrow> str \<Rightarrow> str list \<Rightarrow> str list \<Rightarrow> files \<Rightarrow> nat \<times> render_state" where
  "render_main wd float_repr gv script_dir listing args fs =
     (let st0 = \<lparr>r_files = fs, r_out = [], r_errors = 0\<rparr>; srcs = render_sources script_dir listing args
      in if srcs = [] then (1, note_out (''No .json or .dot files found in '' @ script_dir) st0)
         else (let st = fold (render_step wd float_repr gv script_dir) srcs st0
               in (if r_errors st \<noteq> 0 then 1 else 0, st)))"

subsection \<open>\<open>extract_worst_path.py\<close>\<close>

record tpath =
  t_slack :: rat
  t_minus :: bool
  t_status :: str
  t_start :: str
  t_end :: str
  t_text :: str

definition block_start_rx :: rx where
  "block_start_rx = Seq (plus (one_of [CHR '' '', CHR 0x09])) (lit ''Startpoint:'')"

definition slack_rx :: rx where
  "slack_rx = seqs [lit ''slack'', plus space, lit ''('', Group 1 (alts [lit ''MET'', lit ''VIOLATED'']), lit '')'', plus space,
     Group 2 (plus (Chr (\<lambda>c. c = CHR ''-'' \<or> is_digit c \<or> c = CHR ''.'')))]"

definition point_rx :: "str \<Rightarrow> rx" where
  "point_rx name = seqs [lit name, star space, lit '':'', plus space, Group 1 (plus non_space)]"

fun slices :: "str \<Rightarrow> nat list \<Rightarrow> str list" where
  "slices t [] = []"
| "slices t [a] = [drop a t]"
| "slices t (a # b # as) = take (b - a) (drop a t) # slices t (b # as)"

definition blocks :: "str \<Rightarrow> str list" where
  "blocks t = slices t (map (\<lambda>m. pos (fst m)) (re_finditer block_start_rx t))"

text \<open>\<open>float()\<close> of a text of digits, points and minus signs: the sign and the number.\<close>

definition signed_float :: "str \<Rightarrow> (bool \<times> rat) res" where
  "signed_float t =
     (let neg = startswith t ''-''
      in case py_float (if neg then tl t else t) of
           None \<Rightarrow> Inl (ValueError t)
         | Some q \<Rightarrow> Inr (neg, if neg then - q else q))"

text \<open>\<open>'%+.3f'\<close>\<close>

definition signed3 :: "bool \<Rightarrow> rat \<Rightarrow> str" where
  "signed3 neg q =
     (let n = nat (round_even (\<bar>q\<bar> * 1000))
      in (if neg then ''-'' else ''+'') @ nat_str (n div 1000) @ ''.'' @ zfill 3 (nat_str (n mod 1000)))"

definition read_block :: "str \<Rightarrow> tpath option res" where
  "read_block blk =
     (case (re_search slack_rx blk, re_search (point_rx ''Startpoint'') blk, re_search (point_rx ''Endpoint'') blk) of
        (Some (_, s), Some (_, a), Some (_, e)) \<Rightarrow>
          bind_res (signed_float (group_text s 2)) (\<lambda>(neg, q).
            Inr (Some \<lparr>t_slack = q, t_minus = neg, t_status = group_text s 1, t_start = group_text a 1,
              t_end = group_text e 1, t_text = rstrip blk\<rparr>))
      | _ \<Rightarrow> Inr None)"

definition timing_paths :: "str \<Rightarrow> tpath list res" where
  "timing_paths t =
     bind_res (map_res read_block (blocks t)) (\<lambda>ps. Inr (sort_key t_slack (List.map_filter id ps)))"

definition path_row :: "nat \<times> tpath \<Rightarrow> str" where
  "path_row ip =
     (let p = snd ip; tag = (if t_status p = ''VIOLATED'' then ''[VIOLATED]'' else ''[MET]     '')
      in ''  '' @ ljust 4 (nat_str (fst ip)) @ '' '' @ rjust 8 (signed3 (t_minus p) (t_slack p)) @ ''  '' @ tag @ ''  '' @
         t_start p @ ''  ->  '' @ t_end p)"

definition detail_lines :: "nat \<times> tpath \<Rightarrow> str list" where
  "detail_lines ip =
     (let p = snd ip; bar = replicate 78 (CHR ''='')
      in [bar, ''  PATH '' @ nat_str (fst ip) @ ''  slack='' @ signed3 (t_minus p) (t_slack p) @ '' ('' @ t_status p @ '')'',
          bar, t_text p, []])"

definition report_lines :: "bool \<Rightarrow> int \<Rightarrow> tpath list \<Rightarrow> str list" where
  "report_lines short n ps =
     [''  '' @ ljust 4 ''#'' @ '' '' @ rjust 8 ''Slack'' @ ''  '' @ ljust 10 ''Status'' @ ''  Startpoint -> Endpoint'',
      ''  '' @ replicate 100 (CHR ''-'')] @
     map path_row (enumerate 1 (if short then take 10 ps else ps)) @ [[]] @
     (if short then [] else concat (map detail_lines (enumerate 1 (take (nat n) ps))))"

text \<open>The exit status and what is printed; \<open>here\<close> is the directory of the script.\<close>

definition worst_path_main :: "files \<Rightarrow> str \<Rightarrow> str list \<Rightarrow> (nat \<times> str list) res" where
  "worst_path_main fs here argv =
     (let short = ''-short'' \<in> set argv; args = remove1 ''-short'' argv;
          file = (case args of [] \<Rightarrow> path_join here ''results/report.full_paths.max'' | a # as \<Rightarrow> a)
      in bind_res (case args of a # b # as \<Rightarrow> (case py_int b of None \<Rightarrow> Inl (ValueError b) | Some n \<Rightarrow> Inr n) | _ \<Rightarrow> Inr 1) (\<lambda>n.
           case fs file of
             None \<Rightarrow> Inr (1, [''extract_worst_path.py: report file not found: '' @ file,
               ''  (run ./run_syn first, or pass a different path as the first argument)''])
           | Some t \<Rightarrow> bind_res (timing_paths t) (\<lambda>ps. Inr (0, report_lines short n ps))))"

subsection \<open>Facts\<close>

text \<open>The first row of the table, and the path printed in detail, is a worst one; no path is lost.\<close>

lemma timing_paths_worst_first:
  "timing_paths t = Inr ps \<Longrightarrow> sorted (map t_slack ps) \<and>
     (\<exists>qs. map_res read_block (blocks t) = Inr qs \<and> mset ps = mset (List.map_filter id qs))"
  by (auto simp: timing_paths_def bind_res_Inr_iff)

text \<open>The exit status of \<open>render.py\<close> is 0 exactly when no source was reported.\<close>

lemma render_status:
  "render_sources d listing args \<noteq> [] \<Longrightarrow>
   fst (render_main wd fr gv d listing args fs) = 0 \<longleftrightarrow> r_errors (snd (render_main wd fr gv d listing args fs)) = 0"
  by (simp add: render_main_def Let_def)

text \<open>Patching twice is patching once, whatever the file holds.\<close>

lemma patch_idempotent: "patch_white_background (patch_white_background t) = patch_white_background t"
proof (cases "contains t bg_mark \<or> re_finditer svg_open_rx t = []")
  case True
  then have "patch_white_background t = t"
    by (auto simp: patch_white_background_def re_sub_once_def)
  then show ?thesis by simp
next
  case False
  then obtain a b ms where m: "re_finditer svg_open_rx t = (a, b) # ms" by (metis list.exhaust surj_pair)
  have "patch_white_background t =
      (take (pos a) t @ whole (a, b)) @ white_bg_rect @ drop (pos b) t"
    using False by (simp add: patch_white_background_def re_sub_once_def m)
  moreover have "contains white_bg_rect bg_mark" by code_simp
  ultimately have "contains (patch_white_background t) bg_mark"
    using contains_append contains_trans by metis
  then show ?thesis by (simp add: patch_white_background_def [of "patch_white_background t"])
qed

end
