(* ===== verification/Spec2Isabelle.thy ===== *)
theory Spec2Isabelle
  imports Flatten Sweep LintSweep VcdWindow CoverageTools RunConfigs NetSemantics ReportsAgree ReportAfterWrite PageWindow DocTools
begin

text \<open>
  Verification of the flow scripts of arvern-ips, a library of Verilog IP blocks. The hardware is
  Verilog; the Python code beside it selects what is built, runs and judges the simulations, and
  reports their coverage. That code is the program here. Most scripts stand in every IP block as the
  same text; the copy of \<open>ahb_aclint\<close> is modelled, and where the blocks differ (parameter tables,
  simulation tables, sweeps, job lists) each of them is.

  \<^bold>\<open>How the parts work together.\<close> A table of parameter sets per IP block (\<open>rtl_configs.py\<close>) is the one
  place where configurations are listed. \<open>gen_rtl_params.py\<close> hands one of them to synthesis as a Tcl
  file, \<open>run_lint_sweep.py\<close> lints all of them, \<open>cov_const_cfg.py\<close> and \<open>cov_jobs.py\<close> derive from it, or
  from the simulation scripts, what a coverage run builds. \<open>flatten_filelist.py\<close> turns nested filelists
  into the flat ones the tools take; \<open>cov_scope.py\<close> and \<open>cov_const_cfg.py\<close> read the same filelists.
  \<open>run_sweep.py\<close> compiles and runs every test in every configuration and gates on \<open>coverage.py\<close>.
  Verilator's databases then go to \<open>cov_report.py\<close> (text) and \<open>cov_html.py\<close> (a page), both of which set
  aside the points \<open>cov_waive.py\<close> finds waived. \<open>cov_const.py\<close> finds toggle bits that are constant by
  construction and writes waivers for them, built by the suggestion code of \<open>cov_waive.py\<close>, which the
  page offers for pasting too. \<open>vcd_window.py\<close>, \<open>render.py\<close> and \<open>extract_worst_path.py\<close> stand alone.

  \<^bold>\<open>Which theory models which file\<close> (under \<open>ahb_aclint/sim/rtl_sim/bin\<close> unless said otherwise).

  \<^item> \<open>PyText\<close>: Python text, integers, dictionaries (the locale \<open>keyed_store\<close>, interpreted for association
    lists) and results with exceptions. \<open>PyRegex\<close>: \<open>re\<close> as a backtracking matcher with a list-of-outcomes
    reference semantics. \<open>PyFloat\<close>: floats as rationals rounded to 53 bits. \<open>PosixPath\<close>: \<open>os.path\<close>.
    \<open>Fnmatch\<close>: \<open>fnmatch.fnmatch\<close>. \<open>Json\<close>: \<open>json.loads\<close> and \<open>json.dumps\<close>; the locale \<open>json_writer\<close> states
    what a writer promises and gives the round trip, interpreted for the three writers in use.
  \<^item> \<open>WaiverFold\<close>, \<open>Waivers\<close>, \<open>WaiverDoc\<close>, \<open>WaiverSuggest\<close>: \<open>cov_waive.py\<close>. Folding bit indices into globs (over the
    locale \<open>glob_language\<close>, interpreted for \<open>fnmatch\<close>); the waiver set with both loaders, its source
    cache and hit counters; the suggested entries and the lint. \<open>WaiverDoc\<close> describes a waiver document
    by its prose and its fenced blocks, without the loader's line scan. A loader message is a constructor of
    \<open>werror\<close>, a raised exception a left value of \<open>res\<close>.
  \<^item> \<open>CovReport\<close>: \<open>cov_report.py\<close>. \<open>CovHtml\<close>: \<open>cov_html.py\<close>. \<open>PageScript\<close>: the JavaScript in the page, as
    a state machine with one event per thing the user can do (\<open>page_step\<close>, \<open>reachable_page\<close>).
    \<open>PageWindow\<close>: the tip window, the flashing row and the copy button around it; how the browser reads
    an attribute back is an argument there.
    \<open>SameTotals\<close>, \<open>ReportsAgree\<close>: the two programs on the same databases, source locations and instances.
  \<^item> \<open>ConstText\<close>, \<open>ConstNetlist\<close>, \<open>CovConst\<close>: \<open>cov_const.py\<close>, the parser used without Yosys, the netlist
    reader used with it, and the main program. \<open>NetSemantics\<close>: what a netlist means, as equations between
    bits, and the search against it. \<open>SectionLoad\<close>: what \<open>cov_const.py\<close> and the page write, followed through
    the loader of \<open>cov_waive.py\<close>. \<open>SectionRewrite\<close>: the section written again, over an older one.
    \<open>WrittenWaivers\<close>: a whole run with \<open>--write\<close>, from the report to the waivers the written document holds.
    \<open>ReportAfterWrite\<close>: \<open>cov_report.py\<close> before and after such a run.
  \<^item> \<open>Flatten\<close>: \<open>flatten_filelist.py\<close>. \<open>RtlConfigs\<close>: the eight \<open>rtl_configs.py\<close>, \<open>gen_rtl_params.py\<close>, and
    \<open>rtl_configs_defines.py\<close> of \<open>arv_custom_csr\<close>; the Tcl file is read by the word rules of the Tcl
    manual, so quoting and escaping count. \<open>RunConfigs\<close>: \<open>cov_const_cfg.py\<close> and \<open>cov_jobs.py\<close> of
    all blocks, against tables of what the macros of two test benches make of the module parameters. \<open>CoverageTools\<close>: \<open>cov_scope.py\<close>, \<open>cov_vlfix.py\<close>, \<open>check_core_manifest.py\<close>.
  \<^item> \<open>Sweep\<close>: \<open>sim_configs.py\<close> and \<open>run_sweep.py\<close> of \<open>ahb_aclint\<close> and \<open>ahb_plic\<close>, \<open>coverage.py\<close> and
    \<open>cov_report\<close>; the locale \<open>sweep_runner\<close> states what the loop needs of one run, interpreted for both.
    \<open>LintSweep\<close>: the three \<open>run_lint_sweep.py\<close>, over the locale \<open>lint_loop\<close>.
  \<^item> \<open>VcdWindow\<close>: \<open>ahb_interconnect\<close>'s \<open>vcd_window.py\<close>. \<open>DocTools\<close>: \<open>doc/img/render.py\<close> and
    \<open>synthesis/synopsys/extract_worst_path.py\<close>.

  \<^bold>\<open>What is shown.\<close> Waiving: a suggestion, a generated section and a pasted section are loaded as
  written and cover exactly the points they are meant for; a document's entries are all loaded or reported,
  except for those with an empty list of types; a loaded waiver has a reason; matching is first match; the report splits
  the points into kept and waived without losing one; the page's totals count what they say, and on plain
  databases they are those of the text report, for source locations and for instances.
  Constants: the bits found in a netlist are those with one value in all solutions of its equations, and
  a bit the Yosys method reports has one in every instance of every configuration, where all wires of its name
  are wide enough to hold it. A run with
  \<open>--write\<close> leaves a document whose new waivers cover exactly the uncovered toggle points that were found
  constant, what an earlier run left in the document makes no difference to that, and the next text report
  leaves out those points and no others. Builds: the files written for
  other tools are read back as the parameters they stand for, flattening stops on cyclic includes and
  is idempotent, and the tools that read one filelist agree. Sweeps: the exit status is 0 exactly when
  every run passed and every required bin was hit. The page: its hole walk stays inside the holes on
  display in every reachable state and visits each of them; the tip of a line is the text built from it, and what
  is copied is a suggestion. The window: the text of a
  header declares the variables of its scope tree, and the sampled rows are those of a reading of the dump that
  is organised by time stamps instead of lines.

  \<^bold>\<open>Bounds.\<close> \<open>json_loads\<close> runs on fuel twice the length of the text, of which each character uses at most
  two; \<open>re.finditer\<close> on one round more than the text has characters, since each moves forward; a
  repetition in a pattern on the length of the rest. \<open>concat\<close> of \<open>cov_const.py\<close> and the flattener have
  Python's recursion limit as an argument, and a lemma that a limit above the nesting depth, or the
  number of files, is never reached. Other loops are structural or have a measure. Integers are
  unbounded, as in Python; a float is rounded to 53 bits with no bound on the exponent. A character is
  one of 256 code points, so text beyond Latin-1 is not represented, except in the page, whose strings
  are UTF-16 code units.

  \<^bold>\<open>Arguments of the model\<close> stand for what is not in the repository: the compiler of user-written regular
  expressions, the file system, Yosys, Verilator, \<open>iverilog\<close> and the simulation, the random seed, node's
  syntax check, WaveDrom, Graphviz, and the browser's locale order of names and its parsing of an attribute. The
  compiler and the simulation depend on the command line and the stimulus link and always return; the scripts
  set no time limit, and a simulation that hangs is not represented. A dictionary is an association list in insertion
  order; sets whose order can be seen are sorted as the code sorts them.

  \<^bold>\<open>Not modelled.\<close> The Verilog (RTL, benches, stimuli), the C drivers, and the Tcl and shell scripts: other
  languages with their own semantics, or glue that starts tools outside the repository. \<open>argparse\<close> is
  modelled only through the options it returns. The style sheet of the page and scrolling
  leave no state the script reads back. Copies of a script in other blocks are not
  repeated.
\<close>

end
